(* ===== verification/Raft_Prelude.thy ===== *)
theory Raft_Prelude
  imports Main "HOL-Library.Word" "HOL-Library.Monad_Syntax" "HOL-Library.Code_Target_Numeral"
begin

text \<open>
  Shared vocabulary of the development: the Go types the sources use, the reading of Go's
  built-in operations on slices and maps, the lemma collections, and the generic facts on
  lists and 64-bit words that the component theories share.

  Conventions. A Go \<open>uint64\<close> is a \<^typ>\<open>64 word\<close>; the conversion \<open>int(x)\<close> of such a value is
  \<open>sint x\<close> (Go's \<open>int\<close> has 64 bits on the supported platforms). Go strings and byte slices are
  lists of bytes (\<^typ>\<open>char list\<close>). A run-time panic is the value \<open>None\<close> of an option type. A
  Go map is a partial function; indexing an absent key yields the zero value.
\<close>

type_synonym u64 = "64 word"
type_synonym u32 = "32 word"
type_synonym bytes = "char list"

section \<open>Lemma collections\<close>

named_theorems cluster_update \<open>how a step changes the nodes and the messages of a cluster\<close>
named_theorems range_words \<open>64-bit log positions in range, as natural numbers\<close>

section \<open>Go built-ins\<close>

text \<open>\<open>len(xs)\<close> as a Go \<open>int\<close>, and \<open>int(x)\<close> of an unsigned value.\<close>

definition go_len :: "'a list \<Rightarrow> int" where
  "go_len xs = int (length xs)"

definition go_int :: "u64 \<Rightarrow> int" where
  "go_int x = sint x"

text \<open>\<open>xs[i]\<close> with an unsigned index: panics out of range.\<close>

definition go_index :: "'a list \<Rightarrow> u64 \<Rightarrow> 'a option" where
  "go_index xs i = (if unat i < length xs then Some (xs ! unat i) else None)"

text \<open>\<open>xs[lo:hi]\<close> with unsigned bounds: panics unless \<open>lo \<le> hi \<le> len(xs)\<close>.\<close>

definition go_slice :: "'a list \<Rightarrow> u64 \<Rightarrow> u64 \<Rightarrow> 'a list option" where
  "go_slice xs lo hi =
     (if unat lo \<le> unat hi \<and> unat hi \<le> length xs
      then Some (take (unat hi - unat lo) (drop (unat lo) xs)) else None)"

text \<open>A slice length is a non-negative \<open>int\<close>; growing beyond that panics.\<close>

definition max_len :: nat where
  "max_len = 2 ^ 63"

definition go_append :: "'a list \<Rightarrow> 'a list \<Rightarrow> 'a list option" where
  "go_append xs ys = (if length xs + length ys < max_len then Some (xs @ ys) else None)"

text \<open>Map indexing with the zero value of the element type.\<close>

definition go_get :: "'v \<Rightarrow> ('k \<rightharpoonup> 'v) \<Rightarrow> 'k \<Rightarrow> 'v" where
  "go_get z m k = (case m k of None \<Rightarrow> z | Some v \<Rightarrow> v)"

section \<open>Words\<close>

lemma sint_cases:
  "sint (x::u64) = (if unat x < 2 ^ 63 then int (unat x) else int (unat x) - 2 ^ 64)"
proof -
  have u: "uint x < 2 ^ 64" "0 \<le> uint x" using uint_lt2p [of x] by simp_all
  have n: "unat x < 2 ^ 63 \<longleftrightarrow> uint x < 2 ^ 63"
    unfolding uint_nat by (auto simp del: of_nat_unat)
  have s: "sint x = (uint x + 2 ^ 63) mod 2 ^ 64 - 2 ^ 63"
    unfolding sint_uint signed_take_bit_eq_take_bit_shift take_bit_eq_mod by simp
  show ?thesis
  proof (cases "uint x < 2 ^ 63")
    case True
    then have "(uint x + 2 ^ 63) mod 2 ^ 64 = uint x + 2 ^ 63"
      using u by (intro mod_pos_pos_trivial) simp_all
    with True n s show ?thesis unfolding uint_nat [symmetric] by simp
  next
    case False
    have "(uint x + 2 ^ 63) mod 2 ^ 64 = (uint x - 2 ^ 63) mod 2 ^ 64"
      using mod_add_self2 [of "uint x - 2 ^ 63" "2 ^ 64"] by (simp add: add.commute)
    also have "\<dots> = uint x - 2 ^ 63" using u False by (intro mod_pos_pos_trivial) simp_all
    finally show ?thesis using False n s unfolding uint_nat [symmetric] by simp
  qed
qed

lemma unat_u64_lt: "unat (x::u64) < 2 ^ 64"
  using uint_lt2p [of x] unfolding uint_nat by (simp del: of_nat_unat)

lemma go_int_less_len:
  "go_int x < go_len xs \<longleftrightarrow> unat x < length xs \<or> max_len \<le> unat x"
  using unat_u64_lt [of x]
  by (auto simp: go_int_def go_len_def sint_cases max_len_def simp del: of_nat_unat)

lemma go_int_ge_len:
  "go_len xs \<le> go_int x \<longleftrightarrow> length xs \<le> unat x \<and> unat x < max_len"
  using go_int_less_len [of x xs] by linarith

lemma unat_of_nat_small: "n < 2 ^ 64 \<Longrightarrow> unat (of_nat n :: u64) = n"
  by (simp add: unat_of_nat)

lemma unat_of_nat_len [simp]: "n \<le> max_len \<Longrightarrow> unat (of_nat n :: u64) = n"
  by (rule unat_of_nat_small) (simp add: max_len_def)

lemma of_int_len: "xs \<noteq> [] \<Longrightarrow> of_int (go_len xs - 1) = (of_nat (length xs - 1) :: u64)"
  by (cases xs) (simp_all add: go_len_def)

lemma unat_Suc: "unat (x::u64) < 2 ^ 64 - 1 \<Longrightarrow> unat (x + 1) = Suc (unat x)"
  by (simp add: unat_word_ariths)

lemma unat_Suc_len: "unat (x::u64) < max_len \<Longrightarrow> unat (x + 1) = Suc (unat x)"
  by (rule unat_Suc) (simp add: max_len_def)

lemma word_less_Suc: "(x::u64) < - 1 \<Longrightarrow> x < x + 1"
proof -
  assume "x < - 1"
  then have "1 + x \<noteq> 0" by (metis add.commute add_eq_0_iff2 less_irrefl)
  then show ?thesis using unatSuc [of x] by (simp add: word_less_nat_alt add.commute)
qed

lemma unat_pred: "0 < (x::u64) \<Longrightarrow> unat (x - 1) = unat x - 1"
  by (simp add: unat_minus_one word_gt_0)

lemma of_nat_unat_len: "(of_nat (unat x) :: u64) = x"
  by simp

section \<open>Lists\<close>

lemma take_Suc_nth_eq:
  assumes "take n xs = take n ys" and "n < length xs" and "n < length ys" and "xs ! n = ys ! n"
  shows "take (Suc n) xs = take (Suc n) ys"
  using assms by (simp add: take_Suc_conv_app_nth)

lemma take_le_eq: "take n xs = take n ys \<Longrightarrow> m \<le> n \<Longrightarrow> take m xs = take m ys"
  by (metis min.absorb1 take_take)

lemma take_eq_nth: "take n xs = take n ys \<Longrightarrow> i < n \<Longrightarrow> xs ! i = ys ! i"
  by (metis nth_take)

lemma go_index_Some: "go_index xs i = Some x \<longleftrightarrow> unat i < length xs \<and> xs ! unat i = x"
  by (simp add: go_index_def)

lemma go_index_None: "go_index xs i = None \<longleftrightarrow> length xs \<le> unat i"
  by (simp add: go_index_def not_less)

lemma go_append_Some: "go_append xs ys = Some zs \<longleftrightarrow> length xs + length ys < max_len \<and> zs = xs @ ys"
  by (auto simp: go_append_def)

lemma go_get_upd: "go_get z (m(k \<mapsto> v)) k' = (if k' = k then v else go_get z m k')"
  by (simp add: go_get_def)

lemma go_get_empty [simp]: "go_get z Map.empty k = z"
  by (simp add: go_get_def)

end
