(* ===== verification/Raft_Types.thy ===== *)
theory Raft_Types
  imports Raft_Prelude
begin

text \<open>
  The core types of \<open>internal/raft/types.go\<close> and \<open>internal/raft/errors.go\<close>: identifiers,
  terms, log indices, node roles, log entries and the arguments and replies of the two RPCs.
  Record fields carry a prefix where the Go structs share a field name.
\<close>

type_synonym NodeID = "string"
type_synonym Term = u64
type_synonym LogIndex = u64

datatype State = Follower | Candidate | Leader

fun State_String :: "State \<Rightarrow> string" where
  "State_String Follower = ''follower''"
| "State_String Candidate = ''candidate''"
| "State_String Leader = ''leader''"

record LogEntry =
  le_Term :: Term
  le_Index :: LogIndex
  le_Command :: bytes

record RequestVoteArgs =
  rv_Term :: Term
  rv_CandidateID :: NodeID
  rv_LastLogIndex :: LogIndex
  rv_LastLogTerm :: Term

record RequestVoteReply =
  rvr_Term :: Term
  rvr_VoteGranted :: bool

record AppendEntriesArgs =
  ae_Term :: Term
  ae_LeaderID :: NodeID
  ae_PrevLogIndex :: LogIndex
  ae_PrevLogTerm :: Term
  ae_Entries :: "LogEntry list"
  ae_LeaderCommit :: LogIndex

record AppendEntriesReply =
  aer_Term :: Term
  aer_Success :: bool
  aer_ConflictTerm :: Term
  aer_ConflictIndex :: LogIndex

datatype raft_error = ErrNotLeader | ErrTimeout | ErrStopped

end
