(* ===== verification/Raft_Log.thy ===== *)
theory Raft_Log
  imports Raft_Types
begin

text \<open>
  The in-memory log of \<open>internal/raft/log.go\<close>: a slice whose element 0 is a sentinel. Every
  method is translated with its Go integer conversions, so that an index of at least \<open>2 ^ 63\<close>
  shows the behaviour of \<open>int(idx)\<close> turning negative; a panic is \<open>None\<close>. The lemmas reduce
  the methods to list operations for indices below \<open>2 ^ 63\<close>.
\<close>

record RaftLog =
  entries :: "LogEntry list"

definition sentinel :: LogEntry where
  "sentinel = \<lparr>le_Term = 0, le_Index = 0, le_Command = []\<rparr>"

definition NewRaftLog :: RaftLog where
  "NewRaftLog = \<lparr>entries = [sentinel]\<rparr>"

definition Append :: "RaftLog \<Rightarrow> LogEntry list \<Rightarrow> RaftLog option" where
  "Append l es = do { xs \<leftarrow> go_append (entries l) es; Some (l\<lparr>entries := xs\<rparr>) }"

definition Entry :: "RaftLog \<Rightarrow> LogIndex \<Rightarrow> LogEntry option" where
  "Entry l idx = go_index (entries l) idx"

definition LastIndex :: "RaftLog \<Rightarrow> LogIndex" where
  "LastIndex l = of_int (go_len (entries l) - 1)"

definition LastTerm :: "RaftLog \<Rightarrow> Term option" where
  "LastTerm l = (if entries l = [] then None else Some (le_Term (last (entries l))))"

definition TruncateAfter :: "RaftLog \<Rightarrow> LogIndex \<Rightarrow> RaftLog option" where
  "TruncateAfter l idx =
     (if go_int idx < go_len (entries l) - 1
      then do { xs \<leftarrow> go_slice (entries l) 0 (idx + 1); Some (l\<lparr>entries := xs\<rparr>) }
      else Some l)"

definition Entries :: "RaftLog \<Rightarrow> LogIndex \<Rightarrow> LogIndex \<Rightarrow> LogEntry list option" where
  "Entries l startIdx endIdx =
     (if startIdx > endIdx \<or> go_int startIdx \<ge> go_len (entries l) then Some []
      else let endIdx' = (if go_int endIdx \<ge> go_len (entries l)
                          then of_int (go_len (entries l) - 1) else endIdx)
           in go_slice (entries l) startIdx (endIdx' + 1))"

definition EntriesFrom :: "RaftLog \<Rightarrow> LogIndex \<Rightarrow> LogEntry list option" where
  "EntriesFrom l startIdx = Entries l startIdx (LastIndex l)"

definition Len :: "RaftLog \<Rightarrow> int" where
  "Len l = go_len (entries l)"

definition Contains :: "RaftLog \<Rightarrow> LogIndex \<Rightarrow> bool" where
  "Contains l idx \<longleftrightarrow> go_int idx < go_len (entries l)"

definition TermAt :: "RaftLog \<Rightarrow> LogIndex \<Rightarrow> Term option" where
  "TermAt l idx =
     (if \<not> Contains l idx then Some 0
      else do { e \<leftarrow> go_index (entries l) idx; Some (le_Term e) })"

definition RestoreEntries :: "RaftLog \<Rightarrow> LogEntry list \<Rightarrow> RaftLog option" where
  "RestoreEntries l es = do { xs \<leftarrow> go_append [sentinel] es; Some (l\<lparr>entries := xs\<rparr>) }"

text \<open>The loop \<open>for i := 1; i < len(l.entries); i++\<close> over the entries after the sentinel.\<close>

fun find_first_loop :: "LogEntry list \<Rightarrow> Term \<Rightarrow> LogIndex \<Rightarrow> LogIndex" where
  "find_first_loop [] t i = 0"
| "find_first_loop (e # es) t i = (if le_Term e = t then i else find_first_loop es t (i + 1))"

definition FindFirstIndexOfTerm :: "RaftLog \<Rightarrow> Term \<Rightarrow> LogIndex" where
  "FindFirstIndexOfTerm l t = find_first_loop (drop 1 (entries l)) t 1"

section \<open>Well-formed logs\<close>

text \<open>
  What every log reachable by the node satisfies: it starts with the sentinel, the stored
  index of an entry is its position, real entries carry a positive term, and the length is a
  Go \<open>int\<close>.
\<close>

definition entries_ok :: "LogEntry list \<Rightarrow> bool" where
  "entries_ok es \<longleftrightarrow>
     es \<noteq> [] \<and> hd es = sentinel \<and> length es < max_len \<and>
     (\<forall>i < length es. le_Index (es ! i) = of_nat i) \<and>
     (\<forall>i < length es. 0 < i \<longrightarrow> 0 < le_Term (es ! i))"

definition log_ok :: "RaftLog \<Rightarrow> bool" where
  "log_ok l \<longleftrightarrow> entries_ok (entries l)"

lemma entries_ok_sentinel: "entries_ok es \<Longrightarrow> es ! 0 = sentinel"
  by (metis entries_ok_def hd_conv_nth)

lemma entries_ok_index: "entries_ok es \<Longrightarrow> i < length es \<Longrightarrow> le_Index (es ! i) = of_nat i"
  by (simp add: entries_ok_def)

lemma entries_ok_term: "entries_ok es \<Longrightarrow> 0 < i \<Longrightarrow> i < length es \<Longrightarrow> 0 < le_Term (es ! i)"
  by (simp add: entries_ok_def)

lemma entries_ok_len: "entries_ok es \<Longrightarrow> 0 < length es \<and> length es < max_len"
  by (simp add: entries_ok_def)

lemma entries_ok_take: "entries_ok es \<Longrightarrow> 0 < n \<Longrightarrow> entries_ok (take n es)"
  by (auto simp: entries_ok_def hd_take)

lemma entries_ok_snoc:
  assumes "entries_ok es" and "Suc (length es) < max_len"
    and "le_Index e = of_nat (length es)" and "0 < le_Term e"
  shows "entries_ok (es @ [e])"
  using assms by (auto simp: entries_ok_def nth_append less_Suc_eq)

lemma log_ok_New: "log_ok NewRaftLog"
  by (simp add: log_ok_def entries_ok_def NewRaftLog_def sentinel_def max_len_def)

section \<open>The methods as list operations\<close>

lemma Contains_small: "unat idx < max_len \<Longrightarrow> Contains l idx \<longleftrightarrow> unat idx < length (entries l)"
  by (simp add: Contains_def go_int_less_len)

lemma Contains_iff: "Contains l idx \<longleftrightarrow> unat idx < length (entries l) \<or> max_len \<le> unat idx"
  by (simp add: Contains_def go_int_less_len)

lemma TermAt_in [simp]:
  "unat idx < length (entries l) \<Longrightarrow> TermAt l idx = Some (le_Term (entries l ! unat idx))"
  by (simp add: TermAt_def Contains_iff go_index_def)

lemma TermAt_out:
  "length (entries l) \<le> unat idx \<Longrightarrow> unat idx < max_len \<Longrightarrow> TermAt l idx = Some 0"
  by (simp add: TermAt_def Contains_small)

lemma TermAt_panics:
  "length (entries l) \<le> unat idx \<Longrightarrow> max_len \<le> unat idx \<Longrightarrow> TermAt l idx = None"
  by (simp add: TermAt_def Contains_iff go_index_def)

lemma unat_LastIndex:
  assumes "entries_ok (entries l)"
  shows "unat (LastIndex l) = length (entries l) - 1"
  using entries_ok_len [OF assms] unfolding LastIndex_def by (subst of_int_len) auto

lemma LastTerm_ok: "entries_ok (entries l) \<Longrightarrow> LastTerm l = Some (le_Term (last (entries l)))"
  by (simp add: LastTerm_def entries_ok_def)

lemma TruncateAfter_eq:
  assumes "length (entries l) < max_len" and "unat idx < max_len"
  shows "TruncateAfter l idx = Some (l\<lparr>entries := take (Suc (unat idx)) (entries l)\<rparr>)"
proof (cases "go_int idx < go_len (entries l) - 1")
  case True
  then have "Suc (unat idx) < length (entries l)"
    using assms by (auto simp: go_int_def go_len_def sint_cases max_len_def simp del: of_nat_unat)
  with True assms show ?thesis
    by (simp add: TruncateAfter_def go_slice_def unat_Suc_len)
next
  case False
  then have "length (entries l) \<le> Suc (unat idx)"
    using assms by (auto simp: go_int_def go_len_def sint_cases max_len_def simp del: of_nat_unat)
  with False show ?thesis by (simp add: TruncateAfter_def)
qed

lemma Entries_eq:
  assumes "entries l \<noteq> []" "length (entries l) < max_len" "unat s < max_len" "unat e < max_len"
  shows "Entries l s e = Some (drop (unat s) (take (Suc (unat e)) (entries l)))"
proof -
  let ?n = "length (entries l)"
  have last: "unat (of_int (go_len (entries l) - 1) :: u64) = ?n - 1"
    using assms by (subst of_int_len) auto
  show ?thesis
  proof (cases "e < s \<or> ?n \<le> unat s")
    case True
    with assms show ?thesis
      by (auto simp: Entries_def go_int_ge_len word_less_nat_alt)
  next
    case False
    define e' where "e' = (if go_len (entries l) \<le> go_int e
      then of_int (go_len (entries l) - 1) else e :: u64)"
    have ue: "unat e' = min (?n - 1) (unat e)"
      using assms last by (auto simp: e'_def go_int_ge_len)
    then have ue1: "unat (e' + 1) = Suc (unat e')"
      using assms by (intro unat_Suc_len) auto
    have "Entries l s e = go_slice (entries l) s (e' + 1)"
      using False assms by (auto simp: Entries_def go_int_ge_len e'_def Let_def)
    also have "\<dots> = Some (take (unat (e' + 1) - unat s) (drop (unat s) (entries l)))"
      using False assms(1) ue ue1 by (auto simp: go_slice_def word_le_nat_alt not_less min_def)
    also have "take (unat (e' + 1) - unat s) (drop (unat s) (entries l)) =
        drop (unat s) (take (Suc (unat e)) (entries l))"
      using assms(1) ue ue1 by (simp add: drop_take min_def)
    finally show ?thesis .
  qed
qed

lemma EntriesFrom_eq:
  assumes "entries_ok (entries l)" and "unat s < max_len"
  shows "EntriesFrom l s = Some (drop (unat s) (entries l))"
  using assms entries_ok_len [OF assms(1)] unat_LastIndex [OF assms(1)]
  by (auto simp: EntriesFrom_def Entries_eq)

lemma find_first_loop_spec:
  assumes "unat i + length es < max_len" and "0 < unat i"
  shows "find_first_loop es t i =
     (if \<exists>k < length es. le_Term (es ! k) = t
      then i + of_nat (LEAST k. k < length es \<and> le_Term (es ! k) = t) else 0)"
  using assms
proof (induction es arbitrary: i)
  case Nil
  then show ?case by simp
next
  case (Cons e es)
  show ?case
  proof (cases "le_Term e = t")
    case True
    then have "(LEAST k. k < length (e # es) \<and> le_Term ((e # es) ! k) = t) = 0"
      by (intro Least_eq_0) simp
    with True show ?thesis by (auto intro: exI [of _ 0])
  next
    case False
    let ?P = "\<lambda>k. k < length (e # es) \<and> le_Term ((e # es) ! k) = t"
    let ?Q = "\<lambda>k. k < length es \<and> le_Term (es ! k) = t"
    have ex: "(\<exists>k. ?P k) \<longleftrightarrow> (\<exists>k. ?Q k)"
      using False by (metis length_Cons less_Suc_eq_0_disj nth_Cons_0 nth_Cons_Suc)
    have i1: "unat (i + 1) = Suc (unat i)" using Cons.prems by (intro unat_Suc_len) simp
    have "(LEAST k. ?P k) = Suc (LEAST k. ?Q k)" if "\<exists>k. ?Q k"
    proof -
      from that obtain k where "?P (Suc k)" by auto
      then have "(LEAST k. ?P k) = Suc (LEAST k. ?P (Suc k))"
        by (rule Least_Suc [of ?P]) (simp add: False)
      then show ?thesis by simp
    qed
    then show ?thesis
      using False ex Cons.IH [of "i + 1"] Cons.prems i1 by (auto simp: add.assoc)
  qed
qed

end
