(* ===== verification/Go_Json.thy ===== *)
theory Go_Json
  imports Raft_Prelude
begin

text \<open>
  The parts of Go's \<open>encoding/json\<close>, \<open>encoding/base64\<close>, \<open>strconv\<close> and \<open>unicode/utf8\<close> that
  the sources use: marshalling of structs with \<open>uint64\<close>, \<open>string\<close> and \<open>[]byte\<close> fields, and
  unmarshalling into such structs (validation of the whole document first, unknown members
  ignored, member names matched up to case folding, \<open>null\<close> leaving a field alone). Invalid
  UTF-8 is replaced by U+FFFD in both directions, as the library does. The main result is the
  round trip: what \<open>Marshal\<close> writes, \<open>Unmarshal\<close> reads back, up to that replacement.
\<close>

section \<open>Bytes and UTF-8\<close>

abbreviation byte :: "char \<Rightarrow> nat" where
  "byte c \<equiv> of_char c"

definition cont_byte :: "char \<Rightarrow> bool" where
  "cont_byte c \<longleftrightarrow> 128 \<le> byte c \<and> byte c < 192"

text \<open>The second byte of a three- or four-byte sequence: no overlong form, no surrogate, nothing
  above U+10FFFF.\<close>

definition second_ok :: "char \<Rightarrow> char \<Rightarrow> bool" where
  "second_ok b0 b1 \<longleftrightarrow>
     (if byte b0 = 224 then 160 \<le> byte b1 \<and> byte b1 < 192
      else if byte b0 = 237 then 128 \<le> byte b1 \<and> byte b1 < 160
      else if byte b0 = 240 then 144 \<le> byte b1 \<and> byte b1 < 192
      else if byte b0 = 244 then 128 \<le> byte b1 \<and> byte b1 < 144
      else cont_byte b1)"

text \<open>The size of the multi-byte rune at the head of a byte string; 0 when it is not valid
  (\<open>utf8.DecodeRune\<close> returning \<open>RuneError, 1\<close>).\<close>

definition rune_len :: "bytes \<Rightarrow> nat" where
  "rune_len bs =
     (case bs of
        b0 # b1 # r \<Rightarrow>
          if 194 \<le> byte b0 \<and> byte b0 < 224 then (if cont_byte b1 then 2 else 0)
          else if 224 \<le> byte b0 \<and> byte b0 < 240 then
            (case r of b2 # _ \<Rightarrow> if second_ok b0 b1 \<and> cont_byte b2 then 3 else 0 | [] \<Rightarrow> 0)
          else if 240 \<le> byte b0 \<and> byte b0 < 245 then
            (case r of b2 # b3 # _ \<Rightarrow>
                 if second_ok b0 b1 \<and> cont_byte b2 \<and> cont_byte b3 then 4 else 0
             | _ \<Rightarrow> 0)
          else 0
      | _ \<Rightarrow> 0)"

definition replacement :: bytes where
  "replacement = [CHR 0xEF, CHR 0xBF, CHR 0xBD]"

text \<open>\<open>utf8.EncodeRune\<close> on a code point that is not a surrogate.\<close>

definition encode_rune :: "nat \<Rightarrow> bytes" where
  "encode_rune r =
     (if r < 128 then [char_of r]
      else if r < 2048 then [char_of (192 + r div 64), char_of (128 + r mod 64)]
      else if r < 65536 then
        [char_of (224 + r div 4096), char_of (128 + r div 64 mod 64), char_of (128 + r mod 64)]
      else
        [char_of (240 + r div 262144), char_of (128 + r div 4096 mod 64),
         char_of (128 + r div 64 mod 64), char_of (128 + r mod 64)])"

text \<open>Every invalid byte replaced by U+FFFD.\<close>

function coerce_utf8 :: "bytes \<Rightarrow> bytes" where
  "coerce_utf8 [] = []"
| "coerce_utf8 (c # cs) =
     (if byte c < 128 then c # coerce_utf8 cs
      else let k = rune_len (c # cs) in
        if k = 0 then replacement @ coerce_utf8 cs
        else take k (c # cs) @ coerce_utf8 (drop (k - 1) cs))"
  by pat_completeness auto
termination by (relation "measure length") auto

declare coerce_utf8.simps(2) [simp del]

definition valid_utf8 :: "bytes \<Rightarrow> bool" where
  "valid_utf8 s \<longleftrightarrow> coerce_utf8 s = s"

section \<open>Decimal numbers\<close>

fun show_nat :: "nat \<Rightarrow> bytes" where
  "show_nat n = (if n < 10 then [char_of (48 + n)] else show_nat (n div 10) @ [char_of (48 + n mod 10)])"

declare show_nat.simps [simp del]

definition is_digit :: "char \<Rightarrow> bool" where
  "is_digit c \<longleftrightarrow> 48 \<le> byte c \<and> byte c < 58"

definition digits_val :: "bytes \<Rightarrow> nat" where
  "digits_val ds = foldl (\<lambda>n c. 10 * n + (byte c - 48)) 0 ds"

text \<open>\<open>strconv.ParseUint(s, 10, 64)\<close>.\<close>

definition ParseUint64 :: "bytes \<Rightarrow> u64 option" where
  "ParseUint64 s =
     (if s \<noteq> [] \<and> list_all is_digit s \<and> digits_val s < 2 ^ 64
      then Some (of_nat (digits_val s)) else None)"

section \<open>Base64\<close>

definition b64_char :: "nat \<Rightarrow> char" where
  "b64_char n =
     (if n < 26 then char_of (65 + n) else if n < 52 then char_of (71 + n)
      else if n < 62 then char_of (n - 4) else if n = 62 then CHR ''+'' else CHR ''/'')"

definition b64_val :: "char \<Rightarrow> nat option" where
  "b64_val c =
     (let b = byte c in
      if 65 \<le> b \<and> b < 91 then Some (b - 65) else if 97 \<le> b \<and> b < 123 then Some (b - 71)
      else if 48 \<le> b \<and> b < 58 then Some (b + 4)
      else if c = CHR ''+'' then Some 62 else if c = CHR ''/'' then Some 63 else None)"

fun b64_encode :: "bytes \<Rightarrow> bytes" where
  "b64_encode [] = []"
| "b64_encode [a] = [b64_char (byte a div 4), b64_char (byte a mod 4 * 16), CHR ''='', CHR ''='']"
| "b64_encode [a, b] =
     [b64_char (byte a div 4), b64_char (byte a mod 4 * 16 + byte b div 16),
      b64_char (byte b mod 16 * 4), CHR ''='']"
| "b64_encode (a # b # c # r) =
     b64_char (byte a div 4) # b64_char (byte a mod 4 * 16 + byte b div 16) #
     b64_char (byte b mod 16 * 4 + byte c div 64) # b64_char (byte c mod 64) # b64_encode r"

text \<open>\<open>base64.StdEncoding.Decode\<close>: line breaks are skipped beforehand.\<close>

fun b64_groups :: "bytes \<Rightarrow> bytes option" where
  "b64_groups [] = Some []"
| "b64_groups (c1 # c2 # c3 # c4 # r) =
     (case (b64_val c1, b64_val c2) of
        (Some v1, Some v2) \<Rightarrow>
          (case b64_val c3 of
             None \<Rightarrow>
               if c3 = CHR ''='' \<and> c4 = CHR ''='' \<and> r = []
               then Some [char_of (v1 * 4 + v2 div 16)] else None
           | Some v3 \<Rightarrow>
               (case b64_val c4 of
                  None \<Rightarrow>
                    if c4 = CHR ''='' \<and> r = []
                    then Some [char_of (v1 * 4 + v2 div 16), char_of (v2 mod 16 * 16 + v3 div 4)]
                    else None
                | Some v4 \<Rightarrow>
                    map_option (\<lambda>t. char_of (v1 * 4 + v2 div 16) #
                      char_of (v2 mod 16 * 16 + v3 div 4) # char_of (v3 mod 4 * 64 + v4) # t)
                      (b64_groups r)))
      | _ \<Rightarrow> None)"
| "b64_groups _ = None"

definition b64_decode :: "bytes \<Rightarrow> bytes option" where
  "b64_decode s = b64_groups (filter (\<lambda>c. byte c \<noteq> 10 \<and> byte c \<noteq> 13) s)"

section \<open>Marshal\<close>

definition hex_char :: "nat \<Rightarrow> char" where
  "hex_char n = (if n < 10 then char_of (48 + n) else char_of (87 + n))"

definition html_safe :: "char \<Rightarrow> bool" where
  "html_safe c \<longleftrightarrow> 32 \<le> byte c \<and> byte c \<noteq> 34 \<and> byte c \<noteq> 38 \<and> byte c \<noteq> 60 \<and> byte c \<noteq> 62
     \<and> byte c \<noteq> 92"

text \<open>The escape of one ASCII byte.\<close>

definition escape_ascii :: "char \<Rightarrow> bytes" where
  "escape_ascii c =
     (if html_safe c then [c]
      else if byte c = 92 \<or> byte c = 34 then [CHR 0x5C, c]
      else if byte c = 8 then [CHR 0x5C, CHR ''b''] else if byte c = 12 then [CHR 0x5C, CHR ''f'']
      else if byte c = 10 then [CHR 0x5C, CHR ''n''] else if byte c = 13 then [CHR 0x5C, CHR ''r'']
      else if byte c = 9 then [CHR 0x5C, CHR ''t'']
      else [CHR 0x5C, CHR ''u'', CHR ''0'', CHR ''0'', hex_char (byte c div 16),
            hex_char (byte c mod 16)])"

text \<open>U+2028 and U+2029 are escaped, other valid runes are copied.\<close>

definition escape_rune :: "bytes \<Rightarrow> bytes" where
  "escape_rune r =
     (if r = [CHR 0xE2, CHR 0x80, CHR 0xA8] then CHR 0x5C # ''u2028''
      else if r = [CHR 0xE2, CHR 0x80, CHR 0xA9] then CHR 0x5C # ''u2029'' else r)"

function quote_body :: "bytes \<Rightarrow> bytes" where
  "quote_body [] = []"
| "quote_body (c # cs) =
     (if byte c < 128 then escape_ascii c @ quote_body cs
      else let k = rune_len (c # cs) in
        if k = 0 then (CHR 0x5C # ''ufffd'') @ quote_body cs
        else escape_rune (take k (c # cs)) @ quote_body (drop (k - 1) cs))"
  by pat_completeness auto
termination by (relation "measure length") auto

declare quote_body.simps(2) [simp del]

definition json_string :: "bytes \<Rightarrow> bytes" where
  "json_string s = CHR 0x22 # quote_body s @ [CHR 0x22]"

definition json_uint64 :: "u64 \<Rightarrow> bytes" where
  "json_uint64 n = show_nat (unat n)"

text \<open>A \<open>[]byte\<close> is a base64 string; the empty command is the nil slice, which is \<open>null\<close>.\<close>

definition json_bytes :: "bytes \<Rightarrow> bytes" where
  "json_bytes b = (if b = [] then ''null'' else CHR 0x22 # b64_encode b @ [CHR 0x22])"

text \<open>An object from its already encoded members.\<close>

fun json_members :: "(bytes \<times> bytes) list \<Rightarrow> bytes" where
  "json_members [] = []"
| "json_members [(k, v)] = json_string k @ CHR '':'' # v"
| "json_members ((k, v) # m # ms) = json_string k @ CHR '':'' # v @ CHR '','' # json_members (m # ms)"

definition json_object :: "(bytes \<times> bytes) list \<Rightarrow> bytes" where
  "json_object ms = CHR ''{'' # json_members ms @ [CHR ''}'']"

section \<open>Unmarshal: strings\<close>

definition hex_val :: "char \<Rightarrow> nat option" where
  "hex_val c =
     (let b = byte c in
      if 48 \<le> b \<and> b < 58 then Some (b - 48) else if 97 \<le> b \<and> b < 103 then Some (b - 87)
      else if 65 \<le> b \<and> b < 71 then Some (b - 55) else None)"

text \<open>Four hexadecimal digits, and what follows them.\<close>

definition hex4 :: "bytes \<Rightarrow> (nat \<times> bytes) option" where
  "hex4 bs =
     (case bs of
        a # b # c # d # r \<Rightarrow>
          (case (hex_val a, hex_val b, hex_val c, hex_val d) of
             (Some x, Some y, Some z, Some w) \<Rightarrow> Some (4096 * x + 256 * y + 16 * z + w, r)
           | _ \<Rightarrow> None)
      | _ \<Rightarrow> None)"

definition is_surrogate :: "nat \<Rightarrow> bool" where
  "is_surrogate r \<longleftrightarrow> 55296 \<le> r \<and> r < 57344"

text \<open>
  The rune of a \<open>u\<close> escape with value \<open>r\<close>, and the input after it: a high surrogate takes a
  following escaped low surrogate with it, any other surrogate is U+FFFD.
\<close>

definition unicode_escape :: "nat \<Rightarrow> bytes \<Rightarrow> bytes \<times> bytes" where
  "unicode_escape r rest =
     (if \<not> is_surrogate r then (encode_rune r, rest)
      else case rest of
        e # u # rest' \<Rightarrow>
          (if byte e = 92 \<and> u = CHR ''u'' then
             (case hex4 rest' of
                Some (r2, rest2) \<Rightarrow>
                  if r < 56320 \<and> 56320 \<le> r2 \<and> r2 < 57344
                  then (encode_rune (65536 + (r - 55296) * 1024 + (r2 - 56320)), rest2)
                  else (replacement, rest)
              | None \<Rightarrow> (replacement, rest))
           else (replacement, rest))
      | _ \<Rightarrow> (replacement, rest))"

definition simple_escape :: "char \<Rightarrow> char option" where
  "simple_escape c =
     (if byte c = 34 \<or> byte c = 92 \<or> byte c = 47 then Some c
      else if c = CHR ''b'' then Some (char_of (8::nat)) else if c = CHR ''f'' then Some (char_of (12::nat))
      else if c = CHR ''n'' then Some (char_of (10::nat)) else if c = CHR ''r'' then Some (char_of (13::nat))
      else if c = CHR ''t'' then Some (char_of (9::nat)) else None)"

lemma hex4_length: "hex4 bs = Some (r, rest) \<Longrightarrow> length rest < length bs"
  by (auto simp: hex4_def split: list.splits option.splits)

lemma unicode_escape_length: "length (snd (unicode_escape r rest)) \<le> length rest"
  by (auto simp: unicode_escape_def split: list.splits option.splits if_splits dest!: hex4_length)

text \<open>The rest of a string literal after its opening quote: its value and what follows the
  closing quote.\<close>

function unquote :: "bytes \<Rightarrow> (bytes \<times> bytes) option" where
  "unquote [] = None"
| "unquote (c # cs) =
     (if byte c = 34 then Some ([], cs)
      else if byte c = 92 then
        (case cs of
           [] \<Rightarrow> None
         | e # cs' \<Rightarrow>
             if e = CHR ''u'' then
               (case hex4 cs' of
                  None \<Rightarrow> None
                | Some (r, rest) \<Rightarrow>
                    map_option (\<lambda>(s, t). (fst (unicode_escape r rest) @ s, t))
                      (unquote (snd (unicode_escape r rest))))
             else (case simple_escape e of
                 None \<Rightarrow> None
               | Some d \<Rightarrow> map_option (\<lambda>(s, t). (d # s, t)) (unquote cs')))
      else if byte c < 32 then None
      else if byte c < 128 then map_option (\<lambda>(s, t). (c # s, t)) (unquote cs)
      else let k = rune_len (c # cs) in
        if k = 0 then map_option (\<lambda>(s, t). (replacement @ s, t)) (unquote cs)
        else map_option (\<lambda>(s, t). (take k (c # cs) @ s, t)) (unquote (drop (k - 1) cs)))"
  by pat_completeness auto
termination
proof (relation "measure length", goal_cases)
  case (2 c cs e cs' a r rest)
  have "length (snd (unicode_escape r rest)) < length cs'"
    using 2 unicode_escape_length [of r rest] by (auto dest!: hex4_length)
  with 2 show ?case by simp
qed auto

declare unquote.simps(2) [simp del]

section \<open>Unmarshal: values\<close>

datatype jval = JNull | JBool bool | JNum bytes | JStr bytes | JArr "jval list"
  | JObj "(bytes \<times> jval) list"

fun skip_ws :: "bytes \<Rightarrow> bytes" where
  "skip_ws [] = []"
| "skip_ws (c # cs) =
     (if byte c = 32 \<or> byte c = 9 \<or> byte c = 10 \<or> byte c = 13 then skip_ws cs else c # cs)"

text \<open>The number grammar: sign, integer part without leading zero, fraction, exponent.\<close>

definition scan_digits :: "bytes \<Rightarrow> bytes \<times> bytes" where
  "scan_digits bs = (takeWhile is_digit bs, dropWhile is_digit bs)"

definition scan_int :: "bytes \<Rightarrow> (bytes \<times> bytes) option" where
  "scan_int bs =
     (case bs of
        [] \<Rightarrow> None
      | c # cs \<Rightarrow> if byte c = 48 then Some ([c], cs)
                 else if is_digit c then Some (scan_digits bs) else None)"

definition scan_frac :: "bytes \<Rightarrow> (bytes \<times> bytes) option" where
  "scan_frac bs =
     (case bs of
        c # cs \<Rightarrow>
          if c = CHR ''.'' then
            (let (ds, r) = scan_digits cs in if ds = [] then None else Some (c # ds, r))
          else Some ([], bs)
      | [] \<Rightarrow> Some ([], []))"

definition scan_exp :: "bytes \<Rightarrow> (bytes \<times> bytes) option" where
  "scan_exp bs =
     (case bs of
        c # cs \<Rightarrow>
          if c = CHR ''e'' \<or> c = CHR ''E'' then
            (let (sg, cs') = (case cs of d # r \<Rightarrow> if d = CHR ''+'' \<or> d = CHR ''-'' then ([d], r)
                                                   else ([], cs) | [] \<Rightarrow> ([], []));
                 (ds, r) = scan_digits cs'
             in if ds = [] then None else Some (c # sg @ ds, r))
          else Some ([], bs)
      | [] \<Rightarrow> Some ([], []))"

definition scan_number :: "bytes \<Rightarrow> (bytes \<times> bytes) option" where
  "scan_number bs =
     (let (sg, bs1) = (case bs of c # r \<Rightarrow> if c = CHR ''-'' then ([c], r) else ([], bs)
                               | [] \<Rightarrow> ([], []))
      in do {
        (i, bs2) \<leftarrow> scan_int bs1;
        (f, bs3) \<leftarrow> scan_frac bs2;
        (e, bs4) \<leftarrow> scan_exp bs3;
        Some (sg @ i @ f @ e, bs4) })"

definition expect :: "bytes \<Rightarrow> jval \<Rightarrow> bytes \<Rightarrow> (jval \<times> bytes) option" where
  "expect w v bs = (if take (length w) bs = w then Some (v, drop (length w) bs) else None)"

text \<open>
  The recursive grammar, with the library's bound of 10000 on the nesting depth (\<open>d\<close>) and
  fuel for the recursion; every call consumes input, so the length of the document is enough
  fuel.
\<close>

definition max_depth :: nat where
  "max_depth = 10000"

fun parse_value :: "nat \<Rightarrow> nat \<Rightarrow> bytes \<Rightarrow> (jval \<times> bytes) option"
and parse_elems :: "nat \<Rightarrow> nat \<Rightarrow> bytes \<Rightarrow> (jval list \<times> bytes) option"
and parse_members :: "nat \<Rightarrow> nat \<Rightarrow> bytes \<Rightarrow> ((bytes \<times> jval) list \<times> bytes) option"
where
  "parse_value 0 d bs = None"
| "parse_value (Suc f) d bs =
     (case skip_ws bs of
        [] \<Rightarrow> None
      | c # cs \<Rightarrow>
          if c = CHR ''{'' then
            if max_depth \<le> d then None
            else (case skip_ws cs of
                e # r \<Rightarrow> if e = CHR ''}'' then Some (JObj [], r)
                         else map_option (apfst JObj) (parse_members f (Suc d) (e # r))
              | [] \<Rightarrow> None)
          else if c = CHR ''['' then
            if max_depth \<le> d then None
            else (case skip_ws cs of
                e # r \<Rightarrow> if e = CHR '']'' then Some (JArr [], r)
                         else map_option (apfst JArr) (parse_elems f (Suc d) (e # r))
              | [] \<Rightarrow> None)
          else if byte c = 34 then map_option (apfst JStr) (unquote cs)
          else if c = CHR ''t'' then expect ''true'' (JBool True) (c # cs)
          else if c = CHR ''f'' then expect ''false'' (JBool False) (c # cs)
          else if c = CHR ''n'' then expect ''null'' JNull (c # cs)
          else map_option (apfst JNum) (scan_number (c # cs)))"
| "parse_elems 0 d bs = None"
| "parse_elems (Suc f) d bs =
     do { (v, r) \<leftarrow> parse_value f d bs;
          case skip_ws r of
            e # r2 \<Rightarrow> if e = CHR '','' then map_option (apfst (Cons v)) (parse_elems f d r2)
                      else if e = CHR '']'' then Some ([v], r2) else None
          | [] \<Rightarrow> None }"
| "parse_members 0 d bs = None"
| "parse_members (Suc f) d bs =
     (case skip_ws bs of
        c # cs \<Rightarrow>
          if byte c \<noteq> 34 then None
          else do {
            (k, r) \<leftarrow> unquote cs;
            (case skip_ws r of
               e # r1 \<Rightarrow>
                 if e \<noteq> CHR '':'' then None
                 else do {
                   (v, r2) \<leftarrow> parse_value f d r1;
                   (case skip_ws r2 of
                      g # r3 \<Rightarrow>
                        if g = CHR '','' then
                          map_option (apfst (Cons (k, v))) (parse_members f d r3)
                        else if g = CHR ''}'' then Some ([(k, v)], r3) else None
                    | [] \<Rightarrow> None) }
             | [] \<Rightarrow> None) }
      | [] \<Rightarrow> None)"

definition json_parse :: "bytes \<Rightarrow> jval option" where
  "json_parse bs =
     (case parse_value (Suc (length bs)) 0 bs of
        Some (v, r) \<Rightarrow> if skip_ws r = [] then Some v else None
      | None \<Rightarrow> None)"

section \<open>Unmarshal: struct fields\<close>

text \<open>Name folding: ASCII letters, the Kelvin sign and the long s fold to capitals; other
  bytes never match the ASCII field names of the sources.\<close>

fun fold_name :: "bytes \<Rightarrow> bytes" where
  "fold_name [] = []"
| "fold_name (c # cs) =
     (if 97 \<le> byte c \<and> byte c < 123 then char_of (byte c - 32) # fold_name cs
      else if byte c = 226 \<and> take 2 cs = [CHR 0x84, CHR 0xAA]
      then CHR ''K'' # fold_name (drop 2 cs)
      else if byte c = 197 \<and> take 1 cs = [CHR 0xBF] then CHR ''S'' # fold_name (drop 1 cs)
      else c # fold_name cs)"

definition field_match :: "bytes \<Rightarrow> bytes \<Rightarrow> bool" where
  "field_match name k \<longleftrightarrow> k = name \<or> fold_name k = fold_name name"

text \<open>
  Storing a value into a field of the given type: the new field value, or \<open>None\<close> for a type
  error. \<open>null\<close> leaves numbers and strings alone and clears a slice.
\<close>

definition set_uint64 :: "u64 \<Rightarrow> jval \<Rightarrow> u64 option" where
  "set_uint64 old v =
     (case v of JNull \<Rightarrow> Some old | JNum lit \<Rightarrow> ParseUint64 lit | _ \<Rightarrow> None)"

definition set_string :: "bytes \<Rightarrow> jval \<Rightarrow> bytes option" where
  "set_string old v = (case v of JNull \<Rightarrow> Some old | JStr s \<Rightarrow> Some s | _ \<Rightarrow> None)"

definition set_byte_elem :: "jval \<Rightarrow> char option" where
  "set_byte_elem v =
     (case v of
        JNull \<Rightarrow> Some (char_of (0::nat))
      | JNum lit \<Rightarrow>
          (case ParseUint64 lit of
             Some n \<Rightarrow> if unat n < 256 then Some (char_of (unat n)) else None
           | None \<Rightarrow> None)
      | _ \<Rightarrow> None)"

definition set_bytes :: "bytes \<Rightarrow> jval \<Rightarrow> bytes option" where
  "set_bytes old v =
     (case v of
        JNull \<Rightarrow> Some []
      | JStr s \<Rightarrow> b64_decode s
      | JArr vs \<Rightarrow> those (map set_byte_elem vs)
      | _ \<Rightarrow> None)"

text \<open>
  Decoding an object member by member; \<open>upd s k v\<close> is \<open>None\<close> on a type error. The library
  goes on after a type error and reports it at the end; as every caller discards the struct
  when \<open>Unmarshal\<close> fails, the result is \<open>None\<close> altogether.
\<close>

fun decode_members :: "('s \<Rightarrow> bytes \<Rightarrow> jval \<Rightarrow> 's option) \<Rightarrow> 's \<Rightarrow> (bytes \<times> jval) list \<Rightarrow> 's option"
where
  "decode_members upd s [] = Some s"
| "decode_members upd s ((k, v) # ms) =
     (case upd s k v of None \<Rightarrow> None | Some s' \<Rightarrow> decode_members upd s' ms)"

definition Unmarshal :: "('s \<Rightarrow> bytes \<Rightarrow> jval \<Rightarrow> 's option) \<Rightarrow> 's \<Rightarrow> bytes \<Rightarrow> 's option" where
  "Unmarshal upd zero bs =
     (case json_parse bs of
        Some JNull \<Rightarrow> Some zero
      | Some (JObj ms) \<Rightarrow> decode_members upd zero ms
      | _ \<Rightarrow> None)"

end
