(* ===== verification/Storage_Wal.thy ===== *)
theory Storage_Wal
  imports Go_Json
begin

unbundle bit_operations_syntax

text \<open>
  The write-ahead log of \<open>internal/storage/wal.go\<close>, down to the bytes of its files: the record
  layout with the CRC32 of \<open>hash/crc32\<close>, rotation, and replay with its handling of short and
  corrupt records. The directory is part of the model. Every system call consumes one outcome
  of the script \<open>io\<close> (an exhausted script means success), so that failed and partial writes
  are explicit; a panic is \<open>None\<close>.
\<close>

section \<open>Records\<close>

definition RecordTerm :: u32 where "RecordTerm = 1"
definition RecordVote :: u32 where "RecordVote = 2"
definition RecordEntry :: u32 where "RecordEntry = 3"

definition maxWALSize :: int where "maxWALSize = 64 * 1024 * 1024"

record TermRecord =
  tr_Term :: u64

record VoteRecord =
  vr_VotedFor :: string
  vr_Term :: u64

record EntryRecord =
  er_Index :: u64
  er_Term :: u64
  er_Command :: bytes

definition marshal_TermRecord :: "TermRecord \<Rightarrow> bytes" where
  "marshal_TermRecord r = json_object [(''term'', json_uint64 (tr_Term r))]"

definition marshal_VoteRecord :: "VoteRecord \<Rightarrow> bytes" where
  "marshal_VoteRecord r =
     json_object [(''voted_for'', json_string (vr_VotedFor r)), (''term'', json_uint64 (vr_Term r))]"

definition marshal_EntryRecord :: "EntryRecord \<Rightarrow> bytes" where
  "marshal_EntryRecord r =
     json_object [(''index'', json_uint64 (er_Index r)), (''term'', json_uint64 (er_Term r)),
                  (''command'', json_bytes (er_Command r))]"

definition set_TermRecord :: "TermRecord \<Rightarrow> bytes \<Rightarrow> jval \<Rightarrow> TermRecord option" where
  "set_TermRecord r k v =
     (if field_match ''term'' k then map_option (\<lambda>t. r\<lparr>tr_Term := t\<rparr>) (set_uint64 (tr_Term r) v)
      else Some r)"

definition set_VoteRecord :: "VoteRecord \<Rightarrow> bytes \<Rightarrow> jval \<Rightarrow> VoteRecord option" where
  "set_VoteRecord r k v =
     (if field_match ''voted_for'' k
      then map_option (\<lambda>s. r\<lparr>vr_VotedFor := s\<rparr>) (set_string (vr_VotedFor r) v)
      else if field_match ''term'' k
      then map_option (\<lambda>t. r\<lparr>vr_Term := t\<rparr>) (set_uint64 (vr_Term r) v)
      else Some r)"

definition set_EntryRecord :: "EntryRecord \<Rightarrow> bytes \<Rightarrow> jval \<Rightarrow> EntryRecord option" where
  "set_EntryRecord r k v =
     (if field_match ''index'' k
      then map_option (\<lambda>i. r\<lparr>er_Index := i\<rparr>) (set_uint64 (er_Index r) v)
      else if field_match ''term'' k
      then map_option (\<lambda>t. r\<lparr>er_Term := t\<rparr>) (set_uint64 (er_Term r) v)
      else if field_match ''command'' k
      then map_option (\<lambda>c. r\<lparr>er_Command := c\<rparr>) (set_bytes (er_Command r) v)
      else Some r)"

definition unmarshal_TermRecord :: "bytes \<Rightarrow> TermRecord option" where
  "unmarshal_TermRecord = Unmarshal set_TermRecord \<lparr>tr_Term = 0\<rparr>"

definition unmarshal_VoteRecord :: "bytes \<Rightarrow> VoteRecord option" where
  "unmarshal_VoteRecord = Unmarshal set_VoteRecord \<lparr>vr_VotedFor = [], vr_Term = 0\<rparr>"

definition unmarshal_EntryRecord :: "bytes \<Rightarrow> EntryRecord option" where
  "unmarshal_EntryRecord = Unmarshal set_EntryRecord \<lparr>er_Index = 0, er_Term = 0, er_Command = []\<rparr>"

section \<open>Little-endian words and CRC32\<close>

definition put_u32 :: "u32 \<Rightarrow> bytes" where
  "put_u32 w = map (\<lambda>i. char_of (unat w div 256 ^ i)) [0, 1, 2, 3]"

definition get_u32 :: "bytes \<Rightarrow> u32" where
  "get_u32 bs = of_nat (\<Sum>i \<leftarrow> [0, 1, 2, 3]. of_char (bs ! i) * 256 ^ i)"

text \<open>The reflected IEEE polynomial, one bit at a time.\<close>

definition crc_bit :: "u32 \<Rightarrow> u32" where
  "crc_bit c = (if bit c 0 then drop_bit 1 c XOR 0xEDB88320 else drop_bit 1 c)"

definition crc_byte :: "u32 \<Rightarrow> char \<Rightarrow> u32" where
  "crc_byte c b = (crc_bit ^^ 8) (c XOR of_char b)"

definition ChecksumIEEE :: "bytes \<Rightarrow> u32" where
  "ChecksumIEEE bs = NOT (foldl crc_byte (NOT 0) bs)"

section \<open>The WAL object and its directory\<close>

datatype io_res = IoOk | IoErr nat

record dirent =
  de_name :: string
  de_isdir :: bool
  de_data :: bytes

record WAL =
  disk :: "dirent list"
  cur_file :: "string option"
  closed :: bool
  fileID :: int
  fileSize :: int
  io :: "io_res list"

datatype wal_error =
  ErrMkdir | ErrReadDir | ErrOpen | ErrStat | ErrClose | ErrWrite | ErrSync

text \<open>The outcome of the next system call.\<close>

definition io_next :: "WAL \<Rightarrow> io_res \<times> WAL" where
  "io_next w = (case io w of [] \<Rightarrow> (IoOk, w) | r # rs \<Rightarrow> (r, w\<lparr>io := rs\<rparr>))"

definition find_file :: "dirent list \<Rightarrow> string \<Rightarrow> dirent option" where
  "find_file ds n = find (\<lambda>d. de_name d = n) ds"

definition update_file :: "string \<Rightarrow> (bytes \<Rightarrow> bytes) \<Rightarrow> dirent list \<Rightarrow> dirent list" where
  "update_file n f = map (\<lambda>d. if de_name d = n then d\<lparr>de_data := f (de_data d)\<rparr> else d)"

text \<open>\<open>fmt.Sprintf("wal_%06d.log", id)\<close> and the matching \<open>fmt.Sscanf\<close> (at most six characters
  for the number; input after the pattern is ignored). File names hold no white space.\<close>

definition pad_zero :: "nat \<Rightarrow> bytes \<Rightarrow> bytes" where
  "pad_zero n s = replicate (n - length s) (CHR ''0'') @ s"

definition wal_name :: "int \<Rightarrow> string" where
  "wal_name i =
     ''wal_'' @ (if i < 0 then CHR ''-'' # pad_zero 5 (show_nat (nat (- i)))
                 else pad_zero 6 (show_nat (nat i))) @ ''.log''"

definition scan_wal_name :: "string \<Rightarrow> int option" where
  "scan_wal_name n =
     (let body = drop 4 n; window = take 6 body;
          (neg, sl) = (case window of
              c # _ \<Rightarrow> if c = CHR ''-'' then (True, 1) else if c = CHR ''+'' then (False, 1) else (False, 0::nat)
            | [] \<Rightarrow> (False, 0));
          ds = takeWhile is_digit (drop sl window);
          rest = drop (sl + length ds) body
      in if ds = [] \<or> take 4 rest \<noteq> ''.log'' then None
         else Some (if neg then - int (digits_val ds) else int (digits_val ds)))"

record walFile =
  wf_id :: int
  wf_name :: string

fun collect_wal_files :: "dirent list \<Rightarrow> walFile list" where
  "collect_wal_files [] = []"
| "collect_wal_files (d # ds) =
     (if de_isdir d \<or> take 4 (de_name d) \<noteq> ''wal_'' then collect_wal_files ds
      else case scan_wal_name (de_name d) of
        None \<Rightarrow> collect_wal_files ds
      | Some i \<Rightarrow> \<lparr>wf_id = i, wf_name = de_name d\<rparr> # collect_wal_files ds)"

definition listWALFiles :: "WAL \<Rightarrow> (wal_error + walFile list) \<times> WAL" where
  "listWALFiles w =
     (case io_next w of
        (IoErr _, w') \<Rightarrow> (Inl ErrReadDir, w')
      | (IoOk, w') \<Rightarrow> (Inr (sort_key wf_id (collect_wal_files (disk w'))), w'))"

definition openCurrentFile :: "WAL \<Rightarrow> wal_error option \<times> WAL" where
  "openCurrentFile w =
     (let n = wal_name (fileID w) in
      case io_next w of
        (IoErr _, w1) \<Rightarrow> (Some ErrOpen, w1)
      | (IoOk, w1) \<Rightarrow>
          if (case find_file (disk w1) n of Some d \<Rightarrow> de_isdir d | None \<Rightarrow> False)
          then (Some ErrOpen, w1)
          else
            let w2 = (case find_file (disk w1) n of
                        Some _ \<Rightarrow> w1
                      | None \<Rightarrow> w1\<lparr>disk := disk w1 @ [\<lparr>de_name = n, de_isdir = False, de_data = []\<rparr>]\<rparr>)
            in (case io_next w2 of
                  (IoErr _, w3) \<Rightarrow> (Some ErrStat, w3)
                | (IoOk, w3) \<Rightarrow>
                    (None, w3\<lparr>cur_file := Some n, closed := False,
                       fileSize := (case find_file (disk w3) n of
                                      Some d \<Rightarrow> go_len (de_data d) | None \<Rightarrow> 0)\<rparr>)))"

text \<open>\<open>NewWAL\<close> on a directory with the given contents.\<close>

definition NewWAL :: "dirent list \<Rightarrow> io_res list \<Rightarrow> (wal_error + WAL) \<times> dirent list" where
  "NewWAL ds script =
     (let w = \<lparr>disk = ds, cur_file = None, closed = False, fileID = 0, fileSize = 0, io = script\<rparr> in
      case io_next w of
        (IoErr _, w1) \<Rightarrow> (Inl ErrMkdir, disk w1)
      | (IoOk, w1) \<Rightarrow>
          (case listWALFiles w1 of
             (Inl e, w2) \<Rightarrow> (Inl e, disk w2)
           | (Inr files, w2) \<Rightarrow>
               let w3 = w2\<lparr>fileID := (if files = [] then 1 else wf_id (last files))\<rparr> in
               (case openCurrentFile w3 of
                  (Some e, w4) \<Rightarrow> (Inl e, disk w4)
                | (None, w4) \<Rightarrow> (Inr w4, disk w4))))"

text \<open>Closing twice is an error, as \<open>os.File.Close\<close> reports.\<close>

definition close_file :: "WAL \<Rightarrow> wal_error option \<times> WAL" where
  "close_file w =
     (case cur_file w of
        None \<Rightarrow> (None, w)
      | Some _ \<Rightarrow>
          if closed w then (Some ErrClose, w)
          else (case io_next w of
                  (IoErr _, w1) \<Rightarrow> (Some ErrClose, w1\<lparr>closed := True\<rparr>)
                | (IoOk, w1) \<Rightarrow> (None, w1\<lparr>closed := True\<rparr>)))"

definition Close :: "WAL \<Rightarrow> wal_error option \<times> WAL" where
  "Close w = close_file w"

definition rotate :: "WAL \<Rightarrow> wal_error option \<times> WAL" where
  "rotate w =
     (case close_file w of
        (Some e, w1) \<Rightarrow> (Some e, w1)
      | (None, w1) \<Rightarrow> openCurrentFile (w1\<lparr>fileID := fileID w1 + 1\<rparr>))"

text \<open>The bytes of a record: type, length, payload, checksum of all of these.\<close>

definition encode_record :: "u32 \<Rightarrow> bytes \<Rightarrow> bytes" where
  "encode_record recordType data =
     (let body = put_u32 recordType @ put_u32 (of_nat (length data)) @ data
      in body @ put_u32 (ChecksumIEEE body))"

text \<open>Writing to and syncing the open file. A failed write leaves a prefix of the buffer.\<close>

definition write_file :: "bytes \<Rightarrow> WAL \<Rightarrow> wal_error option \<times> WAL" where
  "write_file buf w =
     (case cur_file w of
        None \<Rightarrow> (Some ErrWrite, w)
      | Some n \<Rightarrow>
          if closed w then (Some ErrWrite, w)
          else (case io_next w of
              (IoOk, w1) \<Rightarrow> (None, w1\<lparr>disk := update_file n (\<lambda>d. d @ buf) (disk w1)\<rparr>)
            | (IoErr k, w1) \<Rightarrow>
                (Some ErrWrite, w1\<lparr>disk := update_file n (\<lambda>d. d @ take k buf) (disk w1)\<rparr>)))"

definition wal_Append :: "u32 \<Rightarrow> bytes \<Rightarrow> WAL \<Rightarrow> wal_error option \<times> WAL" where
  "wal_Append recordType data w =
     (let recordSize = int (4 + 4 + length data + 4);
          (rot, w1) = (if fileSize w + recordSize > maxWALSize then rotate w else (None, w))
      in case rot of
           Some e \<Rightarrow> (Some e, w1)
         | None \<Rightarrow>
             let buf = encode_record recordType data in
             (case write_file buf w1 of
                (Some e, w2) \<Rightarrow> (Some e, w2)
              | (None, w2) \<Rightarrow>
                  (case io_next w2 of
                     (IoErr _, w3) \<Rightarrow> (Some ErrSync, w3)
                   | (IoOk, w3) \<Rightarrow> (None, w3\<lparr>fileSize := fileSize w3 + go_len buf\<rparr>))))"

definition PersistTerm :: "u64 \<Rightarrow> WAL \<Rightarrow> wal_error option \<times> WAL" where
  "PersistTerm t w = wal_Append RecordTerm (marshal_TermRecord \<lparr>tr_Term = t\<rparr>) w"

definition PersistVote :: "string \<Rightarrow> u64 \<Rightarrow> WAL \<Rightarrow> wal_error option \<times> WAL" where
  "PersistVote v t w = wal_Append RecordVote (marshal_VoteRecord \<lparr>vr_VotedFor = v, vr_Term = t\<rparr>) w"

definition PersistEntry :: "u64 \<Rightarrow> u64 \<Rightarrow> bytes \<Rightarrow> WAL \<Rightarrow> wal_error option \<times> WAL" where
  "PersistEntry i t c w =
     wal_Append RecordEntry (marshal_EntryRecord \<lparr>er_Index = i, er_Term = t, er_Command = c\<rparr>) w"

section \<open>Replay\<close>

record replay_state =
  rs_term :: u64
  rs_vote :: string
  rs_entries :: "EntryRecord list"

definition replay_zero :: replay_state where
  "replay_zero = \<lparr>rs_term = 0, rs_vote = [], rs_entries = []\<rparr>"

text \<open>The \<open>switch\<close> on a record whose checksum is right; a payload that does not decode is
  skipped.\<close>

definition apply_record :: "u32 \<Rightarrow> bytes \<Rightarrow> replay_state \<Rightarrow> replay_state" where
  "apply_record ty payload s =
     (if ty = RecordTerm then
        (case unmarshal_TermRecord payload of
           None \<Rightarrow> s | Some r \<Rightarrow> s\<lparr>rs_term := tr_Term r\<rparr>)
      else if ty = RecordVote then
        (case unmarshal_VoteRecord payload of
           None \<Rightarrow> s
         | Some r \<Rightarrow> s\<lparr>rs_vote := vr_VotedFor r,
                       rs_term := (if vr_Term r > rs_term s then vr_Term r else rs_term s)\<rparr>)
      else if ty = RecordEntry then
        (case unmarshal_EntryRecord payload of
           None \<Rightarrow> s | Some r \<Rightarrow> s\<lparr>rs_entries := rs_entries s @ [r]\<rparr>)
      else s)"

text \<open>
  How the read loop over one file ends: at the end of the file, at a point where the file is
  to be truncated, with a read error on a header, or in a panic (\<open>payloadLen + 4\<close> is 32-bit
  arithmetic, so a length of at least \<open>2 ^ 32 - 4\<close> slices beyond the buffer).
\<close>

datatype replay_end = AtEof | TruncateAt int | ReadError | Panicked

text \<open>\<open>bad\<close>: the bytes at hand end in a read error instead of the end of the file.\<close>

function replay_loop :: "bool \<Rightarrow> bytes \<Rightarrow> int \<Rightarrow> replay_state \<Rightarrow> replay_state \<times> replay_end" where
  "replay_loop bad bs validOffset s =
     (if length bs < 8 then (s, if bad then ReadError else AtEof)
      else
        let header = take 8 bs; rest = drop 8 bs;
            recordType = get_u32 (take 4 header);
            payloadLen = get_u32 (drop 4 header);
            n = unat (payloadLen + 4)
        in if length rest < n then (s, TruncateAt validOffset)
           else if n < unat payloadLen then (s, Panicked)
           else
             let payloadAndCRC = take n rest;
                 payload = take (unat payloadLen) payloadAndCRC;
                 storedCRC = get_u32 (drop (unat payloadLen) payloadAndCRC);
                 computedCRC = ChecksumIEEE (header @ payload)
             in if storedCRC \<noteq> computedCRC then (s, TruncateAt validOffset)
                else replay_loop bad (drop n rest) (validOffset + uint (8 + payloadLen + 4))
                       (apply_record recordType payload s))"
  by pat_completeness auto
termination by (relation "measure (\<lambda>(_, bs, _, _). length bs)") auto

declare replay_loop.simps [simp del]

definition truncateFile :: "string \<Rightarrow> int \<Rightarrow> WAL \<Rightarrow> wal_error option \<times> WAL" where
  "truncateFile n off w =
     (case io_next w of
        (IoErr _, w1) \<Rightarrow> (Some ErrOpen, w1)
      | (IoOk, w1) \<Rightarrow>
          (case io_next w1 of
             (IoErr _, w2) \<Rightarrow> (Some ErrWrite, w2)
           | (IoOk, w2) \<Rightarrow> (None, w2\<lparr>disk := update_file n (take (nat off)) (disk w2)\<rparr>)))"

text \<open>One file: \<open>Inl\<close> is an error return, whose partial results the caller discards.\<close>

definition replayFile :: "string \<Rightarrow> WAL \<Rightarrow> ((wal_error + replay_state) \<times> WAL) option" where
  "replayFile n w =
     (case io_next w of
        (IoErr _, w1) \<Rightarrow> Some (Inl ErrOpen, w1)
      | (IoOk, w1) \<Rightarrow>
          let data = (case find_file (disk w1) n of Some d \<Rightarrow> de_data d | None \<Rightarrow> []);
              (rd, w2) = io_next w1;
              (bad, avail) = (case rd of IoOk \<Rightarrow> (False, data) | IoErr k \<Rightarrow> (True, take k data));
              (s, e) = replay_loop bad avail 0 replay_zero
          in (case e of
                AtEof \<Rightarrow> Some (Inr s, w2)
              | TruncateAt off \<Rightarrow> Some (Inr s, snd (truncateFile n off w2))
              | ReadError \<Rightarrow> Some (Inl ErrReadDir, w2)
              | Panicked \<Rightarrow> None))"

fun replay_files :: "walFile list \<Rightarrow> replay_state \<Rightarrow> WAL \<Rightarrow> (replay_state \<times> WAL) option" where
  "replay_files [] acc w = Some (acc, w)"
| "replay_files (f # fs) acc w =
     (case replayFile (wf_name f) w of
        None \<Rightarrow> None
      | Some (Inl _, w1) \<Rightarrow> Some (acc, w1)
      | Some (Inr s, w1) \<Rightarrow>
          replay_files fs
            \<lparr>rs_term = (if rs_term s > 0 then rs_term s else rs_term acc),
             rs_vote = (if rs_vote s \<noteq> [] then rs_vote s else rs_vote acc),
             rs_entries = rs_entries acc @ rs_entries s\<rparr> w1)"

definition wal_Replay :: "WAL \<Rightarrow> ((wal_error + replay_state) \<times> WAL) option" where
  "wal_Replay w =
     (case listWALFiles w of
        (Inl e, w1) \<Rightarrow> Some (Inl e, w1)
      | (Inr files, w1) \<Rightarrow>
          (case replay_files files replay_zero w1 of
             None \<Rightarrow> None
           | Some (s, w2) \<Rightarrow> Some (Inr s, w2)))"

end
