(* ===== verification/Raft_Node.thy ===== *)
theory Raft_Node
  imports Raft_Log Storage_Wal
begin

text \<open>
  The node of \<open>internal/raft/node.go\<close>. Every section of code that runs under the node's mutex is
  one function on the \<open>Node\<close> record; what a goroutine captured before releasing the lock is
  passed to the section that runs after it. The last draw of the random generator is an
  argument (\<open>rnd\<close>); a panic is \<open>None\<close>. Logging, the start time of an election and the unused
  \<open>commandCh\<close> are left out.
\<close>

section \<open>State\<close>

datatype timer = TimerStopped | TimerRunning int

definition electionTimeoutMin :: int where "electionTimeoutMin = 150 * 1000000"
definition electionTimeoutMax :: int where "electionTimeoutMax = 300 * 1000000"
definition heartbeatInterval :: int where "heartbeatInterval = 50 * 1000000"

text \<open>
  A replication context is a number; \<open>replicateCancel\<close> is the context whose cancel function the
  node holds, \<open>cancelled\<close> the contexts cancelled so far, and \<open>replicators\<close> the replication
  goroutines started so far.
\<close>

record Node =
  node_id :: NodeID
  peers :: "NodeID list"
  currentTerm :: Term
  votedFor :: NodeID
  log :: RaftLog
  state :: State
  commitIndex :: LogIndex
  lastApplied :: LogIndex
  leaderID :: NodeID
  nextIndex :: "NodeID \<rightharpoonup> LogIndex"
  matchIndex :: "NodeID \<rightharpoonup> LogIndex"
  electionTimer :: "timer option"
  heartbeatTimer :: "timer option"
  votes :: int
  votesReceived :: "NodeID \<rightharpoonup> bool"
  wal :: "WAL option"
  applyCh :: "LogEntry list"
  stopped :: bool
  replicateCancel :: "nat option"
  next_ctx :: nat
  cancelled :: "nat list"
  replicators :: "(nat \<times> NodeID) list"
  leaderChanges :: int
  committedEntries :: int

definition NewNode :: "NodeID \<Rightarrow> NodeID list \<Rightarrow> WAL option \<Rightarrow> Node" where
  "NewNode i ps w =
     \<lparr>node_id = i, peers = ps, currentTerm = 0, votedFor = [], log = NewRaftLog,
      state = Follower, commitIndex = 0, lastApplied = 0, leaderID = [],
      nextIndex = Map.empty, matchIndex = Map.empty, electionTimer = None,
      heartbeatTimer = None, votes = 0, votesReceived = Map.empty, wal = w, applyCh = [],
      stopped = False, replicateCancel = None, next_ctx = 0, cancelled = [], replicators = [],
      leaderChanges = 0, committedEntries = 0\<rparr>"

section \<open>Timers and cancellation\<close>

text \<open>\<open>rand.Int63n\<close>, from a draw of the generator.\<close>

definition rand_Int63n :: "int \<Rightarrow> int \<Rightarrow> int" where
  "rand_Int63n rnd n = rnd mod n"

definition resetElectionTimerLocked :: "int \<Rightarrow> Node \<Rightarrow> Node" where
  "resetElectionTimerLocked rnd n =
     n\<lparr>electionTimer := Some (TimerRunning
         (electionTimeoutMin + rand_Int63n rnd (electionTimeoutMax - electionTimeoutMin)))\<rparr>"

definition stop_timer :: "timer option \<Rightarrow> timer option" where
  "stop_timer t = (case t of None \<Rightarrow> None | Some _ \<Rightarrow> Some TimerStopped)"

definition cancel_replication :: "Node \<Rightarrow> Node" where
  "cancel_replication n =
     (case replicateCancel n of
        None \<Rightarrow> n
      | Some c \<Rightarrow> n\<lparr>cancelled := c # cancelled n, replicateCancel := None\<rparr>)"

definition Start :: "int \<Rightarrow> Node \<Rightarrow> Node" where
  "Start rnd n = resetElectionTimerLocked rnd n"

text \<open>Closing \<open>stopCh\<close> a second time panics. \<open>Stop\<close> calls the cancel function but keeps it.\<close>

definition Stop :: "Node \<Rightarrow> Node option" where
  "Stop n =
     (if stopped n then None
      else Some (n\<lparr>stopped := True,
                   electionTimer := stop_timer (electionTimer n),
                   heartbeatTimer := stop_timer (heartbeatTimer n),
                   cancelled := (case replicateCancel n of
                                   None \<Rightarrow> cancelled n | Some c \<Rightarrow> c # cancelled n)\<rparr>))"

section \<open>Recovery\<close>

definition entry_of_record :: "EntryRecord \<Rightarrow> LogEntry" where
  "entry_of_record e = \<lparr>le_Term = er_Term e, le_Index = er_Index e, le_Command = er_Command e\<rparr>"

definition Node_Replay :: "Node \<Rightarrow> (wal_error + Node) option" where
  "Node_Replay n =
     (case wal n of
        None \<Rightarrow> Some (Inr n)
      | Some w \<Rightarrow>
          (case wal_Replay w of
             None \<Rightarrow> None
           | Some (Inl e, w') \<Rightarrow> Some (Inl e)
           | Some (Inr s, w') \<Rightarrow>
               let n1 = n\<lparr>wal := Some w', currentTerm := rs_term s, votedFor := rs_vote s\<rparr> in
               if rs_entries s = [] then Some (Inr n1)
               else do { l \<leftarrow> RestoreEntries (log n1) (map entry_of_record (rs_entries s));
                         Some (Inr (n1\<lparr>log := l\<rparr>)) }))"

section \<open>The event loop\<close>

text \<open>\<open>run\<close> waits on the timer of the current role, then acts on the role it reads after the
  timer fired.\<close>

definition run_timer :: "Node \<Rightarrow> timer option" where
  "run_timer n = (case state n of Leader \<Rightarrow> heartbeatTimer n | _ \<Rightarrow> electionTimer n)"

datatype run_action = RunElection | RunHeartbeats

definition run_dispatch :: "State \<Rightarrow> run_action" where
  "run_dispatch s = (case s of Leader \<Rightarrow> RunHeartbeats | _ \<Rightarrow> RunElection)"

definition rearm_heartbeat :: "Node \<Rightarrow> Node" where
  "rearm_heartbeat n =
     (case heartbeatTimer n of
        None \<Rightarrow> n | Some _ \<Rightarrow> n\<lparr>heartbeatTimer := Some (TimerRunning heartbeatInterval)\<rparr>)"

section \<open>Persistence inside the handlers\<close>

text \<open>The handlers log a failed write and go on.\<close>

definition persist :: "(WAL \<Rightarrow> wal_error option \<times> WAL) \<Rightarrow> Node \<Rightarrow> Node" where
  "persist f n = (case wal n of None \<Rightarrow> n | Some w \<Rightarrow> n\<lparr>wal := Some (snd (f w))\<rparr>)"

fun persist_entries :: "LogEntry list \<Rightarrow> Node \<Rightarrow> Node" where
  "persist_entries [] n = n"
| "persist_entries (e # es) n =
     persist_entries es (persist (PersistEntry (le_Index e) (le_Term e) (le_Command e)) n)"

section \<open>Elections\<close>

text \<open>The locked part of \<open>startElection\<close>: the new state and the request sent to every peer.\<close>

definition startElection :: "int \<Rightarrow> Node \<Rightarrow> (Node \<times> RequestVoteArgs) option" where
  "startElection rnd n =
     (let n1 = n\<lparr>currentTerm := currentTerm n + 1, state := Candidate, votedFor := node_id n,
                 leaderID := [], votes := 1, votesReceived := [node_id n \<mapsto> True]\<rparr>;
          n2 = persist (PersistTerm (currentTerm n1)) n1;
          n3 = persist (PersistVote (votedFor n2) (currentTerm n2)) n2;
          n4 = resetElectionTimerLocked rnd n3
      in do {
        lastLogTerm \<leftarrow> LastTerm (log n4);
        Some (n4, \<lparr>rv_Term = currentTerm n4, rv_CandidateID = node_id n4,
                   rv_LastLogIndex = LastIndex (log n4), rv_LastLogTerm = lastLogTerm\<rparr>) })"

definition init_peer_index :: "LogIndex \<Rightarrow> NodeID \<Rightarrow> Node \<Rightarrow> Node" where
  "init_peer_index i p n =
     n\<lparr>nextIndex := (nextIndex n)(p \<mapsto> i), matchIndex := (matchIndex n)(p \<mapsto> 0)\<rparr>"

definition becomeLeaderLocked :: "Node \<Rightarrow> Node" where
  "becomeLeaderLocked n =
     (let n1 = n\<lparr>state := Leader, leaderID := node_id n, leaderChanges := leaderChanges n + 1,
                 electionTimer := stop_timer (electionTimer n)\<rparr>;
          lastIdx = LastIndex (log n1) + 1;
          n2 = fold (init_peer_index lastIdx) (peers n1) n1
      in n2\<lparr>heartbeatTimer := Some (TimerRunning heartbeatInterval),
            replicateCancel := Some (next_ctx n2), next_ctx := Suc (next_ctx n2),
            replicators := replicators n2 @ map (Pair (next_ctx n2)) (peers n2)\<rparr>)"

definition becomeFollowerLocked :: "int \<Rightarrow> Term \<Rightarrow> Node \<Rightarrow> Node" where
  "becomeFollowerLocked rnd term n =
     (let n1 = (if term > currentTerm n
                then persist (PersistTerm term) (n\<lparr>currentTerm := term, votedFor := []\<rparr>)
                else n);
          wasLeader = (state n1 = Leader);
          n2 = n1\<lparr>state := Follower, votes := 0, votesReceived := Map.empty\<rparr>;
          n3 = (if wasLeader
                then cancel_replication (n2\<lparr>heartbeatTimer := stop_timer (heartbeatTimer n2)\<rparr>)
                else n2)
      in resetElectionTimerLocked rnd n3)"

text \<open>The majority of the cluster that \<open>startElection\<close> asks for.\<close>

definition vote_majority :: "NodeID list \<Rightarrow> int" where
  "vote_majority ps = (go_len ps + 1) div 2 + 1"

text \<open>The locked part of the goroutine that asked \<open>p\<close> for its vote in \<open>term\<close>.\<close>

definition handleVoteReply :: "int \<Rightarrow> NodeID \<Rightarrow> Term \<Rightarrow> RequestVoteReply \<Rightarrow> Node \<Rightarrow> Node" where
  "handleVoteReply rnd p term reply n =
     (if currentTerm n \<noteq> term \<or> state n \<noteq> Candidate then n
      else if rvr_Term reply > currentTerm n then becomeFollowerLocked rnd (rvr_Term reply) n
      else if rvr_VoteGranted reply then
        (if go_get False (votesReceived n) p then n
         else
           let n1 = n\<lparr>votesReceived := (votesReceived n)(p \<mapsto> True), votes := votes n + 1\<rparr>
           in if votes n1 \<ge> vote_majority (peers n1) then becomeLeaderLocked n1 else n1)
      else n)"

definition isLogUpToDate :: "Node \<Rightarrow> Term \<Rightarrow> LogIndex \<Rightarrow> bool option" where
  "isLogUpToDate n lastTerm lastIndex =
     do { ourLastTerm \<leftarrow> LastTerm (log n);
          Some (if lastTerm \<noteq> ourLastTerm then lastTerm > ourLastTerm
                else lastIndex \<ge> LastIndex (log n)) }"

definition HandleRequestVote ::
  "int \<Rightarrow> RequestVoteArgs \<Rightarrow> Node \<Rightarrow> (Node \<times> RequestVoteReply) option" where
  "HandleRequestVote rnd args n =
     (let n1 = (if rv_Term args > currentTerm n then becomeFollowerLocked rnd (rv_Term args) n
                else n);
          reply = \<lparr>rvr_Term = currentTerm n1, rvr_VoteGranted = False\<rparr>
      in if rv_Term args < currentTerm n1 then Some (n1, reply)
         else do {
           logOK \<leftarrow> isLogUpToDate n1 (rv_LastLogTerm args) (rv_LastLogIndex args);
           let canVote = (votedFor n1 = [] \<or> votedFor n1 = rv_CandidateID args);
           if canVote \<and> logOK then
             (let n2 = resetElectionTimerLocked rnd (n1\<lparr>votedFor := rv_CandidateID args\<rparr>);
                  n3 = persist (PersistVote (votedFor n2) (currentTerm n2)) n2
              in Some (n3, reply\<lparr>rvr_VoteGranted := True\<rparr>))
           else Some (n1, reply) })"

section \<open>AppendEntries\<close>

text \<open>Lines 463 to 472: a candidate or leader that hears from the leader of its term.\<close>

definition step_down_same_term :: "Node \<Rightarrow> Node" where
  "step_down_same_term n =
     (if state n \<noteq> Follower
      then cancel_replication (n\<lparr>state := Follower, heartbeatTimer := stop_timer (heartbeatTimer n)\<rparr>)
      else n)"

text \<open>The loop over the new entries; \<open>idx\<close> is the index of the first of them.\<close>

fun append_entries_loop :: "LogIndex \<Rightarrow> LogEntry list \<Rightarrow> Node \<Rightarrow> Node option" where
  "append_entries_loop idx [] n = Some n"
| "append_entries_loop idx (e # es) n =
     (if Contains (log n) idx then
        do { t \<leftarrow> TermAt (log n) idx;
             if t \<noteq> le_Term e then
               do { l1 \<leftarrow> TruncateAfter (log n) (idx - 1);
                    l2 \<leftarrow> Append l1 (e # es);
                    Some (persist_entries (e # es) (n\<lparr>log := l2\<rparr>)) }
             else append_entries_loop (idx + 1) es n }
      else
        do { l1 \<leftarrow> Append (log n) (e # es);
             Some (persist_entries (e # es) (n\<lparr>log := l1\<rparr>)) })"

definition update_commit :: "LogIndex \<Rightarrow> Node \<Rightarrow> Node" where
  "update_commit leaderCommit n =
     (if leaderCommit > commitIndex n
      then n\<lparr>commitIndex := (if LastIndex (log n) < leaderCommit then LastIndex (log n)
                             else leaderCommit)\<rparr>
      else n)"

text \<open>The consistency check at \<open>PrevLogIndex\<close>: \<open>Some (Some hint)\<close> rejects.\<close>

definition check_prev :: "AppendEntriesArgs \<Rightarrow> Node \<Rightarrow> (Term \<times> LogIndex) option option" where
  "check_prev args n =
     (if ae_PrevLogIndex args > 0 then
        (if \<not> Contains (log n) (ae_PrevLogIndex args) then Some (Some (0, LastIndex (log n) + 1))
         else do {
           t \<leftarrow> TermAt (log n) (ae_PrevLogIndex args);
           Some (if t \<noteq> ae_PrevLogTerm args
                 then Some (t, FindFirstIndexOfTerm (log n) t) else None) })
      else Some None)"

text \<open>Lines 459 to 478: what a request of a current leader does before the log is looked at.\<close>

definition accept_leader :: "int \<Rightarrow> AppendEntriesArgs \<Rightarrow> Node \<Rightarrow> Node" where
  "accept_leader rnd args n =
     (let n1 = (if ae_Term args > currentTerm n then becomeFollowerLocked rnd (ae_Term args) n
                else n);
          n2 = step_down_same_term n1
      in resetElectionTimerLocked rnd (n2\<lparr>leaderID := ae_LeaderID args\<rparr>))"

definition HandleAppendEntries ::
  "int \<Rightarrow> AppendEntriesArgs \<Rightarrow> Node \<Rightarrow> (Node \<times> AppendEntriesReply) option" where
  "HandleAppendEntries rnd args n =
     (if ae_Term args < currentTerm n
      then Some (n, \<lparr>aer_Term = currentTerm n, aer_Success = False, aer_ConflictTerm = 0,
                     aer_ConflictIndex = 0\<rparr>)
      else
        let n3 = accept_leader rnd args n;
            reply = \<lparr>aer_Term = currentTerm n3, aer_Success = False, aer_ConflictTerm = 0,
                     aer_ConflictIndex = 0\<rparr>
        in do {
          chk \<leftarrow> check_prev args n3;
          case chk of
            Some (ct, ci) \<Rightarrow> Some (n3, reply\<lparr>aer_ConflictTerm := ct, aer_ConflictIndex := ci\<rparr>)
          | None \<Rightarrow>
              do { n4 \<leftarrow> append_entries_loop (ae_PrevLogIndex args + 1) (ae_Entries args) n3;
                   Some (update_commit (ae_LeaderCommit args) n4, reply\<lparr>aer_Success := True\<rparr>) } })"

section \<open>Status queries\<close>

record NodeStatus =
  ns_NodeID :: string
  ns_State :: string
  ns_Term :: Term
  ns_CommitIndex :: LogIndex
  ns_LastApplied :: LogIndex
  ns_Peers :: "string list"
  ns_LeaderID :: string

definition Status :: "Node \<Rightarrow> NodeStatus" where
  "Status n =
     \<lparr>ns_NodeID = node_id n, ns_State = State_String (state n), ns_Term = currentTerm n,
      ns_CommitIndex = commitIndex n, ns_LastApplied = lastApplied n, ns_Peers = peers n,
      ns_LeaderID = leaderID n\<rparr>"

definition IsLeader :: "Node \<Rightarrow> bool" where
  "IsLeader n \<longleftrightarrow> state n = Leader"

definition LeaderID :: "Node \<Rightarrow> NodeID" where
  "LeaderID n = leaderID n"

definition ID :: "Node \<Rightarrow> NodeID" where
  "ID n = node_id n"

section \<open>Frames\<close>

lemma persist_frame [simp]:
  "node_id (persist f n) = node_id n" "peers (persist f n) = peers n"
  "currentTerm (persist f n) = currentTerm n" "votedFor (persist f n) = votedFor n"
  "log (persist f n) = log n" "state (persist f n) = state n"
  "commitIndex (persist f n) = commitIndex n" "lastApplied (persist f n) = lastApplied n"
  "leaderID (persist f n) = leaderID n" "nextIndex (persist f n) = nextIndex n"
  "matchIndex (persist f n) = matchIndex n" "votes (persist f n) = votes n"
  "votesReceived (persist f n) = votesReceived n" "applyCh (persist f n) = applyCh n"
  by (simp_all add: persist_def split: option.splits)

lemma persist_entries_frame [simp]:
  "node_id (persist_entries es n) = node_id n" "peers (persist_entries es n) = peers n"
  "currentTerm (persist_entries es n) = currentTerm n"
  "votedFor (persist_entries es n) = votedFor n"
  "log (persist_entries es n) = log n" "state (persist_entries es n) = state n"
  "commitIndex (persist_entries es n) = commitIndex n"
  "lastApplied (persist_entries es n) = lastApplied n"
  "leaderID (persist_entries es n) = leaderID n"
  "nextIndex (persist_entries es n) = nextIndex n"
  "matchIndex (persist_entries es n) = matchIndex n" "votes (persist_entries es n) = votes n"
  "votesReceived (persist_entries es n) = votesReceived n"
  "applyCh (persist_entries es n) = applyCh n"
  by (induction es arbitrary: n) simp_all

lemma reset_frame [simp]:
  "node_id (resetElectionTimerLocked r n) = node_id n"
  "peers (resetElectionTimerLocked r n) = peers n"
  "currentTerm (resetElectionTimerLocked r n) = currentTerm n"
  "votedFor (resetElectionTimerLocked r n) = votedFor n"
  "log (resetElectionTimerLocked r n) = log n" "state (resetElectionTimerLocked r n) = state n"
  "commitIndex (resetElectionTimerLocked r n) = commitIndex n"
  "lastApplied (resetElectionTimerLocked r n) = lastApplied n"
  "leaderID (resetElectionTimerLocked r n) = leaderID n"
  "nextIndex (resetElectionTimerLocked r n) = nextIndex n"
  "matchIndex (resetElectionTimerLocked r n) = matchIndex n"
  "votes (resetElectionTimerLocked r n) = votes n"
  "votesReceived (resetElectionTimerLocked r n) = votesReceived n"
  "wal (resetElectionTimerLocked r n) = wal n"
  "applyCh (resetElectionTimerLocked r n) = applyCh n"
  by (simp_all add: resetElectionTimerLocked_def)

lemma cancel_frame [simp]:
  "node_id (cancel_replication n) = node_id n" "peers (cancel_replication n) = peers n"
  "currentTerm (cancel_replication n) = currentTerm n"
  "votedFor (cancel_replication n) = votedFor n"
  "log (cancel_replication n) = log n" "state (cancel_replication n) = state n"
  "commitIndex (cancel_replication n) = commitIndex n"
  "lastApplied (cancel_replication n) = lastApplied n"
  "leaderID (cancel_replication n) = leaderID n"
  "nextIndex (cancel_replication n) = nextIndex n"
  "matchIndex (cancel_replication n) = matchIndex n" "votes (cancel_replication n) = votes n"
  "votesReceived (cancel_replication n) = votesReceived n"
  "wal (cancel_replication n) = wal n" "applyCh (cancel_replication n) = applyCh n"
  by (simp_all add: cancel_replication_def split: option.splits)

lemma step_down_frame [simp]:
  "node_id (step_down_same_term n) = node_id n" "peers (step_down_same_term n) = peers n"
  "currentTerm (step_down_same_term n) = currentTerm n"
  "votedFor (step_down_same_term n) = votedFor n"
  "log (step_down_same_term n) = log n" "state (step_down_same_term n) = Follower"
  "commitIndex (step_down_same_term n) = commitIndex n"
  "lastApplied (step_down_same_term n) = lastApplied n"
  "leaderID (step_down_same_term n) = leaderID n"
  "nextIndex (step_down_same_term n) = nextIndex n"
  "matchIndex (step_down_same_term n) = matchIndex n"
  "wal (step_down_same_term n) = wal n" "applyCh (step_down_same_term n) = applyCh n"
  by (simp_all add: step_down_same_term_def)

lemma becomeFollower_frame [simp]:
  "node_id (becomeFollowerLocked r t n) = node_id n"
  "peers (becomeFollowerLocked r t n) = peers n"
  "currentTerm (becomeFollowerLocked r t n) = max t (currentTerm n)"
  "votedFor (becomeFollowerLocked r t n) = (if t > currentTerm n then [] else votedFor n)"
  "log (becomeFollowerLocked r t n) = log n" "state (becomeFollowerLocked r t n) = Follower"
  "commitIndex (becomeFollowerLocked r t n) = commitIndex n"
  "lastApplied (becomeFollowerLocked r t n) = lastApplied n"
  "leaderID (becomeFollowerLocked r t n) = leaderID n"
  "nextIndex (becomeFollowerLocked r t n) = nextIndex n"
  "matchIndex (becomeFollowerLocked r t n) = matchIndex n"
  "votes (becomeFollowerLocked r t n) = 0"
  "votesReceived (becomeFollowerLocked r t n) = Map.empty"
  "applyCh (becomeFollowerLocked r t n) = applyCh n"
  by (auto simp: becomeFollowerLocked_def Let_def max_def)

lemma init_peers_frame [simp]:
  "node_id (fold (init_peer_index i) ps n) = node_id n"
  "peers (fold (init_peer_index i) ps n) = peers n"
  "currentTerm (fold (init_peer_index i) ps n) = currentTerm n"
  "votedFor (fold (init_peer_index i) ps n) = votedFor n"
  "log (fold (init_peer_index i) ps n) = log n"
  "state (fold (init_peer_index i) ps n) = state n"
  "commitIndex (fold (init_peer_index i) ps n) = commitIndex n"
  "lastApplied (fold (init_peer_index i) ps n) = lastApplied n"
  "leaderID (fold (init_peer_index i) ps n) = leaderID n"
  "votes (fold (init_peer_index i) ps n) = votes n"
  "votesReceived (fold (init_peer_index i) ps n) = votesReceived n"
  "wal (fold (init_peer_index i) ps n) = wal n"
  "applyCh (fold (init_peer_index i) ps n) = applyCh n"
  by (induction ps arbitrary: n) (simp_all add: init_peer_index_def)

lemma init_peers_index:
  "nextIndex (fold (init_peer_index i) ps n) p = (if p \<in> set ps then Some i else nextIndex n p)"
  "matchIndex (fold (init_peer_index i) ps n) p = (if p \<in> set ps then Some 0 else matchIndex n p)"
  by (induction ps arbitrary: n) (auto simp: init_peer_index_def)

lemma becomeLeader_frame [simp]:
  "node_id (becomeLeaderLocked n) = node_id n" "peers (becomeLeaderLocked n) = peers n"
  "currentTerm (becomeLeaderLocked n) = currentTerm n"
  "votedFor (becomeLeaderLocked n) = votedFor n"
  "log (becomeLeaderLocked n) = log n" "state (becomeLeaderLocked n) = Leader"
  "commitIndex (becomeLeaderLocked n) = commitIndex n"
  "lastApplied (becomeLeaderLocked n) = lastApplied n"
  "leaderID (becomeLeaderLocked n) = node_id n"
  "votes (becomeLeaderLocked n) = votes n"
  "votesReceived (becomeLeaderLocked n) = votesReceived n"
  "wal (becomeLeaderLocked n) = wal n" "applyCh (becomeLeaderLocked n) = applyCh n"
  by (simp_all add: becomeLeaderLocked_def Let_def)

lemma becomeLeader_index:
  "nextIndex (becomeLeaderLocked n) p =
     (if p \<in> set (peers n) then Some (LastIndex (log n) + 1) else nextIndex n p)"
  "matchIndex (becomeLeaderLocked n) p = (if p \<in> set (peers n) then Some 0 else matchIndex n p)"
  by (simp_all add: becomeLeaderLocked_def Let_def init_peers_index)

lemma update_commit_frame [simp]:
  "node_id (update_commit k n) = node_id n" "peers (update_commit k n) = peers n"
  "currentTerm (update_commit k n) = currentTerm n" "votedFor (update_commit k n) = votedFor n"
  "log (update_commit k n) = log n" "state (update_commit k n) = state n"
  "lastApplied (update_commit k n) = lastApplied n" "leaderID (update_commit k n) = leaderID n"
  "nextIndex (update_commit k n) = nextIndex n" "matchIndex (update_commit k n) = matchIndex n"
  "votes (update_commit k n) = votes n" "votesReceived (update_commit k n) = votesReceived n"
  "wal (update_commit k n) = wal n" "applyCh (update_commit k n) = applyCh n"
  by (simp_all add: update_commit_def)

lemma append_loop_frame:
  assumes "append_entries_loop idx es n = Some n'"
  shows "node_id n' = node_id n" "peers n' = peers n" "currentTerm n' = currentTerm n"
    "votedFor n' = votedFor n" "state n' = state n" "commitIndex n' = commitIndex n"
    "lastApplied n' = lastApplied n" "leaderID n' = leaderID n" "nextIndex n' = nextIndex n"
    "matchIndex n' = matchIndex n" "votes n' = votes n" "votesReceived n' = votesReceived n"
    "applyCh n' = applyCh n"
  using assms
  by (induction idx es n rule: append_entries_loop.induct)
    (auto split: if_splits bind_splits)

lemma startElection_Some:
  assumes "startElection rnd n = Some (n', args)"
  shows "node_id n' = node_id n" "peers n' = peers n" "currentTerm n' = currentTerm n + 1"
    "votedFor n' = node_id n" "log n' = log n" "state n' = Candidate"
    "commitIndex n' = commitIndex n" "lastApplied n' = lastApplied n"
    "leaderID n' = []" "nextIndex n' = nextIndex n" "matchIndex n' = matchIndex n" "votes n' = 1"
    "votesReceived n' = [node_id n \<mapsto> True]" "applyCh n' = applyCh n"
    "rv_Term args = currentTerm n + 1" "rv_CandidateID args = node_id n"
    "rv_LastLogIndex args = LastIndex (log n)" "Some (rv_LastLogTerm args) = LastTerm (log n)"
  using assms by (auto simp: startElection_def Let_def split: bind_splits)

lemma HandleRequestVote_frame:
  assumes "HandleRequestVote rnd args n = Some (n', reply)"
  shows "node_id n' = node_id n" "peers n' = peers n" "log n' = log n"
    "commitIndex n' = commitIndex n" "lastApplied n' = lastApplied n"
    "nextIndex n' = nextIndex n" "matchIndex n' = matchIndex n" "leaderID n' = leaderID n"
    "applyCh n' = applyCh n"
    "currentTerm n' = max (rv_Term args) (currentTerm n)" "rvr_Term reply = currentTerm n'"
    "state n' = (if rv_Term args > currentTerm n then Follower else state n)"
    "votes n' = (if rv_Term args > currentTerm n then 0 else votes n)"
    "votesReceived n' = (if rv_Term args > currentTerm n then Map.empty else votesReceived n)"
  using assms
  by (auto simp: HandleRequestVote_def Let_def max_def split: bind_splits if_splits)

text \<open>When a vote is granted, and what happens to \<open>votedFor\<close>.\<close>

lemma HandleRequestVote_grant:
  assumes "HandleRequestVote rnd args n = Some (n', reply)" and "rvr_VoteGranted reply"
  shows "currentTerm n' = rv_Term args" "currentTerm n \<le> rv_Term args"
    "votedFor n' = rv_CandidateID args"
    "rv_Term args = currentTerm n \<Longrightarrow> votedFor n = [] \<or> votedFor n = rv_CandidateID args"
    "isLogUpToDate n (rv_LastLogTerm args) (rv_LastLogIndex args) = Some True"
  using assms
  by (auto simp: HandleRequestVote_def Let_def max_def isLogUpToDate_def
      split: bind_splits if_splits)

lemma HandleRequestVote_deny:
  assumes "HandleRequestVote rnd args n = Some (n', reply)" and "\<not> rvr_VoteGranted reply"
  shows "votedFor n' = (if rv_Term args > currentTerm n then [] else votedFor n)"
  using assms by (auto simp: HandleRequestVote_def Let_def split: bind_splits if_splits)

lemma handleVoteReply_cases:
  obtains (same) "handleVoteReply rnd p t reply n = n"
  | (down) "handleVoteReply rnd p t reply n = becomeFollowerLocked rnd (rvr_Term reply) n"
      "rvr_Term reply > currentTerm n"
  | (count) "handleVoteReply rnd p t reply n =
        n\<lparr>votesReceived := (votesReceived n)(p \<mapsto> True), votes := votes n + 1\<rparr>"
      "state n = Candidate" "currentTerm n = t" "rvr_VoteGranted reply"
      "\<not> go_get False (votesReceived n) p"
      "votes n + 1 < vote_majority (peers n)"
  | (win) "handleVoteReply rnd p t reply n =
        becomeLeaderLocked (n\<lparr>votesReceived := (votesReceived n)(p \<mapsto> True), votes := votes n + 1\<rparr>)"
      "state n = Candidate" "currentTerm n = t" "rvr_VoteGranted reply"
      "\<not> go_get False (votesReceived n) p"
      "votes n + 1 \<ge> vote_majority (peers n)"
proof (cases "currentTerm n = t \<and> state n = Candidate")
  case cand: True
  show thesis
  proof (cases "rvr_Term reply > currentTerm n")
    case True
    show thesis by (rule down) (use cand True in \<open>simp_all add: handleVoteReply_def\<close>)
  next
    case le: False
    show thesis
    proof (cases "rvr_VoteGranted reply \<and> \<not> go_get False (votesReceived n) p")
      case granted: True
      show thesis
      proof (cases "votes n + 1 < vote_majority (peers n)")
        case True
        show thesis
          by (rule count) (use cand le granted True in \<open>simp_all add: handleVoteReply_def\<close>)
      next
        case False
        show thesis
          by (rule win) (use cand le granted False in \<open>simp_all add: handleVoteReply_def\<close>)
      qed
    next
      case False
      show thesis by (rule same) (use cand le False in \<open>auto simp: handleVoteReply_def\<close>)
    qed
  qed
next
  case False
  show thesis by (rule same) (use False in \<open>auto simp: handleVoteReply_def\<close>)
qed

lemma accept_leader_frame [simp]:
  "node_id (accept_leader rnd args n) = node_id n"
  "peers (accept_leader rnd args n) = peers n"
  "currentTerm (accept_leader rnd args n) = max (ae_Term args) (currentTerm n)"
  "votedFor (accept_leader rnd args n) = (if ae_Term args > currentTerm n then [] else votedFor n)"
  "log (accept_leader rnd args n) = log n" "state (accept_leader rnd args n) = Follower"
  "commitIndex (accept_leader rnd args n) = commitIndex n"
  "lastApplied (accept_leader rnd args n) = lastApplied n"
  "leaderID (accept_leader rnd args n) = ae_LeaderID args"
  "nextIndex (accept_leader rnd args n) = nextIndex n"
  "matchIndex (accept_leader rnd args n) = matchIndex n"
  "applyCh (accept_leader rnd args n) = applyCh n"
  by (auto simp: accept_leader_def Let_def max_def)

text \<open>The three outcomes of \<open>HandleAppendEntries\<close>.\<close>

lemma HandleAppendEntries_cases [consumes 1, case_names stale reject accept]:
  assumes "HandleAppendEntries rnd args n = Some (n', reply)"
  obtains "ae_Term args < currentTerm n" "n' = n" "\<not> aer_Success reply"
      "aer_Term reply = currentTerm n" "aer_ConflictTerm reply = 0" "aer_ConflictIndex reply = 0"
  | ct ci where "currentTerm n \<le> ae_Term args" "n' = accept_leader rnd args n"
      "\<not> aer_Success reply" "aer_Term reply = ae_Term args"
      "check_prev args n' = Some (Some (ct, ci))"
      "aer_ConflictTerm reply = ct" "aer_ConflictIndex reply = ci"
  | n3 n4 where "currentTerm n \<le> ae_Term args" "n3 = accept_leader rnd args n"
      "check_prev args n3 = Some None"
      "append_entries_loop (ae_PrevLogIndex args + 1) (ae_Entries args) n3 = Some n4"
      "n' = update_commit (ae_LeaderCommit args) n4"
      "aer_Success reply" "aer_Term reply = ae_Term args"
proof (cases "ae_Term args < currentTerm n")
  case True
  then show thesis using assms by (intro that(1)) (auto simp: HandleAppendEntries_def)
next
  case False
  let ?n3 = "accept_leader rnd args n"
  let ?acc = "\<lparr>aer_Term = ae_Term args, aer_Success = True, aer_ConflictTerm = 0,
    aer_ConflictIndex = 0\<rparr>"
  let ?rej = "\<lambda>ct ci. \<lparr>aer_Term = ae_Term args, aer_Success = False, aer_ConflictTerm = ct,
    aer_ConflictIndex = ci\<rparr>"
  from False have t: "max (ae_Term args) (currentTerm n) = ae_Term args" by simp
  from assms False obtain chk where chk: "check_prev args ?n3 = Some chk"
    and r: "(case chk of
            Some (ct, ci) \<Rightarrow> Some (?n3, ?rej ct ci)
          | None \<Rightarrow>
              Option.bind (append_entries_loop (ae_PrevLogIndex args + 1) (ae_Entries args) ?n3)
                (\<lambda>n4. Some (update_commit (ae_LeaderCommit args) n4, ?acc)))
        = Some (n', reply)"
    by (auto simp: HandleAppendEntries_def Let_def bind_eq_Some_conv t)
  show thesis
  proof (cases chk)
    case None
    with r obtain n4 where
      "append_entries_loop (ae_PrevLogIndex args + 1) (ae_Entries args) ?n3 = Some n4"
      "n' = update_commit (ae_LeaderCommit args) n4" "reply = ?acc"
      by (auto simp: bind_eq_Some_conv)
    with None chk False show thesis by (intro that(3) [of ?n3 n4]) simp_all
  next
    case (Some p)
    with r chk False show thesis by (intro that(2) [of "fst p" "snd p"]) (auto simp: case_prod_beta)
  qed
qed

lemma HandleAppendEntries_frame_aux:
  assumes "HandleAppendEntries rnd args n = Some (n', reply)"
  shows "node_id n' = node_id n \<and> peers n' = peers n \<and> lastApplied n' = lastApplied n \<and>
    nextIndex n' = nextIndex n \<and> matchIndex n' = matchIndex n \<and> applyCh n' = applyCh n \<and>
    currentTerm n' = max (ae_Term args) (currentTerm n) \<and> aer_Term reply = currentTerm n' \<and>
    votedFor n' = (if ae_Term args > currentTerm n then [] else votedFor n) \<and>
    state n' = (if ae_Term args < currentTerm n then state n else Follower) \<and>
    leaderID n' = (if ae_Term args < currentTerm n then leaderID n else ae_LeaderID args)"
  using assms
proof (cases rule: HandleAppendEntries_cases)
  case stale
  then show ?thesis by auto
next
  case (reject ct ci)
  then show ?thesis by (simp add: leD)
next
  case (accept n3 n4)
  note f = append_loop_frame [OF accept(4)]
  show ?thesis using accept(1,2,5,6,7) f by (simp add: leD)
qed

lemma HandleAppendEntries_frame:
  assumes "HandleAppendEntries rnd args n = Some (n', reply)"
  shows "node_id n' = node_id n" "peers n' = peers n" "lastApplied n' = lastApplied n"
    "nextIndex n' = nextIndex n" "matchIndex n' = matchIndex n" "applyCh n' = applyCh n"
    "currentTerm n' = max (ae_Term args) (currentTerm n)" "aer_Term reply = currentTerm n'"
    "votedFor n' = (if ae_Term args > currentTerm n then [] else votedFor n)"
    "state n' = (if ae_Term args < currentTerm n then state n else Follower)"
    "leaderID n' = (if ae_Term args < currentTerm n then leaderID n else ae_LeaderID args)"
  using HandleAppendEntries_frame_aux [OF assms] by blast+

end
