(* ===== verification/Raft_Replication.thy ===== *)
theory Raft_Replication
  imports Raft_Node
begin

text \<open>
  Log replication: \<open>internal/raft/replication.go\<close> and the heartbeat and conflict code of
  \<open>internal/raft/node.go\<close>. A replication round is three sections: the leader builds the request
  under its lock, the follower handles it, and the leader handles the reply with the values it
  captured when it built the request.
\<close>

section \<open>Commit index\<close>

definition commit_matches :: "Node \<Rightarrow> LogIndex list" where
  "commit_matches n = LastIndex (log n) # map (go_get 0 (matchIndex n)) (peers n)"

text \<open>\<open>sort.Slice\<close> with \<open>>\<close>, on numbers.\<close>

definition sort_desc :: "LogIndex list \<Rightarrow> LogIndex list" where
  "sort_desc xs = rev (sort xs)"

definition commit_majority :: "NodeID list \<Rightarrow> int" where
  "commit_majority ps = (go_len ps + 1) div 2"

definition advanceCommitIndexLocked :: "Node \<Rightarrow> Node option" where
  "advanceCommitIndexLocked n =
     (let matches = sort_desc (commit_matches n); majority = commit_majority (peers n) in
      if majority \<ge> go_len matches then Some n
      else
        let candidateCommit = matches ! nat majority in
        if candidateCommit > commitIndex n \<and> Contains (log n) candidateCommit then
          do { t \<leftarrow> TermAt (log n) candidateCommit;
               Some (if t = currentTerm n
                     then n\<lparr>commitIndex := candidateCommit,
                            committedEntries := go_int candidateCommit\<rparr>
                     else n) }
        else Some n)"

section \<open>Conflict hints\<close>

text \<open>The loop \<open>for i := n.log.LastIndex(); i > 0; i--\<close>; 0 when no entry has the term.\<close>

fun find_last_loop :: "RaftLog \<Rightarrow> Term \<Rightarrow> nat \<Rightarrow> LogIndex option" where
  "find_last_loop l t 0 = Some 0"
| "find_last_loop l t (Suc i) =
     do { u \<leftarrow> TermAt l (of_nat (Suc i));
          if u = t then Some (of_nat (Suc i)) else find_last_loop l t i }"

definition set_nextIndex :: "NodeID \<Rightarrow> LogIndex \<Rightarrow> Node \<Rightarrow> Node" where
  "set_nextIndex p i n = n\<lparr>nextIndex := (nextIndex n)(p \<mapsto> i)\<rparr>"

definition handleConflictLocked :: "NodeID \<Rightarrow> AppendEntriesReply \<Rightarrow> Node \<Rightarrow> Node option" where
  "handleConflictLocked p reply n =
     (if aer_ConflictTerm reply > 0 then
        do { lastIdxOfTerm \<leftarrow>
               find_last_loop (log n) (aer_ConflictTerm reply) (unat (LastIndex (log n)));
             Some (if lastIdxOfTerm > 0 then set_nextIndex p (lastIdxOfTerm + 1) n
                   else set_nextIndex p (aer_ConflictIndex reply) n) }
      else if aer_ConflictIndex reply > 0 then Some (set_nextIndex p (aer_ConflictIndex reply) n)
      else if go_get 0 (nextIndex n) p > 1
      then Some (set_nextIndex p (go_get 0 (nextIndex n) p - 1) n)
      else Some n)"

section \<open>Building requests\<close>

text \<open>The request for \<open>p\<close> from the node's current log; shared by heartbeats and replication.\<close>

definition build_args :: "NodeID \<Rightarrow> Term \<Rightarrow> LogIndex \<Rightarrow> Node \<Rightarrow> AppendEntriesArgs option" where
  "build_args p term commit n =
     (let nextIdx = go_get 0 (nextIndex n) p; prevLogIndex = nextIdx - 1 in
      do { prevLogTerm \<leftarrow> TermAt (log n) prevLogIndex;
           es \<leftarrow> EntriesFrom (log n) nextIdx;
           Some \<lparr>ae_Term = term, ae_LeaderID = node_id n, ae_PrevLogIndex = prevLogIndex,
                 ae_PrevLogTerm = prevLogTerm, ae_Entries = es, ae_LeaderCommit = commit\<rparr> })"

text \<open>The first locked section of \<open>sendHeartbeats\<close>: the term and commit index that every
  heartbeat goroutine captures, or nothing when the node is not the leader.\<close>

definition sendHeartbeats :: "Node \<Rightarrow> (Term \<times> LogIndex) option" where
  "sendHeartbeats n = (if state n \<noteq> Leader then None else Some (currentTerm n, commitIndex n))"

text \<open>The second section, in the goroutine for \<open>p\<close>. It does not look at the role again.\<close>

definition heartbeat_build :: "NodeID \<Rightarrow> Term \<Rightarrow> LogIndex \<Rightarrow> Node \<Rightarrow> AppendEntriesArgs option" where
  "heartbeat_build p term commit n = build_args p term commit n"

text \<open>The locked section of a \<open>replicateLog\<close> tick: stop, nothing to send, or a request.\<close>

datatype tick = TickStop | TickIdle | TickSend AppendEntriesArgs

definition replicate_tick :: "NodeID \<Rightarrow> Node \<Rightarrow> tick option" where
  "replicate_tick p n =
     (if state n \<noteq> Leader then Some TickStop
      else do { args \<leftarrow> build_args p (currentTerm n) (commitIndex n) n;
                Some (if ae_Entries args = [] then TickIdle else TickSend args) })"

section \<open>Handling replies\<close>

definition record_match :: "NodeID \<Rightarrow> LogEntry list \<Rightarrow> Node \<Rightarrow> Node" where
  "record_match p es n =
     (let newNextIdx = le_Index (last es) + 1;
          n1 = (if newNextIdx > go_get 0 (nextIndex n) p then set_nextIndex p newNextIdx n else n);
          newMatchIdx = newNextIdx - 1
      in if newMatchIdx > go_get 0 (matchIndex n1) p
         then n1\<lparr>matchIndex := (matchIndex n1)(p \<mapsto> newMatchIdx)\<rparr> else n1)"

text \<open>The reply handler of a heartbeat goroutine; the goroutine of \<open>replicateLog\<close> has the same
  code but sends no empty request, so its \<open>entries[len(entries)-1]\<close> is in range.\<close>

definition heartbeat_reply ::
  "int \<Rightarrow> NodeID \<Rightarrow> Term \<Rightarrow> LogEntry list \<Rightarrow> AppendEntriesReply \<Rightarrow> Node \<Rightarrow> Node option" where
  "heartbeat_reply rnd p term es reply n =
     (if state n \<noteq> Leader \<or> currentTerm n \<noteq> term then Some n
      else if aer_Term reply > currentTerm n then Some (becomeFollowerLocked rnd (aer_Term reply) n)
      else if aer_Success reply then
        (if es \<noteq> [] then advanceCommitIndexLocked (record_match p es n) else Some n)
      else handleConflictLocked p reply n)"

definition replicate_reply ::
  "int \<Rightarrow> NodeID \<Rightarrow> Term \<Rightarrow> LogEntry list \<Rightarrow> AppendEntriesReply \<Rightarrow> Node \<Rightarrow> Node option" where
  "replicate_reply rnd p term es reply n =
     (if state n \<noteq> Leader \<or> currentTerm n \<noteq> term then Some n
      else if aer_Term reply > currentTerm n then Some (becomeFollowerLocked rnd (aer_Term reply) n)
      else if aer_Success reply then
        (if es = [] then None else advanceCommitIndexLocked (record_match p es n))
      else handleConflictLocked p reply n)"

section \<open>Applying committed entries\<close>

text \<open>The first locked section of an \<open>applyLoop\<close> tick: the entries to deliver and the index
  recorded once they are delivered.\<close>

definition apply_begin :: "Node \<Rightarrow> (LogEntry list \<times> LogIndex) option option" where
  "apply_begin n =
     (if lastApplied n \<ge> commitIndex n then Some None
      else do { es \<leftarrow> Entries (log n) (lastApplied n + 1) (commitIndex n);
                Some (Some (es, commitIndex n)) })"

definition applyCh_capacity :: nat where "applyCh_capacity = 256"

text \<open>Sending one entry on \<open>applyCh\<close>; \<open>None\<close> when the send blocks.\<close>

definition apply_send :: "LogEntry \<Rightarrow> Node \<Rightarrow> Node option" where
  "apply_send e n =
     (if length (applyCh n) < applyCh_capacity then Some (n\<lparr>applyCh := applyCh n @ [e]\<rparr>) else None)"

definition apply_finish :: "LogIndex \<Rightarrow> Node \<Rightarrow> Node" where
  "apply_finish newLastApplied n = n\<lparr>lastApplied := newLastApplied\<rparr>"

section \<open>Client commands\<close>

datatype submit_error = SubmitRaft raft_error | SubmitWal wal_error

text \<open>The locked part of \<open>SubmitCommand\<close>: append and persist. When the write to the WAL fails the
  entry stays in the log.\<close>

definition submit_append ::
  "bytes \<Rightarrow> Node \<Rightarrow> (Node \<times> (submit_error + (LogIndex \<times> Term))) option" where
  "submit_append command n =
     (if state n \<noteq> Leader then Some (n, Inl (SubmitRaft ErrNotLeader))
      else
        let entry = \<lparr>le_Term = currentTerm n, le_Index = LastIndex (log n) + 1,
                     le_Command = command\<rparr>
        in do {
          l \<leftarrow> Append (log n) [entry];
          let n1 = n\<lparr>log := l\<rparr>;
          case wal n1 of
            None \<Rightarrow> Some (n1, Inr (le_Index entry, le_Term entry))
          | Some w \<Rightarrow>
              (case PersistEntry (le_Index entry) (le_Term entry) (le_Command entry) w of
                 (Some e, w1) \<Rightarrow> Some (n1\<lparr>wal := Some w1\<rparr>, Inl (SubmitWal e))
               | (None, w1) \<Rightarrow> Some (n1\<lparr>wal := Some w1\<rparr>, Inr (le_Index entry, le_Term entry))) })"

text \<open>The waiting loop, given the node as each poll before the deadline finds it.\<close>

fun submit_wait :: "LogIndex \<Rightarrow> Term \<Rightarrow> Node list \<Rightarrow> submit_error + (LogIndex \<times> Term)" where
  "submit_wait index term [] = Inl (SubmitRaft ErrTimeout)"
| "submit_wait index term (n # ns) =
     (if state n \<noteq> Leader \<or> currentTerm n \<noteq> term then Inl (SubmitRaft ErrNotLeader)
      else if lastApplied n \<ge> index then Inr (index, term)
      else submit_wait index term ns)"

definition SubmitCommand ::
  "bytes \<Rightarrow> Node \<Rightarrow> Node list \<Rightarrow> (Node \<times> (submit_error + (LogIndex \<times> Term))) option" where
  "SubmitCommand command n polls =
     do { (n1, r) \<leftarrow> submit_append command n;
          Some (n1, case r of Inl e \<Rightarrow> Inl e | Inr (index, term) \<Rightarrow> submit_wait index term polls) }"

section \<open>Frames\<close>

lemma set_nextIndex_frame [simp]:
  "node_id (set_nextIndex p i n) = node_id n" "peers (set_nextIndex p i n) = peers n"
  "currentTerm (set_nextIndex p i n) = currentTerm n" "votedFor (set_nextIndex p i n) = votedFor n"
  "log (set_nextIndex p i n) = log n" "state (set_nextIndex p i n) = state n"
  "commitIndex (set_nextIndex p i n) = commitIndex n"
  "lastApplied (set_nextIndex p i n) = lastApplied n"
  "leaderID (set_nextIndex p i n) = leaderID n"
  "nextIndex (set_nextIndex p i n) = (nextIndex n)(p \<mapsto> i)"
  "matchIndex (set_nextIndex p i n) = matchIndex n" "votes (set_nextIndex p i n) = votes n"
  "votesReceived (set_nextIndex p i n) = votesReceived n"
  "wal (set_nextIndex p i n) = wal n" "applyCh (set_nextIndex p i n) = applyCh n"
  by (simp_all add: set_nextIndex_def)

lemma record_match_frame [simp]:
  "node_id (record_match p es n) = node_id n" "peers (record_match p es n) = peers n"
  "currentTerm (record_match p es n) = currentTerm n" "votedFor (record_match p es n) = votedFor n"
  "log (record_match p es n) = log n" "state (record_match p es n) = state n"
  "commitIndex (record_match p es n) = commitIndex n"
  "lastApplied (record_match p es n) = lastApplied n"
  "leaderID (record_match p es n) = leaderID n" "votes (record_match p es n) = votes n"
  "votesReceived (record_match p es n) = votesReceived n"
  "wal (record_match p es n) = wal n" "applyCh (record_match p es n) = applyCh n"
  by (simp_all add: record_match_def Let_def)

lemma handleConflict_frame:
  assumes "handleConflictLocked p reply n = Some n'"
  shows "node_id n' = node_id n" "peers n' = peers n" "currentTerm n' = currentTerm n"
    "votedFor n' = votedFor n" "log n' = log n" "state n' = state n"
    "commitIndex n' = commitIndex n" "lastApplied n' = lastApplied n" "leaderID n' = leaderID n"
    "matchIndex n' = matchIndex n" "votes n' = votes n" "votesReceived n' = votesReceived n"
    "wal n' = wal n" "applyCh n' = applyCh n"
  using assms by (auto simp: handleConflictLocked_def split: if_splits bind_splits)

lemma advanceCommit_frame:
  assumes "advanceCommitIndexLocked n = Some n'"
  shows "node_id n' = node_id n" "peers n' = peers n" "currentTerm n' = currentTerm n"
    "votedFor n' = votedFor n" "log n' = log n" "state n' = state n"
    "lastApplied n' = lastApplied n" "leaderID n' = leaderID n" "nextIndex n' = nextIndex n"
    "matchIndex n' = matchIndex n" "votes n' = votes n" "votesReceived n' = votesReceived n"
    "wal n' = wal n" "applyCh n' = applyCh n"
  using assms by (auto simp: advanceCommitIndexLocked_def Let_def split: if_splits bind_splits)

text \<open>What the two reply handlers do; \<open>k\<close> is the kind of request.\<close>

lemma append_reply_cases [consumes 1, case_names same down match conflict]:
  assumes "heartbeat_reply rnd p t es reply n = Some n' \<or> replicate_reply rnd p t es reply n = Some n'"
  obtains "n' = n"
  | "n' = becomeFollowerLocked rnd (aer_Term reply) n" "aer_Term reply > currentTerm n"
  | "state n = Leader" "currentTerm n = t" "aer_Term reply \<le> currentTerm n" "aer_Success reply"
      "es \<noteq> []" "advanceCommitIndexLocked (record_match p es n) = Some n'"
  | "state n = Leader" "currentTerm n = t" "aer_Term reply \<le> currentTerm n" "\<not> aer_Success reply"
      "handleConflictLocked p reply n = Some n'"
proof (cases "state n = Leader \<and> currentTerm n = t")
  case lead: True
  show thesis
  proof (cases "aer_Term reply > currentTerm n")
    case True
    with lead assms show thesis
      by (intro that(2)) (auto simp: heartbeat_reply_def replicate_reply_def)
  next
    case le: False
    show thesis
    proof (cases "aer_Success reply")
      case True
      show thesis
      proof (cases "es = []")
        case nil: True
        with lead le True assms show thesis
          by (intro that(1)) (auto simp: heartbeat_reply_def replicate_reply_def)
      next
        case False
        with lead le True assms show thesis
          by (intro that(3)) (auto simp: heartbeat_reply_def replicate_reply_def)
      qed
    next
      case False
      with lead le assms show thesis
        by (intro that(4)) (auto simp: heartbeat_reply_def replicate_reply_def)
    qed
  qed
next
  case False
  with assms show thesis
    by (intro that(1)) (auto simp: heartbeat_reply_def replicate_reply_def)
qed

lemma submit_append_cases [consumes 1, case_names refused appended]:
  assumes "submit_append cmd n = Some (n', r)"
  obtains "state n \<noteq> Leader" "n' = n" "r = Inl (SubmitRaft ErrNotLeader)"
  | l w where "state n = Leader"
      "Append (log n) [\<lparr>le_Term = currentTerm n, le_Index = LastIndex (log n) + 1, le_Command = cmd\<rparr>]
         = Some l"
      "n' = n\<lparr>log := l, wal := w\<rparr>"
proof (cases "state n = Leader")
  case True
  let ?e = "\<lparr>le_Term = currentTerm n, le_Index = LastIndex (log n) + 1, le_Command = cmd\<rparr>"
  from True assms obtain l where l: "Append (log n) [?e] = Some l"
    by (auto simp: submit_append_def Let_def bind_eq_Some_conv)
  from True assms l have "n' = n\<lparr>log := l, wal := wal n'\<rparr>"
    by (auto simp: submit_append_def Let_def split: option.splits prod.splits)
  with True l show thesis by (rule that(2))
next
  case False
  with assms show thesis by (intro that(1)) (auto simp: submit_append_def)
qed

end
