(* ===== verification/Kv_Store.thy ===== *)
theory Kv_Store
  imports Go_Json
begin

text \<open>
  The state machine of \<open>internal/kvstore/store.go\<close>: a map from strings to strings, and commands
  serialised as JSON objects. The store's own lock makes every method one atomic step.
\<close>

definition CmdPut :: string where "CmdPut = ''put''"
definition CmdDelete :: string where "CmdDelete = ''delete''"

record Command =
  cmd_Op :: string
  cmd_Key :: string
  cmd_Value :: string

record KVStore =
  data :: "string \<rightharpoonup> string"

definition NewKVStore :: KVStore where
  "NewKVStore = \<lparr>data = Map.empty\<rparr>"

definition Get :: "KVStore \<Rightarrow> string \<Rightarrow> string \<times> bool" where
  "Get s key = (case data s key of None \<Rightarrow> ([], False) | Some v \<Rightarrow> (v, True))"

definition Put :: "string \<Rightarrow> string \<Rightarrow> KVStore \<Rightarrow> KVStore" where
  "Put key val s = s\<lparr>data := (data s)(key \<mapsto> val)\<rparr>"

definition Delete :: "string \<Rightarrow> KVStore \<Rightarrow> KVStore" where
  "Delete key s = s\<lparr>data := (data s)(key := None)\<rparr>"

text \<open>\<open>json.Marshal\<close> of a \<open>Command\<close>: an empty value is omitted.\<close>

definition marshal_Command :: "Command \<Rightarrow> bytes" where
  "marshal_Command c =
     json_object ([(''op'', json_string (cmd_Op c)), (''key'', json_string (cmd_Key c))] @
       (if cmd_Value c = [] then [] else [(''value'', json_string (cmd_Value c))]))"

definition set_Command :: "Command \<Rightarrow> bytes \<Rightarrow> jval \<Rightarrow> Command option" where
  "set_Command c k v =
     (if field_match ''op'' k then map_option (\<lambda>s. c\<lparr>cmd_Op := s\<rparr>) (set_string (cmd_Op c) v)
      else if field_match ''key'' k
      then map_option (\<lambda>s. c\<lparr>cmd_Key := s\<rparr>) (set_string (cmd_Key c) v)
      else if field_match ''value'' k
      then map_option (\<lambda>s. c\<lparr>cmd_Value := s\<rparr>) (set_string (cmd_Value c) v)
      else Some c)"

definition unmarshal_Command :: "bytes \<Rightarrow> Command option" where
  "unmarshal_Command = Unmarshal set_Command \<lparr>cmd_Op = [], cmd_Key = [], cmd_Value = []\<rparr>"

datatype apply_error = ErrUnmarshal | ErrUnknownOp string

definition Apply :: "bytes \<Rightarrow> KVStore \<Rightarrow> apply_error + KVStore" where
  "Apply cmdBytes s =
     (case unmarshal_Command cmdBytes of
        None \<Rightarrow> Inl ErrUnmarshal
      | Some cmd \<Rightarrow>
          if cmd_Op cmd = CmdPut then Inr (Put (cmd_Key cmd) (cmd_Value cmd) s)
          else if cmd_Op cmd = CmdDelete then Inr (Delete (cmd_Key cmd) s)
          else Inl (ErrUnknownOp (cmd_Op cmd)))"

text \<open>Marshalling a \<open>Command\<close> never fails, so the error result is left out.\<close>

definition SerializePut :: "string \<Rightarrow> string \<Rightarrow> bytes" where
  "SerializePut key val = marshal_Command \<lparr>cmd_Op = CmdPut, cmd_Key = key, cmd_Value = val\<rparr>"

definition SerializeDelete :: "string \<Rightarrow> bytes" where
  "SerializeDelete key = marshal_Command \<lparr>cmd_Op = CmdDelete, cmd_Key = key, cmd_Value = []\<rparr>"

text \<open>The body of the apply consumer of \<open>cmd/server/main.go\<close>: entries without a command are
  skipped, failures are logged.\<close>

definition consume :: "bytes \<Rightarrow> KVStore \<Rightarrow> KVStore" where
  "consume cmd s = (if cmd = [] then s else case Apply cmd s of Inl _ \<Rightarrow> s | Inr s' \<Rightarrow> s')"

end
