(* ===== verification/Raft_Cluster.thy ===== *)
theory Raft_Cluster
  imports Raft_Replication Kv_Store
begin

text \<open>
  A cluster of nodes and the messages between them. Every event is one locked section of one
  node, so that a run is an arbitrary interleaving of the goroutines of all nodes. Messages
  stay in the network once sent (\<open>net\<close>): delivering one any number of times, late, or never covers
  delay, loss, duplication and reordering by the transport. An event whose guard fails leaves
  the cluster alone; a panic of the node is \<open>None\<close>. Beside its \<open>Node\<close> every server has a key-value
  store that consumes the apply channel (\<open>stores\<close>) and an apply loop, whose progress between
  its locked sections is \<open>applying\<close>.
\<close>

section \<open>State and events\<close>

datatype rpc_kind = Heartbeat | Replicate

text \<open>
  \<open>HbTask\<close> is a heartbeat goroutine that has captured term and commit index and has not yet
  built its request; replies carry what the calling goroutine captured.
\<close>

datatype msg =
  VoteReq (msg_src: NodeID) (msg_dst: NodeID) RequestVoteArgs
| VoteResp (msg_src: NodeID) (msg_dst: NodeID) Term RequestVoteReply
| HbTask (msg_src: NodeID) (msg_dst: NodeID) Term LogIndex
| AppendReq (msg_src: NodeID) (msg_dst: NodeID) rpc_kind AppendEntriesArgs
| AppendResp (msg_src: NodeID) (msg_dst: NodeID) rpc_kind Term "LogEntry list" AppendEntriesReply

record cluster =
  ids :: "NodeID list"
  nodes :: "NodeID \<Rightarrow> Node"
  net :: "msg list"
  applying :: "NodeID \<Rightarrow> (LogEntry list \<times> LogIndex) option"
  stores :: "NodeID \<Rightarrow> KVStore"

datatype event =
  Election NodeID int
| HeartbeatTick NodeID
| ReplicateTick NodeID NodeID
| Deliver nat int
| Submit NodeID bytes
| ApplyBegin NodeID
| ApplySend NodeID
| ApplyFinish NodeID
| ApplyReceive NodeID

definition init_cluster :: "NodeID list \<Rightarrow> (NodeID \<Rightarrow> WAL option) \<Rightarrow> cluster" where
  "init_cluster is w =
     \<lparr>ids = is, nodes = (\<lambda>i. NewNode i (filter (\<lambda>j. j \<noteq> i) is) (w i)), net = [],
      applying = (\<lambda>_. None), stores = (\<lambda>_. NewKVStore)\<rparr>"

definition put_node :: "NodeID \<Rightarrow> Node \<Rightarrow> cluster \<Rightarrow> cluster" where
  "put_node i n c = c\<lparr>nodes := (nodes c)(i := n)\<rparr>"

definition send :: "msg list \<Rightarrow> cluster \<Rightarrow> cluster" where
  "send ms c = c\<lparr>net := net c @ ms\<rparr>"

declare put_node_def [cluster_update] send_def [cluster_update]

section \<open>Steps\<close>

definition deliver :: "msg \<Rightarrow> int \<Rightarrow> cluster \<Rightarrow> cluster option" where
  "deliver m rnd c =
     (case m of
        VoteReq src dst args \<Rightarrow>
          do { (n, reply) \<leftarrow> HandleRequestVote rnd args (nodes c dst);
               Some (send [VoteResp dst src (rv_Term args) reply] (put_node dst n c)) }
      | VoteResp src dst term reply \<Rightarrow>
          Some (put_node dst (handleVoteReply rnd src term reply (nodes c dst)) c)
      | HbTask src dst term commit \<Rightarrow>
          do { args \<leftarrow> heartbeat_build dst term commit (nodes c src);
               Some (send [AppendReq src dst Heartbeat args] c) }
      | AppendReq src dst k args \<Rightarrow>
          do { (n, reply) \<leftarrow> HandleAppendEntries rnd args (nodes c dst);
               Some (send [AppendResp dst src k (ae_Term args) (ae_Entries args) reply]
                       (put_node dst n c)) }
      | AppendResp src dst k term es reply \<Rightarrow>
          do { n \<leftarrow> (case k of Heartbeat \<Rightarrow> heartbeat_reply rnd src term es reply (nodes c dst)
                     | Replicate \<Rightarrow> replicate_reply rnd src term es reply (nodes c dst));
               Some (put_node dst n c) })"

fun exec :: "event \<Rightarrow> cluster \<Rightarrow> cluster option" where
  "exec (Election i rnd) c =
     (if i \<notin> set (ids c) then Some c
      else do { (n, args) \<leftarrow> startElection rnd (nodes c i);
                Some (send (map (\<lambda>p. VoteReq i p args) (peers n)) (put_node i n c)) })"
| "exec (HeartbeatTick i) c =
     (if i \<notin> set (ids c) then Some c
      else case sendHeartbeats (nodes c i) of
        None \<Rightarrow> Some c
      | Some (term, commit) \<Rightarrow>
          Some (send (map (\<lambda>p. HbTask i p term commit) (peers (nodes c i)))
                  (put_node i (rearm_heartbeat (nodes c i)) c)))"
| "exec (ReplicateTick i p) c =
     (if i \<notin> set (ids c) \<or> p \<notin> set (peers (nodes c i)) then Some c
      else do { t \<leftarrow> replicate_tick p (nodes c i);
                Some (case t of TickSend args \<Rightarrow> send [AppendReq i p Replicate args] c | _ \<Rightarrow> c) })"
| "exec (Deliver k rnd) c =
     (if k < length (net c) then deliver (net c ! k) rnd c else Some c)"
| "exec (Submit i cmd) c =
     (if i \<notin> set (ids c) then Some c
      else do { (n, r) \<leftarrow> submit_append cmd (nodes c i); Some (put_node i n c) })"
| "exec (ApplyBegin i) c =
     (if i \<notin> set (ids c) \<or> applying c i \<noteq> None then Some c
      else do { r \<leftarrow> apply_begin (nodes c i); Some (c\<lparr>applying := (applying c)(i := r)\<rparr>) })"
| "exec (ApplySend i) c =
     (if i \<notin> set (ids c) then Some c
      else case applying c i of
        Some (e # es, k) \<Rightarrow>
          (case apply_send e (nodes c i) of
             None \<Rightarrow> Some c
           | Some n \<Rightarrow> Some ((put_node i n c)\<lparr>applying := (applying c)(i := Some (es, k))\<rparr>))
      | _ \<Rightarrow> Some c)"
| "exec (ApplyFinish i) c =
     (if i \<notin> set (ids c) then Some c
      else case applying c i of
        Some ([], k) \<Rightarrow>
          Some ((put_node i (apply_finish k (nodes c i)) c)\<lparr>applying := (applying c)(i := None)\<rparr>)
      | _ \<Rightarrow> Some c)"
| "exec (ApplyReceive i) c =
     (if i \<notin> set (ids c) then Some c
      else case applyCh (nodes c i) of
        [] \<Rightarrow> Some c
      | e # es \<Rightarrow>
          Some ((put_node i ((nodes c i)\<lparr>applyCh := es\<rparr>) c)
            \<lparr>stores := (stores c)(i := consume (le_Command e) (stores c i))\<rparr>))"

fun run_events :: "event list \<Rightarrow> cluster \<Rightarrow> cluster option" where
  "run_events [] c = Some c"
| "run_events (e # es) c = do { c' \<leftarrow> exec e c; run_events es c' }"

text \<open>
  Node identifiers as a configuration gives them: distinct, not empty (the empty string is the
  code's mark for "no vote" and "no leader").
\<close>

definition ids_ok :: "NodeID list \<Rightarrow> bool" where
  "ids_ok is \<longleftrightarrow> distinct is \<and> [] \<notin> set is"

text \<open>No term counter is about to wrap around.\<close>

definition terms_small :: "cluster \<Rightarrow> bool" where
  "terms_small c \<longleftrightarrow> (\<forall>i \<in> set (ids c). currentTerm (nodes c i) < - 1)"

text \<open>The clusters reached from the start through states without a saturated term.\<close>

inductive reachable :: "cluster \<Rightarrow> cluster \<Rightarrow> bool" for c0 where
  start: "reachable c0 c0"
| step: "reachable c0 c \<Longrightarrow> terms_small c \<Longrightarrow> exec e c = Some c' \<Longrightarrow> reachable c0 c'"

text \<open>An executable check that a list of events is such a run.\<close>

fun run_small :: "event list \<Rightarrow> cluster \<Rightarrow> cluster option" where
  "run_small [] c = Some c"
| "run_small (e # es) c = (if terms_small c then do { c' \<leftarrow> exec e c; run_small es c' } else None)"

section \<open>The steps as a relation\<close>

abbreviation net_set :: "cluster \<Rightarrow> msg set" where
  "net_set c \<equiv> set (net c)"

text \<open>The events that change something, one rule for each kind of locked section.\<close>

inductive cstep :: "cluster \<Rightarrow> cluster \<Rightarrow> bool" where
  election:
    "i \<in> set (ids c) \<Longrightarrow> startElection rnd (nodes c i) = Some (n', args) \<Longrightarrow>
     cstep c (send (map (\<lambda>p. VoteReq i p args) (peers n')) (put_node i n' c))"
| heartbeat:
    "i \<in> set (ids c) \<Longrightarrow> sendHeartbeats (nodes c i) = Some (t, k) \<Longrightarrow>
     cstep c (send (map (\<lambda>p. HbTask i p t k) (peers (nodes c i)))
       (put_node i (rearm_heartbeat (nodes c i)) c))"
| build:
    "HbTask src dst t k \<in> net_set c \<Longrightarrow> heartbeat_build dst t k (nodes c src) = Some args \<Longrightarrow>
     cstep c (send [AppendReq src dst Heartbeat args] c)"
| replicate:
    "i \<in> set (ids c) \<Longrightarrow> p \<in> set (peers (nodes c i)) \<Longrightarrow>
     replicate_tick p (nodes c i) = Some (TickSend args) \<Longrightarrow>
     cstep c (send [AppendReq i p Replicate args] c)"
| vote_request:
    "VoteReq src dst args \<in> net_set c \<Longrightarrow>
     HandleRequestVote rnd args (nodes c dst) = Some (n', reply) \<Longrightarrow>
     cstep c (send [VoteResp dst src (rv_Term args) reply] (put_node dst n' c))"
| vote_reply:
    "VoteResp src dst t reply \<in> net_set c \<Longrightarrow>
     cstep c (put_node dst (handleVoteReply rnd src t reply (nodes c dst)) c)"
| append_request:
    "AppendReq src dst k args \<in> net_set c \<Longrightarrow>
     HandleAppendEntries rnd args (nodes c dst) = Some (n', reply) \<Longrightarrow>
     cstep c (send [AppendResp dst src k (ae_Term args) (ae_Entries args) reply] (put_node dst n' c))"
| append_reply:
    "AppendResp src dst k t es reply \<in> net_set c \<Longrightarrow>
     heartbeat_reply rnd src t es reply (nodes c dst) = Some n' \<or>
       replicate_reply rnd src t es reply (nodes c dst) = Some n' \<Longrightarrow>
     cstep c (put_node dst n' c)"
| submit:
    "i \<in> set (ids c) \<Longrightarrow> submit_append cmd (nodes c i) = Some (n', r) \<Longrightarrow> cstep c (put_node i n' c)"
| apply_begin:
    "i \<in> set (ids c) \<Longrightarrow> applying c i = None \<Longrightarrow> apply_begin (nodes c i) = Some r \<Longrightarrow>
     cstep c (c\<lparr>applying := (applying c)(i := r)\<rparr>)"
| apply_send:
    "i \<in> set (ids c) \<Longrightarrow> applying c i = Some (e # es, k) \<Longrightarrow> apply_send e (nodes c i) = Some n' \<Longrightarrow>
     cstep c ((put_node i n' c)\<lparr>applying := (applying c)(i := Some (es, k))\<rparr>)"
| apply_finish:
    "i \<in> set (ids c) \<Longrightarrow> applying c i = Some ([], k) \<Longrightarrow>
     cstep c ((put_node i (apply_finish k (nodes c i)) c)\<lparr>applying := (applying c)(i := None)\<rparr>)"
| apply_receive:
    "i \<in> set (ids c) \<Longrightarrow> applyCh (nodes c i) = e # es \<Longrightarrow>
     cstep c ((put_node i ((nodes c i)\<lparr>applyCh := es\<rparr>) c)
       \<lparr>stores := (stores c)(i := consume (le_Command e) (stores c i))\<rparr>)"

lemma deliver_cstep:
  assumes "m \<in> net_set c" "deliver m rnd c = Some c'"
  shows "cstep c c'"
proof (cases m)
  case (AppendResp src dst k t es reply)
  with assms show ?thesis
    by (cases k) (auto simp: deliver_def bind_eq_Some_conv intro!: cstep.append_reply)
qed (use assms in \<open>auto simp: deliver_def bind_eq_Some_conv intro: cstep.intros\<close>)

lemma exec_cstep:
  assumes "exec e c = Some c'"
  shows "c' = c \<or> cstep c c'"
proof (cases e)
  case (HeartbeatTick i)
  with assms show ?thesis
    by (auto split: if_splits option.splits intro: cstep.heartbeat)
next
  case (ReplicateTick i p)
  show ?thesis
  proof (cases "i \<in> set (ids c) \<and> p \<in> set (peers (nodes c i))")
    case True
    with assms ReplicateTick obtain t where t: "replicate_tick p (nodes c i) = Some t"
      by (auto simp: bind_eq_Some_conv)
    with True assms ReplicateTick show ?thesis by (cases t) (auto intro: cstep.replicate)
  next
    case False
    with assms ReplicateTick show ?thesis by (auto split: if_splits)
  qed
next
  case (Deliver k rnd)
  with assms show ?thesis
    using deliver_cstep [OF nth_mem, of k c rnd c'] by (auto split: if_splits)
next
  case (ApplyBegin i)
  with assms show ?thesis
    by (cases "applying c i")
      (auto simp: bind_eq_Some_conv split: if_splits intro: cstep.apply_begin)
next
  case (ApplySend i)
  with assms show ?thesis
    by (auto split: option.splits list.splits if_splits intro: cstep.apply_send)
next
  case (ApplyFinish i)
  with assms show ?thesis
    by (auto split: option.splits list.splits if_splits intro: cstep.apply_finish)
next
  case (ApplyReceive i)
  with assms show ?thesis by (auto split: list.splits if_splits intro: cstep.apply_receive)
qed (use assms in \<open>auto simp: bind_eq_Some_conv split: if_splits intro: cstep.intros\<close>)

section \<open>Invariants\<close>

text \<open>
  A property of clusters that the start satisfies and every step keeps holds in every reachable
  cluster. Preservation may use that the identifiers are sane and that no term is saturated.
\<close>

lemma cstep_ids: "cstep c c' \<Longrightarrow> ids c' = ids c"
  by (cases rule: cstep.cases) (auto simp: cluster_update)

lemma cstep_net: "cstep c c' \<Longrightarrow> net_set c \<subseteq> net_set c'"
  by (cases rule: cstep.cases) (auto simp: cluster_update)

locale cluster_invariant =
  fixes I :: "cluster \<Rightarrow> bool"
  assumes inv_init: "ids_ok is \<Longrightarrow> I (init_cluster is w)"
    and inv_step: "I c \<Longrightarrow> ids_ok (ids c) \<Longrightarrow> terms_small c \<Longrightarrow> cstep c c' \<Longrightarrow> I c'"
begin

lemma reachable_from:
  assumes "reachable c0 c" and "I c0" and "ids_ok (ids c0)"
  shows "I c \<and> ids c = ids c0"
  using assms
proof (induction rule: reachable.induct)
  case (step c e c')
  then show ?case using exec_cstep [OF step(3)] inv_step [of c c'] cstep_ids [of c c'] by auto
qed simp

lemma reachable_inv:
  assumes "reachable (init_cluster is w) c" and "ids_ok is"
  shows "I c" "ids c = is"
  using reachable_from [OF assms(1) inv_init [OF assms(2)]] assms(2) by (auto simp: init_cluster_def)

end

text \<open>A predicate on the cluster at the end of a run, for evaluating concrete runs.\<close>

definition after :: "event list \<Rightarrow> cluster \<Rightarrow> (cluster \<Rightarrow> bool) \<Rightarrow> bool" where
  "after es c P = (case run_small es c of None \<Rightarrow> False | Some c' \<Rightarrow> P c')"

lemma run_small_reachable: "run_small es c = Some c' \<Longrightarrow> reachable c c'"
proof -
  have "reachable c0 c \<Longrightarrow> run_small es c = Some c' \<Longrightarrow> reachable c0 c'" for c0
    by (induction es arbitrary: c)
      (auto split: if_splits simp: bind_eq_Some_conv intro: reachable.step)
  then show "run_small es c = Some c' \<Longrightarrow> reachable c c'" using reachable.start by blast
qed

lemma run_small_append:
  "run_small (es @ fs) c = do { c' \<leftarrow> run_small es c; run_small fs c' }"
  by (induction es arbitrary: c) (auto simp: bind_eq_Some_conv split: bind_splits)

lemma afterE:
  assumes "after es c P"
  obtains c' where "run_small es c = Some c'" "reachable c c'" "P c'"
  using assms by (auto simp: after_def split: option.splits intro: that run_small_reachable)

end
