(* ===== verification/Quorum_System.thy ===== *)
theory Quorum_System
  imports Raft_Replication
begin

text \<open>
  Majorities. The interface of a quorum system is a locale; the code's two majority formulas
  (\<open>startElection\<close> counting votes, \<open>advanceCommitIndexLocked\<close> counting match indices) both give
  the majorities of the cluster, which interpret it.
\<close>

definition majority_set :: "NodeID list \<Rightarrow> NodeID set \<Rightarrow> bool" where
  "majority_set is Q \<longleftrightarrow> Q \<subseteq> set is \<and> length is div 2 + 1 \<le> card Q"

locale quorum_system =
  fixes members :: "'a set" and quorum :: "'a set \<Rightarrow> bool"
  assumes quorum_members: "quorum Q \<Longrightarrow> Q \<subseteq> members"
    and quorum_meet: "quorum Q \<Longrightarrow> quorum Q' \<Longrightarrow> Q \<inter> Q' \<noteq> {}"
begin

lemma quorum_nonempty: "quorum Q \<Longrightarrow> Q \<noteq> {}"
  using quorum_meet [of Q Q] by simp

lemma common_member:
  assumes "quorum Q" and "quorum Q'"
  obtains v where "v \<in> members" "v \<in> Q" "v \<in> Q'"
  using quorum_meet [OF assms] quorum_members [OF assms(1)] by blast

text \<open>If every member makes at most one choice, at most one value is chosen by a quorum.\<close>

lemma unique_choice:
  assumes "\<And>v x y. chose v x \<Longrightarrow> chose v y \<Longrightarrow> x = y"
    and "quorum Q" "\<forall>v \<in> Q. chose v a" and "quorum Q'" "\<forall>v \<in> Q'. chose v b"
  shows "a = b"
  using assms common_member by metis

end

interpretation majority: quorum_system "set is" "majority_set is" for "is"
proof
  fix Q assume "majority_set is Q"
  then show "Q \<subseteq> set is" by (simp add: majority_set_def)
next
  fix Q Q' assume Q: "majority_set is Q" and Q': "majority_set is Q'"
  show "Q \<inter> Q' \<noteq> {}"
  proof
    assume "Q \<inter> Q' = {}"
    then have "card (Q \<union> Q') = card Q + card Q'"
      using Q Q' by (intro card_Un_disjoint) (auto simp: majority_set_def intro: finite_subset)
    moreover have "card (Q \<union> Q') \<le> card (set is)"
      using Q Q' by (intro card_mono) (auto simp: majority_set_def)
    moreover have "card (set is) \<le> length is" by (rule card_length)
    moreover have "length is div 2 + 1 \<le> card Q" "length is div 2 + 1 \<le> card Q'"
      using Q Q' by (simp_all add: majority_set_def)
    ultimately show False by linarith
  qed
qed

section \<open>The code's majorities\<close>

lemma vote_majority_eq:
  assumes "distinct is" and "i \<in> set is" and "ps = filter (\<lambda>j. j \<noteq> i) is"
  shows "vote_majority ps = int (length is div 2 + 1)"
proof -
  have "length ps = card (set is - {i})"
    using assms(1,3) distinct_card [of ps] by (simp add: set_diff_eq Collect_conj_eq Int_commute)
  then have "length ps + 1 = length is"
    using assms(2) length_pos_if_in_set [OF assms(2)] distinct_card [OF assms(1)] by simp
  then have "go_len ps + 1 = int (length is)" by (simp add: go_len_def)
  then show ?thesis by (simp add: vote_majority_def zdiv_int)
qed

end
