(* ===== verification/Raft_Election.thy ===== *)
theory Raft_Election
  imports Raft_Cluster Quorum_System
begin

text \<open>
  Election safety: at most one leader per term, over the whole run of a cluster. The votes
  given so far are read off the messages in the network, so the invariant needs no history
  variables: a vote is a granted reply, or the request of a candidate (which has voted for
  itself).
\<close>

section \<open>Votes and winners\<close>

definition is_grant :: "NodeID \<Rightarrow> Term \<Rightarrow> NodeID \<Rightarrow> msg \<Rightarrow> bool" where
  "is_grant v t x m \<longleftrightarrow> (\<exists>r. m = VoteResp v x t r \<and> rvr_VoteGranted r)"

definition is_candidacy :: "NodeID \<Rightarrow> Term \<Rightarrow> msg \<Rightarrow> bool" where
  "is_candidacy v t m \<longleftrightarrow> (\<exists>p a. m = VoteReq v p a \<and> rv_Term a = t)"

definition voted :: "msg set \<Rightarrow> NodeID \<Rightarrow> Term \<Rightarrow> NodeID \<Rightarrow> bool" where
  "voted M v t x \<longleftrightarrow> (\<exists>m \<in> M. is_grant v t x m \<or> x = v \<and> is_candidacy v t m)"

definition wins :: "NodeID list \<Rightarrow> msg set \<Rightarrow> Term \<Rightarrow> NodeID \<Rightarrow> bool" where
  "wins is M t x \<longleftrightarrow> (\<exists>Q. majority_set is Q \<and> (\<forall>v \<in> Q. voted M v t x))"

definition is_vote_msg :: "msg \<Rightarrow> bool" where
  "is_vote_msg m \<longleftrightarrow> (case m of VoteReq _ _ _ \<Rightarrow> True | VoteResp _ _ _ _ \<Rightarrow> True | _ \<Rightarrow> False)"

section \<open>The invariant\<close>

definition topology_inv :: "cluster \<Rightarrow> bool" where
  "topology_inv c \<longleftrightarrow>
     (\<forall>i. node_id (nodes c i) = i \<and> peers (nodes c i) = filter (\<lambda>j. j \<noteq> i) (ids c)) \<and>
     (\<forall>m \<in> net_set c. msg_src m \<in> set (ids c) \<and> msg_dst m \<in> set (ids c) \<and> msg_src m \<noteq> msg_dst m)"

text \<open>A reply answers a request; a request names its sender.\<close>

definition request_inv :: "cluster \<Rightarrow> bool" where
  "request_inv c \<longleftrightarrow>
     (\<forall>i p a. VoteReq i p a \<in> net_set c \<longrightarrow> rv_CandidateID a = i) \<and>
     (\<forall>v i t r. VoteResp v i t r \<in> net_set c \<longrightarrow>
        (\<exists>a. VoteReq i v a \<in> net_set c \<and> rv_Term a = t))"

text \<open>A vote cast in the voter's current term is the one recorded in \<open>votedFor\<close>.\<close>

definition vote_inv :: "cluster \<Rightarrow> bool" where
  "vote_inv c \<longleftrightarrow>
     (\<forall>v t x. voted (net_set c) v t x \<longrightarrow>
        t < currentTerm (nodes c v) \<or> t = currentTerm (nodes c v) \<and> votedFor (nodes c v) = x)"

definition unique_inv :: "cluster \<Rightarrow> bool" where
  "unique_inv c \<longleftrightarrow> (\<forall>v t x y. voted (net_set c) v t x \<longrightarrow> voted (net_set c) v t y \<longrightarrow> x = y)"

definition supporters :: "Node \<Rightarrow> NodeID set" where
  "supporters n = {p. votesReceived n p = Some True}"

text \<open>What a candidate has counted are votes given to it in its current term.\<close>

definition count_ok :: "msg set \<Rightarrow> NodeID list \<Rightarrow> Node \<Rightarrow> bool" where
  "count_ok M is n \<longleftrightarrow>
     votedFor n = node_id n \<and> finite (supporters n) \<and> votes n = int (card (supporters n)) \<and>
     supporters n \<subseteq> set is \<and>
     (\<forall>p \<in> supporters n. p = node_id n \<or> (\<exists>m \<in> M. is_grant p (currentTerm n) (node_id n) m))"

definition count_inv :: "cluster \<Rightarrow> bool" where
  "count_inv c \<longleftrightarrow>
     (\<forall>i \<in> set (ids c). state (nodes c i) \<noteq> Follower \<longrightarrow> count_ok (net_set c) (ids c) (nodes c i))"

definition leader_inv :: "cluster \<Rightarrow> bool" where
  "leader_inv c \<longleftrightarrow>
     (\<forall>i \<in> set (ids c). state (nodes c i) = Leader \<longrightarrow>
        wins (ids c) (net_set c) (currentTerm (nodes c i)) i)"

definition election_inv :: "cluster \<Rightarrow> bool" where
  "election_inv c \<longleftrightarrow> topology_inv c \<and> request_inv c \<and> vote_inv c \<and> unique_inv c \<and> count_inv c \<and>
     leader_inv c"

section \<open>Monotonicity\<close>

lemma voted_mono: "M \<subseteq> M' \<Longrightarrow> voted M v t x \<Longrightarrow> voted M' v t x"
  by (auto simp: voted_def)

lemma wins_mono: "M \<subseteq> M' \<Longrightarrow> wins is M t x \<Longrightarrow> wins is M' t x"
  unfolding wins_def by (meson voted_mono)

lemma count_ok_mono: "M \<subseteq> M' \<Longrightarrow> count_ok M is n \<Longrightarrow> count_ok M' is n"
  unfolding count_ok_def by blast

lemma voted_no_vote_msgs:
  assumes "\<forall>m \<in> set ms. \<not> is_vote_msg m"
  shows "voted (M \<union> set ms) v t x \<longleftrightarrow> voted M v t x"
proof -
  have "\<not> is_grant v t x m \<and> \<not> is_candidacy v t m" if "m \<in> set ms" for m
    using assms that by (auto simp: is_grant_def is_candidacy_def is_vote_msg_def)
  then show ?thesis unfolding voted_def by blast
qed

text \<open>Two winners of the same term are the same node.\<close>

lemma wins_unique:
  assumes "unique_inv c" and "wins is (net_set c) t x" and "wins is (net_set c) t y"
  shows "x = y"
proof -
  from assms(2,3) obtain Q Q' where
    "majority_set is Q" "\<forall>v \<in> Q. voted (net_set c) v t x"
    "majority_set is Q'" "\<forall>v \<in> Q'. voted (net_set c) v t y"
    by (auto simp: wins_def)
  then show ?thesis
    using assms(1) by (intro majority.unique_choice [of "\<lambda>v. voted (net_set c) v t" "is" Q x Q' y])
      (simp_all add: unique_inv_def)
qed

section \<open>Steps that cast no vote\<close>

text \<open>
  A node that only steps down: the role is \<open>Follower\<close> afterwards and the vote is kept unless the
  term grows.
\<close>

definition steps_down :: "Node \<Rightarrow> Node \<Rightarrow> bool" where
  "steps_down n n' \<longleftrightarrow> state n' = Follower \<and>
     (currentTerm n' = currentTerm n \<and> votedFor n' = votedFor n \<or> currentTerm n' > currentTerm n)"

definition same_election :: "Node \<Rightarrow> Node \<Rightarrow> bool" where
  "same_election n n' \<longleftrightarrow> currentTerm n' = currentTerm n \<and> votedFor n' = votedFor n \<and>
     state n' = state n \<and> votes n' = votes n \<and> votesReceived n' = votesReceived n"

lemma count_ok_cong:
  "same_election n n' \<Longrightarrow> node_id n' = node_id n \<Longrightarrow> count_ok M is n' = count_ok M is n"
  by (simp add: count_ok_def supporters_def same_election_def)

text \<open>One node changes, some messages are sent.\<close>

definition local_step :: "NodeID \<Rightarrow> Node \<Rightarrow> msg list \<Rightarrow> cluster \<Rightarrow> cluster \<Rightarrow> bool" where
  "local_step i n' ms c c' \<longleftrightarrow>
     ids c' = ids c \<and> nodes c' = (nodes c)(i := n') \<and> net_set c' = net_set c \<union> set ms \<and>
     node_id n' = node_id (nodes c i) \<and> peers n' = peers (nodes c i) \<and>
     (\<forall>m \<in> set ms. msg_src m \<in> set (ids c) \<and> msg_dst m \<in> set (ids c) \<and> msg_src m \<noteq> msg_dst m)"

lemma local_step_topology: "local_step i n' ms c c' \<Longrightarrow> topology_inv c \<Longrightarrow> topology_inv c'"
  unfolding local_step_def topology_inv_def by auto

lemma quiet_step:
  assumes inv: "election_inv c" and ls: "local_step i n' ms c c'"
    and quiet: "\<forall>m \<in> set ms. \<not> is_vote_msg m"
    and ch: "same_election (nodes c i) n' \<or> steps_down (nodes c i) n'"
  shows "election_inv c'"
proof -
  note ls' = ls [unfolded local_step_def]
  have net: "net_set c' = net_set c \<union> set ms" and nd: "nodes c' = (nodes c)(i := n')"
    and ids: "ids c' = ids c" using ls' by auto
  have v: "voted (net_set c') v t x \<longleftrightarrow> voted (net_set c) v t x" for v t x
    using quiet by (simp add: net voted_no_vote_msgs)
  have "topology_inv c'" using local_step_topology [OF ls] inv by (simp add: election_inv_def)
  moreover have "request_inv c'"
  proof -
    have "VoteReq j p a \<in> net_set c' \<longleftrightarrow> VoteReq j p a \<in> net_set c"
      "VoteResp w j t r \<in> net_set c' \<longleftrightarrow> VoteResp w j t r \<in> net_set c" for j p a w t r
      using quiet net by (auto simp: is_vote_msg_def)
    then show ?thesis using inv by (simp add: election_inv_def request_inv_def)
  qed
  moreover have "vote_inv c'"
    unfolding vote_inv_def
  proof (intro allI impI)
    fix w t x assume "voted (net_set c') w t x"
    then have "t < currentTerm (nodes c w) \<or> t = currentTerm (nodes c w) \<and> votedFor (nodes c w) = x"
      using inv v unfolding election_inv_def vote_inv_def by blast
    then show "t < currentTerm (nodes c' w) \<or>
        t = currentTerm (nodes c' w) \<and> votedFor (nodes c' w) = x"
      using ch by (cases "w = i") (auto simp: nd same_election_def steps_down_def)
  qed
  moreover have "unique_inv c'"
    using inv unfolding election_inv_def unique_inv_def v by blast
  moreover have "count_inv c'"
  proof -
    have "count_ok (net_set c') (ids c) (nodes c' j)"
      if "j \<in> set (ids c)" "state (nodes c' j) \<noteq> Follower" for j
    proof -
      have "state (nodes c j) \<noteq> Follower"
        using that ch by (cases "j = i") (auto simp: nd same_election_def steps_down_def)
      then have "count_ok (net_set c) (ids c) (nodes c j)"
        using inv that(1) by (auto simp: election_inv_def count_inv_def)
      moreover have "j = i \<Longrightarrow> same_election (nodes c i) n' \<and> node_id n' = node_id (nodes c i)"
        using that(2) ch ls' by (auto simp: nd steps_down_def)
      ultimately have "count_ok (net_set c) (ids c) (nodes c' j)"
        by (cases "j = i") (auto simp: nd count_ok_cong)
      then show ?thesis by (rule count_ok_mono [rotated]) (simp add: net)
    qed
    then show ?thesis by (simp add: count_inv_def ids)
  qed
  moreover have "leader_inv c'"
  proof -
    have "wins (ids c) (net_set c') (currentTerm (nodes c' j)) j"
      if "j \<in> set (ids c)" "state (nodes c' j) = Leader" for j
    proof -
      have "state (nodes c j) = Leader \<and> currentTerm (nodes c' j) = currentTerm (nodes c j)"
        using that ch by (cases "j = i") (auto simp: nd same_election_def steps_down_def)
      then have "wins (ids c) (net_set c) (currentTerm (nodes c' j)) j"
        using inv that(1) by (auto simp: election_inv_def leader_inv_def)
      then show ?thesis by (rule wins_mono [rotated]) (simp add: net)
    qed
    then show ?thesis by (simp add: leader_inv_def ids)
  qed
  ultimately show ?thesis by (simp add: election_inv_def)
qed

section \<open>Steps that cast a vote\<close>

lemma voted_Un: "voted (A \<union> B) v t x \<longleftrightarrow> voted A v t x \<or> voted B v t x"
  by (auto simp: voted_def)

lemma voted_ids:
  assumes "topology_inv c" and "voted (net_set c) v t x"
  shows "v \<in> set (ids c)" "x \<in> set (ids c)"
proof -
  from assms(2) obtain m where m: "m \<in> net_set c" "msg_src m = v" "msg_dst m = x \<or> x = v"
    by (auto simp: voted_def is_grant_def is_candidacy_def)
  with assms(1) show "v \<in> set (ids c)" "x \<in> set (ids c)" by (auto simp: topology_inv_def)
qed

text \<open>A node casts at most the vote that it records, in a term in which it had not voted otherwise.\<close>

lemma cast_step:
  assumes inv: "election_inv c" "ids_ok (ids c)" and ls: "local_step i n' ms c c'"
    and new: "\<And>v t x. voted (set ms) v t x \<Longrightarrow> v = i \<and> t = currentTerm n' \<and> x = votedFor n'"
    and grow: "currentTerm n' > currentTerm (nodes c i) \<or>
      currentTerm n' = currentTerm (nodes c i) \<and>
        (votedFor n' = votedFor (nodes c i) \<or> votedFor (nodes c i) = [])"
  shows "vote_inv c'" "unique_inv c'"
proof -
  have net: "net_set c' = net_set c \<union> set ms" and nd: "nodes c' = (nodes c)(i := n')"
    using ls by (auto simp: local_step_def)
  have old: "t < currentTerm (nodes c w) \<or> t = currentTerm (nodes c w) \<and> votedFor (nodes c w) = x"
    "x \<noteq> []" if "voted (net_set c) w t x" for w t x
    using inv that voted_ids [of c w t x]
    by (auto simp: election_inv_def vote_inv_def ids_ok_def)
  have old': "t < currentTerm n' \<or> t = currentTerm n' \<and> votedFor n' = x"
    if "voted (net_set c) i t x" for t x
    using old [OF that] grow by auto
  show "vote_inv c'"
    unfolding vote_inv_def net voted_Un nd using old old' new by auto
  show "unique_inv c'"
    unfolding unique_inv_def net voted_Un
  proof (intro allI impI)
    fix w t x y
    assume x: "voted (net_set c) w t x \<or> voted (set ms) w t x"
      and y: "voted (net_set c) w t y \<or> voted (set ms) w t y"
    show "x = y"
    proof (cases "voted (net_set c) w t x \<and> voted (net_set c) w t y")
      case True
      then show ?thesis using inv(1) unfolding election_inv_def unique_inv_def by blast
    next
      case False
      with x y have "voted (set ms) w t x \<or> voted (set ms) w t y" by blast
      then have "w = i" "t = currentTerm n'" using new by blast+
      with x y show ?thesis using old' new by blast
    qed
  qed
qed

text \<open>What concerns one node: its own counting and, for a leader, its quorum.\<close>

definition node_elect_ok :: "msg set \<Rightarrow> NodeID list \<Rightarrow> Node \<Rightarrow> bool" where
  "node_elect_ok M is n \<longleftrightarrow>
     (state n \<noteq> Follower \<longrightarrow> count_ok M is n) \<and>
     (state n = Leader \<longrightarrow> wins is M (currentTerm n) (node_id n))"

lemma node_elect_ok_mono: "M \<subseteq> M' \<Longrightarrow> node_elect_ok M is n \<Longrightarrow> node_elect_ok M' is n"
  unfolding node_elect_ok_def using count_ok_mono wins_mono by metis

lemma election_inv_iff:
  "election_inv c \<longleftrightarrow> topology_inv c \<and> request_inv c \<and> vote_inv c \<and> unique_inv c \<and>
     (\<forall>i \<in> set (ids c). node_elect_ok (net_set c) (ids c) (nodes c i))"
  unfolding election_inv_def count_inv_def leader_inv_def node_elect_ok_def topology_inv_def
  by auto

lemma election_inv_step:
  assumes inv: "election_inv c" "ids_ok (ids c)" and ls: "local_step i n' ms c c'"
    and req: "request_inv c'"
    and new: "\<And>v t x. voted (set ms) v t x \<Longrightarrow> v = i \<and> t = currentTerm n' \<and> x = votedFor n'"
    and grow: "currentTerm n' > currentTerm (nodes c i) \<or>
      currentTerm n' = currentTerm (nodes c i) \<and>
        (votedFor n' = votedFor (nodes c i) \<or> votedFor (nodes c i) = [])"
    and ok: "i \<in> set (ids c) \<Longrightarrow> node_elect_ok (net_set c') (ids c) n'"
  shows "election_inv c'"
proof -
  have net: "net_set c \<subseteq> net_set c'" and nd: "nodes c' = (nodes c)(i := n')"
    and ids: "ids c' = ids c" using ls by (auto simp: local_step_def)
  have "node_elect_ok (net_set c') (ids c') (nodes c' j)" if "j \<in> set (ids c')" for j
    using that ok inv(1) node_elect_ok_mono [OF net]
    by (cases "j = i") (auto simp: nd ids election_inv_iff)
  then show ?thesis
    using local_step_topology [OF ls] inv(1) req cast_step [OF inv ls new grow]
    by (auto simp: election_inv_iff)
qed

lemma request_inv_extend:
  assumes "request_inv c" "local_step i n' ms c c'"
    and "\<And>j p a. VoteReq j p a \<in> set ms \<Longrightarrow> rv_CandidateID a = j"
    and "\<And>v j t r. VoteResp v j t r \<in> set ms \<Longrightarrow> \<exists>a. VoteReq j v a \<in> net_set c \<and> rv_Term a = t"
  shows "request_inv c'"
  using assms unfolding request_inv_def local_step_def by (metis Un_iff)

subsection \<open>Starting an election\<close>

lemma election_event_inv:
  assumes inv: "election_inv c" "ids_ok (ids c)" and i: "i \<in> set (ids c)"
    and small: "currentTerm (nodes c i) < - 1"
    and se: "startElection rnd (nodes c i) = Some (n', args)"
    and c': "c' = send (map (\<lambda>p. VoteReq i p args) (peers n')) (put_node i n' c)"
  shows "election_inv c'"
proof -
  note f = startElection_Some [OF se]
  have id: "node_id (nodes c i) = i" "peers (nodes c i) = filter (\<lambda>j. j \<noteq> i) (ids c)"
    using inv(1) by (auto simp: election_inv_def topology_inv_def)
  let ?ms = "map (\<lambda>p. VoteReq i p args) (peers n')"
  have ls: "local_step i n' ?ms c c'"
    using i by (auto simp: c' local_step_def cluster_update f id)
  have grow: "currentTerm n' > currentTerm (nodes c i)"
    unfolding f using small by (rule word_less_Suc)
  show ?thesis
  proof (rule election_inv_step [OF inv ls])
    show "request_inv c'"
      by (rule request_inv_extend [OF _ ls]) (use inv(1) in \<open>auto simp: election_inv_def f id\<close>)
    show "v = i \<and> t = currentTerm n' \<and> x = votedFor n'" if "voted (set ?ms) v t x" for v t x
      using that id by (auto simp: voted_def is_grant_def is_candidacy_def f)
    show "currentTerm n' > currentTerm (nodes c i) \<or>
      currentTerm n' = currentTerm (nodes c i) \<and>
        (votedFor n' = votedFor (nodes c i) \<or> votedFor (nodes c i) = [])"
      using grow by simp
    have "supporters n' = {i}" by (auto simp: supporters_def f id)
    then show "node_elect_ok (net_set c') (ids c) n'"
      using i by (simp add: node_elect_ok_def count_ok_def f id)
  qed
qed

subsection \<open>Answering a vote request\<close>

lemma vote_request_inv:
  assumes inv: "election_inv c" "ids_ok (ids c)" and m: "VoteReq src dst args \<in> net_set c"
    and h: "HandleRequestVote rnd args (nodes c dst) = Some (n', reply)"
    and c': "c' = send [VoteResp dst src (rv_Term args) reply] (put_node dst n' c)"
  shows "election_inv c'"
proof -
  note f = HandleRequestVote_frame [OF h]
  let ?n = "nodes c dst"
  have top: "node_id ?n = dst" "src \<in> set (ids c)" "dst \<in> set (ids c)" "src \<noteq> dst"
    using inv(1) m by (auto simp: election_inv_def topology_inv_def
        dest!: bspec [where x = "VoteReq src dst args"])
  have cand: "rv_CandidateID args = src"
    using inv(1) m by (auto simp: election_inv_def request_inv_def)
  have ls: "local_step dst n' [VoteResp dst src (rv_Term args) reply] c c'"
    using top by (auto simp: c' local_step_def cluster_update f)
  have own: "state ?n \<noteq> Follower \<Longrightarrow> votedFor ?n = dst"
    using inv(1) top by (auto simp: election_inv_def count_inv_def count_ok_def)
  have dst0: "dst \<noteq> []" using inv(2) top by (auto simp: ids_ok_def)
  have grant: "currentTerm n' = rv_Term args" "votedFor n' = src"
    "rv_Term args = currentTerm ?n \<Longrightarrow> votedFor ?n = [] \<or> votedFor ?n = src"
    if "rvr_VoteGranted reply"
    using HandleRequestVote_grant [OF h that] cand by auto
  have keep: "same_election ?n n'" if "\<not> rv_Term args > currentTerm ?n" "state ?n \<noteq> Follower"
  proof -
    have "\<not> rvr_VoteGranted reply"
      using that own grant top dst0 by (auto simp: f max_def split: if_splits)
    then show ?thesis
      using that HandleRequestVote_deny [OF h] by (auto simp: same_election_def f max_def)
  qed
  show ?thesis
  proof (rule election_inv_step [OF inv ls])
    show "request_inv c'"
      by (rule request_inv_extend [OF _ ls]) (use inv(1) m in \<open>auto simp: election_inv_def\<close>)
    show "v = dst \<and> t = currentTerm n' \<and> x = votedFor n'"
      if "voted (set [VoteResp dst src (rv_Term args) reply]) v t x" for v t x
      using that grant by (auto simp: voted_def is_grant_def is_candidacy_def)
    show "currentTerm n' > currentTerm ?n \<or> currentTerm n' = currentTerm ?n \<and>
        (votedFor n' = votedFor ?n \<or> votedFor ?n = [])"
      using grant HandleRequestVote_deny [OF h]
      by (cases "rvr_VoteGranted reply") (auto simp: f max_def split: if_splits)
    show "node_elect_ok (net_set c') (ids c) n'"
    proof (cases "rv_Term args > currentTerm ?n \<or> state ?n = Follower")
      case True
      then have "state n' = Follower" by (auto simp: f)
      then show ?thesis by (simp add: node_elect_ok_def)
    next
      case False
      then have same: "same_election ?n n'" using keep by blast
      have "node_elect_ok (net_set c) (ids c) n' = node_elect_ok (net_set c) (ids c) ?n"
        using same count_ok_cong [OF same] by (simp add: node_elect_ok_def same_election_def f)
      then show ?thesis
        using inv(1) top ls by (auto simp: election_inv_iff local_step_def intro: node_elect_ok_mono)
    qed
  qed
qed

subsection \<open>Counting a vote\<close>

lemma supporters_upd:
  "supporters (n\<lparr>votesReceived := (votesReceived n)(p \<mapsto> True), votes := k\<rparr>) =
     insert p (supporters n)"
  by (auto simp: supporters_def)

lemma count_ok_insert:
  assumes "count_ok M is n" "p \<in> set is" "\<not> go_get False (votesReceived n) p"
    and "m \<in> M" "is_grant p (currentTerm n) (node_id n) m"
  shows "count_ok M is (n\<lparr>votesReceived := (votesReceived n)(p \<mapsto> True), votes := votes n + 1\<rparr>)"
proof -
  have "p \<notin> supporters n" using assms(3) by (auto simp: supporters_def go_get_def)
  with assms show ?thesis unfolding count_ok_def supporters_upd by auto
qed

lemma vote_reply_inv:
  assumes inv: "election_inv c" "ids_ok (ids c)" and m: "VoteResp src dst t reply \<in> net_set c"
    and c': "c' = put_node dst (handleVoteReply rnd src t reply (nodes c dst)) c"
  shows "election_inv c'"
proof -
  let ?n = "nodes c dst"
  let ?n' = "handleVoteReply rnd src t reply ?n"
  let ?n1 = "?n\<lparr>votesReceived := (votesReceived ?n)(src \<mapsto> True), votes := votes ?n + 1\<rparr>"
  have top: "node_id ?n = dst" "peers ?n = filter (\<lambda>j. j \<noteq> dst) (ids c)"
    "src \<in> set (ids c)" "dst \<in> set (ids c)"
    using inv(1) m by (auto simp: election_inv_def topology_inv_def
        dest!: bspec [where x = "VoteResp src dst t reply"])
  have ls: "local_step dst ?n' [] c c'" if "node_id ?n' = node_id ?n" "peers ?n' = peers ?n"
    using that by (auto simp: c' local_step_def put_node_def)
  have ok: "node_elect_ok (net_set c) (ids c) ?n" using inv(1) top by (auto simp: election_inv_iff)
  have cand: "voted (net_set c) dst t dst"
  proof -
    obtain a where "VoteReq dst src a \<in> net_set c" "rv_Term a = t"
      using inv(1) m unfolding election_inv_def request_inv_def by blast
    then show ?thesis by (auto simp: voted_def is_candidacy_def)
  qed
  have counted: "count_ok (net_set c) (ids c) ?n1"
    if "state ?n = Candidate" "currentTerm ?n = t" "rvr_VoteGranted reply"
      "\<not> go_get False (votesReceived ?n) src"
    using ok that top m
    by (intro count_ok_insert [where m = "VoteResp src dst t reply"])
      (auto simp: node_elect_ok_def is_grant_def)
  have net: "net_set c' = net_set c" by (simp add: c' put_node_def)
  show ?thesis
  proof (cases rule: handleVoteReply_cases [of rnd src t reply ?n])
    case same
    then have "c' = c" by (simp add: c' put_node_def)
    with inv show ?thesis by simp
  next
    case down
    then show ?thesis
      by (intro quiet_step [OF inv(1) ls]) (auto simp: steps_down_def max_def)
  next
    case count
    then show ?thesis
      using counted inv(1)
      by (intro election_inv_step [OF inv ls])
        (auto simp: c' put_node_def election_inv_def request_inv_def voted_def node_elect_ok_def)
  next
    case win
    have "wins (ids c) (net_set c) t dst"
      unfolding wins_def
    proof (intro exI conjI ballI)
      have c1: "count_ok (net_set c) (ids c) ?n1" using counted win by blast
      show "majority_set (ids c) (supporters ?n1)"
        using c1 win(6) vote_majority_eq [of "ids c" dst "peers ?n"] inv(2) top
        by (auto simp: majority_set_def count_ok_def ids_ok_def)
      fix v assume "v \<in> supporters ?n1"
      then show "voted (net_set c) v t dst"
        using c1 cand win(3) top(1) by (auto simp: count_ok_def voted_def)
    qed
    then have "node_elect_ok (net_set c) (ids c) ?n'"
      using win counted
      by (auto simp: node_elect_ok_def count_ok_def supporters_def top)
    then show ?thesis
      using win inv(1)
      by (intro election_inv_step [OF inv ls])
        (auto simp: c' put_node_def election_inv_def request_inv_def voted_def)
  qed
qed

subsection \<open>Every event\<close>

lemma append_request_inv:
  assumes inv: "election_inv c" and m: "AppendReq src dst k args \<in> net_set c"
    and h: "HandleAppendEntries rnd args (nodes c dst) = Some (n', reply)"
    and c': "c' = send [AppendResp dst src k (ae_Term args) (ae_Entries args) reply]
      (put_node dst n' c)"
  shows "election_inv c'"
proof -
  have top: "src \<in> set (ids c)" "dst \<in> set (ids c)" "src \<noteq> dst"
    using inv(1) m by (auto simp: election_inv_def topology_inv_def
        dest!: bspec [where x = "AppendReq src dst k args"])
  note f = HandleAppendEntries_frame [OF h]
  have ls: "local_step dst n' [AppendResp dst src k (ae_Term args) (ae_Entries args) reply] c c'"
    using top by (auto simp: c' local_step_def cluster_update f)
  have "same_election (nodes c dst) n' \<or> steps_down (nodes c dst) n'"
  proof (cases "ae_Term args < currentTerm (nodes c dst)")
    case True
    then have "n' = nodes c dst" using h by (auto simp: HandleAppendEntries_def)
    then show ?thesis by (simp add: same_election_def)
  next
    case False
    then show ?thesis by (auto simp: steps_down_def f max_def)
  qed
  then show ?thesis by (intro quiet_step [OF inv ls]) (simp_all add: is_vote_msg_def)
qed

lemma append_reply_inv:
  assumes inv: "election_inv c"
    and h: "heartbeat_reply rnd src t es reply (nodes c dst) = Some n' \<or>
      replicate_reply rnd src t es reply (nodes c dst) = Some n'"
  shows "election_inv (put_node dst n' c)"
proof -
  let ?n = "nodes c dst"
  have "node_id n' = node_id ?n \<and> peers n' = peers ?n \<and> (same_election ?n n' \<or> steps_down ?n n')"
    using h
  proof (cases rule: append_reply_cases)
    case down
    then show ?thesis by (auto simp: steps_down_def max_def)
  next
    case match
    then show ?thesis by (simp add: same_election_def advanceCommit_frame [OF match(6)])
  next
    case conflict
    then show ?thesis by (simp add: same_election_def handleConflict_frame [OF conflict(5)])
  qed (simp add: same_election_def)
  then show ?thesis
    by (intro quiet_step [OF inv, of dst n' "[]"]) (auto simp: local_step_def put_node_def)
qed

text \<open>A change of a node outside its election state, with messages that are no votes.\<close>

lemma inert_step:
  assumes "election_inv c" and "ids c' = ids c" "nodes c' = (nodes c)(i := n')"
    "net c' = net c @ ms" "\<forall>m \<in> set ms. \<not> is_vote_msg m \<and> msg_src m \<in> set (ids c) \<and>
      msg_dst m \<in> set (ids c) \<and> msg_src m \<noteq> msg_dst m"
    and "node_id n' = node_id (nodes c i)" "peers n' = peers (nodes c i)"
    and "same_election (nodes c i) n'"
  shows "election_inv c'"
  by (rule quiet_step [OF assms(1), of i n' ms]) (use assms in \<open>simp_all add: local_step_def\<close>)

lemma cstep_election_inv:
  assumes inv: "election_inv c" "ids_ok (ids c)" and small: "terms_small c" and st: "cstep c c'"
  shows "election_inv c'"
proof -
  have top: "m \<in> net_set c \<Longrightarrow> msg_src m \<in> set (ids c) \<and> msg_dst m \<in> set (ids c) \<and>
      msg_src m \<noteq> msg_dst m" "peers (nodes c i) = filter (\<lambda>j. j \<noteq> i) (ids c)" for m i
    using inv(1) by (auto simp: election_inv_def topology_inv_def)
  note inert = inert_step [OF inv(1)]
  from st show ?thesis
  proof (cases rule: cstep.cases)
    case (election i rnd n' args)
    then show ?thesis
      using small by (auto simp: terms_small_def intro: election_event_inv [OF inv])
  next
    case (heartbeat i t k)
    then show ?thesis
      by (intro inert [where i = i and n' = "rearm_heartbeat (nodes c i)"])
        (auto simp: cluster_update top is_vote_msg_def same_election_def rearm_heartbeat_def
          split: option.splits)
  next
    case (build src dst t k args)
    then show ?thesis
      using top(1) [OF build(2)]
      by (intro inert [where i = src and n' = "nodes c src"])
        (auto simp: send_def is_vote_msg_def same_election_def)
  next
    case (replicate i p args)
    then show ?thesis
      by (intro inert [where i = i and n' = "nodes c i"])
        (auto simp: send_def is_vote_msg_def same_election_def top)
  next
    case (vote_request src dst args rnd n' reply)
    then show ?thesis by (auto intro: vote_request_inv [OF inv])
  next
    case (vote_reply src dst t reply rnd)
    then show ?thesis by (auto intro: vote_reply_inv [OF inv])
  next
    case (append_request src dst k args rnd n' reply)
    then show ?thesis by (auto intro: append_request_inv [OF inv(1)])
  next
    case (append_reply src dst k t es reply rnd n')
    then show ?thesis by (auto intro: append_reply_inv [OF inv(1)])
  next
    case (submit i cmd n' r)
    from submit(3) show ?thesis
      by (cases rule: submit_append_cases)
        (auto simp: submit(1) put_node_def same_election_def
          intro!: inert [where i = i and n' = n' and ms = "[]"])
  next
    case (apply_begin i r)
    then show ?thesis
      by (intro inert [where i = i and n' = "nodes c i" and ms = "[]"])
        (auto simp: same_election_def)
  next
    case (apply_send i e es k n')
    then show ?thesis
      by (intro inert [where i = i and n' = n' and ms = "[]"])
        (auto simp: same_election_def put_node_def apply_send_def split: if_splits)
  next
    case (apply_finish i k)
    then show ?thesis
      by (intro inert [where i = i and n' = "Raft_Replication.apply_finish k (nodes c i)" and ms = "[]"])
        (auto simp: same_election_def put_node_def apply_finish_def)
  next
    case (apply_receive i e es)
    then show ?thesis
      by (intro inert [where i = i and n' = "(nodes c i)\<lparr>applyCh := es\<rparr>" and ms = "[]"])
        (auto simp: same_election_def put_node_def)
  qed
qed

lemma init_election_inv: "election_inv (init_cluster is w)"
  by (auto simp: election_inv_def topology_inv_def request_inv_def vote_inv_def unique_inv_def
      count_inv_def leader_inv_def voted_def init_cluster_def NewNode_def)

interpretation elections: cluster_invariant election_inv
  by unfold_locales (auto intro: init_election_inv cstep_election_inv)

section \<open>Election safety\<close>

text \<open>The network only grows along a run.\<close>

lemma reachable_net: "reachable c c' \<Longrightarrow> net_set c \<subseteq> net_set c'"
  by (induction rule: reachable.induct) (auto dest!: exec_cstep cstep_net)

lemma reachable_trans: "reachable c1 c2 \<Longrightarrow> reachable c0 c1 \<Longrightarrow> reachable c0 c2"
  by (induction rule: reachable.induct) (auto intro: reachable.step)

lemma leader_wins:
  assumes "ids_ok is" and "reachable (init_cluster is w) c" and "i \<in> set is"
    and "state (nodes c i) = Leader"
  shows "wins is (net_set c) (currentTerm (nodes c i)) i"
  using elections.reachable_inv [OF assms(2,1)] assms(3,4)
  by (auto simp: election_inv_def leader_inv_def)

text \<open>
  C5. Election safety. Along every run of a cluster, whatever the interleaving of the nodes'
  goroutines and whatever the network delays, loses, duplicates or reorders: if node \<open>i\<close> is
  leader in some term at one moment and node \<open>j\<close> is leader in the same term at the same or any
  later moment, then they are the same node.
\<close>

theorem election_safety:
  assumes "ids_ok is"
    and "reachable (init_cluster is w) c1" and "reachable c1 c2"
    and "i \<in> set is" and "j \<in> set is"
    and "state (nodes c1 i) = Leader" and "state (nodes c2 j) = Leader"
    and "currentTerm (nodes c1 i) = currentTerm (nodes c2 j)"
  shows "i = j"
proof -
  have r2: "reachable (init_cluster is w) c2" using assms(2,3) reachable_trans by blast
  have "wins is (net_set c2) (currentTerm (nodes c2 j)) i"
    using leader_wins [OF assms(1,2,4,6)] wins_mono [OF reachable_net [OF assms(3)]] assms(8) by simp
  moreover have "wins is (net_set c2) (currentTerm (nodes c2 j)) j"
    by (rule leader_wins [OF assms(1) r2 assms(5,7)])
  moreover have "unique_inv c2"
    using elections.reachable_inv [OF r2 assms(1)] by (simp add: election_inv_def)
  ultimately show ?thesis using wins_unique by blast
qed

text \<open>A concrete run: three nodes, \<open>a\<close> is elected and later also holds the vote of \<open>c\<close>.\<close>

definition three_nodes :: cluster where
  "three_nodes = init_cluster [''a'', ''b'', ''c''] (\<lambda>_. None)"

definition elect_a :: "event list" where
  "elect_a = [Election ''a'' 7, Deliver 0 1, Deliver 2 2]"

definition elect_more :: "event list" where
  "elect_more = [Deliver 1 3, Deliver 3 4]"

theorem election_safety_witness:
  "\<exists>c1 c2. ids_ok [''a'', ''b'', ''c''] \<and> reachable three_nodes c1 \<and> reachable c1 c2 \<and>
     state (nodes c1 ''a'') = Leader \<and> state (nodes c2 ''a'') = Leader \<and>
     currentTerm (nodes c1 ''a'') = currentTerm (nodes c2 ''a'') \<and>
     (\<forall>j \<in> set [''a'', ''b'', ''c'']. state (nodes c2 j) = Leader \<and>
        currentTerm (nodes c2 j) = currentTerm (nodes c1 ''a'') \<longrightarrow> ''a'' = j)"
proof -
  have ok: "ids_ok [''a'', ''b'', ''c'']" by (simp add: ids_ok_def)
  have "after elect_a three_nodes (\<lambda>c1. state (nodes c1 ''a'') = Leader \<and>
      currentTerm (nodes c1 ''a'') = 1 \<and>
      after elect_more c1 (\<lambda>c2. state (nodes c2 ''a'') = Leader \<and> currentTerm (nodes c2 ''a'') = 1))"
    by code_simp
  then obtain c1 c2 where c1: "reachable three_nodes c1" "state (nodes c1 ''a'') = Leader"
      "currentTerm (nodes c1 ''a'') = 1"
    and c2: "reachable c1 c2" "state (nodes c2 ''a'') = Leader" "currentTerm (nodes c2 ''a'') = 1"
    by (auto elim!: afterE)
  have a: "''a'' \<in> set [''a'', ''b'', ''c'']" by simp
  have "\<forall>j \<in> set [''a'', ''b'', ''c'']. state (nodes c2 j) = Leader \<and>
      currentTerm (nodes c2 j) = currentTerm (nodes c1 ''a'') \<longrightarrow> ''a'' = j"
    using election_safety [OF ok c1(1) [unfolded three_nodes_def] c2(1) a _ c1(2)] by metis
  then show ?thesis using ok c1 c2 by metis
qed

end
