(* ===== verification/Raft_History.thy ===== *)
theory Raft_History
  imports Raft_Election "HOL-Library.Sublist"
begin

text \<open>
  The layer between the cluster's steps and the log invariants. The steps are grouped by what
  they do to one node's log, term and commit index, and a history variable records, for each
  term, the log of the leader of that term as it was last seen.
\<close>

section \<open>Kinds of steps\<close>

text \<open>A node that keeps its log and commit index, and its role unless it steps down in a new term.\<close>

definition calm :: "Node \<Rightarrow> Node \<Rightarrow> bool" where
  "calm n n' \<longleftrightarrow> log n' = log n \<and> commitIndex n' = commitIndex n \<and> matchIndex n' = matchIndex n \<and>
     (currentTerm n' = currentTerm n \<and> state n' = state n \<or>
      currentTerm n < currentTerm n' \<and> state n' = Follower)"

text \<open>Messages that matter to no log invariant: refusals.\<close>

definition is_refusal :: "msg \<Rightarrow> bool" where
  "is_refusal m \<longleftrightarrow> (case m of
     VoteResp _ _ _ r \<Rightarrow> \<not> rvr_VoteGranted r
   | AppendResp _ _ _ _ _ r \<Rightarrow> \<not> aer_Success r
   | _ \<Rightarrow> False)"

datatype kind =
  Quiet NodeID Node "msg list"
| Elect NodeID Node RequestVoteArgs
| Grant NodeID Node NodeID RequestVoteArgs RequestVoteReply
| Win NodeID Node
| Beat NodeID Node
| Build NodeID NodeID rpc_kind Term LogIndex AppendEntriesArgs
| Reject NodeID Node "msg list" AppendEntriesArgs
| Accept NodeID Node NodeID rpc_kind AppendEntriesArgs AppendEntriesReply Node
| Matched NodeID Node NodeID "LogEntry list"
| Extend NodeID Node bytes

text \<open>The node that changes, its new state, and the messages sent.\<close>

fun kind_node :: "kind \<Rightarrow> NodeID" where
  "kind_node (Quiet i n' ms) = i"
| "kind_node (Elect i n' a) = i"
| "kind_node (Grant i n' x a r) = i"
| "kind_node (Win i n') = i"
| "kind_node (Beat i n') = i"
| "kind_node (Build i p k t commit a) = i"
| "kind_node (Reject i n' ms a) = i"
| "kind_node (Accept i n' src k a r n4) = i"
| "kind_node (Matched i n' p es) = i"
| "kind_node (Extend i n' cmd) = i"

fun kind_new :: "cluster \<Rightarrow> kind \<Rightarrow> Node" where
  "kind_new c (Quiet i n' ms) = n'"
| "kind_new c (Elect i n' a) = n'"
| "kind_new c (Grant i n' x a r) = n'"
| "kind_new c (Win i n') = n'"
| "kind_new c (Beat i n') = n'"
| "kind_new c (Build i p k t commit a) = nodes c i"
| "kind_new c (Reject i n' ms a) = n'"
| "kind_new c (Accept i n' src k a r n4) = n'"
| "kind_new c (Matched i n' p es) = n'"
| "kind_new c (Extend i n' cmd) = n'"

fun kind_msgs :: "kind \<Rightarrow> msg list" where
  "kind_msgs (Quiet i n' ms) = ms"
| "kind_msgs (Elect i n' a) = map (\<lambda>p. VoteReq i p a) (peers n')"
| "kind_msgs (Grant i n' x a r) = [VoteResp i x (rv_Term a) r]"
| "kind_msgs (Win i n') = []"
| "kind_msgs (Beat i n') = map (\<lambda>p. HbTask i p (currentTerm n') (commitIndex n')) (peers n')"
| "kind_msgs (Build i p k t commit a) = [AppendReq i p k a]"
| "kind_msgs (Reject i n' ms a) = ms"
| "kind_msgs (Accept i n' src k a r n4) = [AppendResp i src k (ae_Term a) (ae_Entries a) r]"
| "kind_msgs (Matched i n' p es) = []"
| "kind_msgs (Extend i n' cmd) = []"

text \<open>What is known of a step of each kind.\<close>

fun kind_ok :: "cluster \<Rightarrow> kind \<Rightarrow> bool" where
  "kind_ok c (Quiet i n' ms) \<longleftrightarrow> calm (nodes c i) n' \<and> (\<forall>m \<in> set ms. is_refusal m)"
| "kind_ok c (Elect i n' a) \<longleftrightarrow>
     currentTerm (nodes c i) < currentTerm n' \<and>
     (\<exists>rnd. startElection rnd (nodes c i) = Some (n', a))"
| "kind_ok c (Grant i n' x a r) \<longleftrightarrow>
     VoteReq x i a \<in> net_set c \<and> rvr_VoteGranted r \<and>
     (\<exists>rnd. HandleRequestVote rnd a (nodes c i) = Some (n', r))"
| "kind_ok c (Win i n') \<longleftrightarrow>
     state (nodes c i) = Candidate \<and>
     (\<exists>n1. log n1 = log (nodes c i) \<and> commitIndex n1 = commitIndex (nodes c i) \<and>
        currentTerm n1 = currentTerm (nodes c i) \<and> peers n1 = peers (nodes c i) \<and>
        n' = becomeLeaderLocked n1)"
| "kind_ok c (Beat i n') \<longleftrightarrow>
     state (nodes c i) = Leader \<and> n' = rearm_heartbeat (nodes c i)"
| "kind_ok c (Build i p k t commit a) \<longleftrightarrow>
     build_args p t commit (nodes c i) = Some a \<and>
     (HbTask i p t commit \<in> net_set c \<or>
      state (nodes c i) = Leader \<and> t = currentTerm (nodes c i) \<and> commit = commitIndex (nodes c i))"
| "kind_ok c (Reject i n' ms a) \<longleftrightarrow>
     (\<exists>src k r rnd. AppendReq src i k a \<in> net_set c \<and> currentTerm (nodes c i) \<le> ae_Term a \<and>
        n' = accept_leader rnd a (nodes c i) \<and> ms = [AppendResp i src k (ae_Term a) (ae_Entries a) r] \<and>
        \<not> aer_Success r)"
| "kind_ok c (Accept i n' src k a r n4) \<longleftrightarrow>
     AppendReq src i k a \<in> net_set c \<and> currentTerm (nodes c i) \<le> ae_Term a \<and> aer_Success r \<and>
     (\<exists>rnd. let n3 = accept_leader rnd a (nodes c i) in
        check_prev a n3 = Some None \<and>
        append_entries_loop (ae_PrevLogIndex a + 1) (ae_Entries a) n3 = Some n4 \<and>
        n' = update_commit (ae_LeaderCommit a) n4)"
| "kind_ok c (Matched i n' p es) \<longleftrightarrow>
     state (nodes c i) = Leader \<and> es \<noteq> [] \<and>
     (\<exists>k r. AppendResp p i k (currentTerm (nodes c i)) es r \<in> net_set c \<and> aer_Success r) \<and>
     advanceCommitIndexLocked (record_match p es (nodes c i)) = Some n'"
| "kind_ok c (Extend i n' cmd) \<longleftrightarrow>
     state (nodes c i) = Leader \<and>
     (\<exists>l w. Append (log (nodes c i)) [\<lparr>le_Term = currentTerm (nodes c i),
          le_Index = LastIndex (log (nodes c i)) + 1, le_Command = cmd\<rparr>] = Some l \<and>
        n' = (nodes c i)\<lparr>log := l, wal := w\<rparr>)"

definition kind_step :: "cluster \<Rightarrow> kind \<Rightarrow> cluster \<Rightarrow> bool" where
  "kind_step c x c' \<longleftrightarrow> kind_ok c x \<and> kind_node x \<in> set (ids c) \<and>
     local_step (kind_node x) (kind_new c x) (kind_msgs x) c c'"

lemma kind_stepI:
  assumes "kind_ok c x" "kind_node x \<in> set (ids c)"
    "ids c' = ids c" "nodes c' = (nodes c)(kind_node x := kind_new c x)"
    "net c' = net c @ kind_msgs x"
    "node_id (kind_new c x) = node_id (nodes c (kind_node x))"
    "peers (kind_new c x) = peers (nodes c (kind_node x))"
    "\<And>m. m \<in> set (kind_msgs x) \<Longrightarrow>
       msg_src m \<in> set (ids c) \<and> msg_dst m \<in> set (ids c) \<and> msg_src m \<noteq> msg_dst m"
  shows "\<exists>x. kind_step c x c'"
  using assms unfolding kind_step_def local_step_def by (intro exI [of _ x]) auto

lemma quiet_kind:
  assumes "i \<in> set (ids c)" "calm (nodes c i) n'" "node_id n' = node_id (nodes c i)"
    "peers n' = peers (nodes c i)"
  shows "\<exists>x. kind_step c x (put_node i n' c)"
  using assms by (intro kind_stepI [where x = "Quiet i n' []"]) (auto simp: put_node_def)

lemma vote_reply_kind:
  assumes "VoteResp src dst t reply \<in> net_set c" "dst \<in> set (ids c)"
  shows "\<exists>x. kind_step c x (put_node dst (handleVoteReply rnd src t reply (nodes c dst)) c)"
proof (cases rule: handleVoteReply_cases [of rnd src t reply "nodes c dst"])
  case win
  let ?n' = "handleVoteReply rnd src t reply (nodes c dst)"
  have "kind_ok c (Win dst ?n')"
    unfolding kind_ok.simps
    by (rule conjI [OF win(2)], rule exI, intro conjI, rule_tac [5] win(1)) simp_all
  with assms win(1) show ?thesis
    by (intro kind_stepI [where x = "Win dst ?n'"]) (auto simp: put_node_def)
qed (use assms in \<open>auto simp: calm_def intro!: quiet_kind\<close>)

lemma vote_request_kind:
  assumes m: "VoteReq src dst args \<in> net_set c" and top: "topology_inv c"
    and h: "HandleRequestVote rnd args (nodes c dst) = Some (n', reply)"
    and c': "c' = send [VoteResp dst src (rv_Term args) reply] (put_node dst n' c)"
  shows "\<exists>x. kind_step c x c'"
proof -
  note f = HandleRequestVote_frame [OF h]
  have t: "src \<in> set (ids c)" "dst \<in> set (ids c)" "src \<noteq> dst"
    using top m by (auto simp: topology_inv_def dest!: bspec [where x = "VoteReq src dst args"])
  show ?thesis
  proof (cases "rvr_VoteGranted reply")
    case True
    with m h t show ?thesis
      by (intro kind_stepI [where x = "Grant dst n' src args reply"])
        (auto simp: c' cluster_update f)
  next
    case False
    with t show ?thesis
      by (intro kind_stepI [where x = "Quiet dst n' [VoteResp dst src (rv_Term args) reply]"])
        (auto simp: c' cluster_update f calm_def is_refusal_def max_def)
  qed
qed

lemma append_request_kind:
  assumes m: "AppendReq src dst k args \<in> net_set c" and top: "topology_inv c"
    and h: "HandleAppendEntries rnd args (nodes c dst) = Some (n', reply)"
    and c': "c' = send [AppendResp dst src k (ae_Term args) (ae_Entries args) reply]
      (put_node dst n' c)"
  shows "\<exists>x. kind_step c x c'"
proof -
  note f = HandleAppendEntries_frame [OF h]
  let ?ms = "[AppendResp dst src k (ae_Term args) (ae_Entries args) reply]"
  have t: "src \<in> set (ids c)" "dst \<in> set (ids c)" "src \<noteq> dst"
    using top m by (auto simp: topology_inv_def dest!: bspec [where x = "AppendReq src dst k args"])
  from h show ?thesis
  proof (cases rule: HandleAppendEntries_cases)
    case stale
    with t show ?thesis
      by (intro kind_stepI [where x = "Quiet dst n' ?ms"])
        (auto simp: c' cluster_update calm_def is_refusal_def)
  next
    case (reject ct ci)
    with m have "kind_ok c (Reject dst n' ?ms args)" by auto
    with t show ?thesis
      by (intro kind_stepI [where x = "Reject dst n' ?ms args"])
        (auto simp: c' cluster_update f)
  next
    case (accept n3 n4)
    have "kind_ok c (Accept dst n' src k args reply n4)"
      using m accept unfolding kind_ok.simps Let_def by blast
    with t show ?thesis
      by (intro kind_stepI [where x = "Accept dst n' src k args reply n4"])
        (auto simp: c' cluster_update f)
  qed
qed

lemma append_reply_kind:
  assumes "AppendResp src dst k t es reply \<in> net_set c" "dst \<in> set (ids c)"
    and "heartbeat_reply rnd src t es reply (nodes c dst) = Some n' \<or>
      replicate_reply rnd src t es reply (nodes c dst) = Some n'"
  shows "\<exists>x. kind_step c x (put_node dst n' c)"
  using assms(3)
proof (cases rule: append_reply_cases)
  case match
  have "kind_ok c (Matched dst n' src es)" using assms(1) match unfolding kind_ok.simps by blast
  with assms(2) show ?thesis
    by (intro kind_stepI [where x = "Matched dst n' src es"])
      (auto simp: put_node_def advanceCommit_frame [OF match(6)])
next
  case conflict
  note f = handleConflict_frame [OF conflict(5)]
  show ?thesis by (rule quiet_kind [OF assms(2)]) (simp_all add: calm_def f)
next
  case down
  show ?thesis
    by (rule quiet_kind [OF assms(2)]) (use down in \<open>auto simp: calm_def max_def\<close>)
next
  case same
  show ?thesis by (rule quiet_kind [OF assms(2)]) (simp_all add: same calm_def)
qed

lemma cstep_kind:
  assumes inv: "election_inv c" and small: "terms_small c" and st: "cstep c c'"
  shows "\<exists>x. kind_step c x c'"
proof -
  have top: "topology_inv c" using inv by (simp add: election_inv_def)
  then have ends: "m \<in> net_set c \<Longrightarrow> msg_src m \<in> set (ids c) \<and> msg_dst m \<in> set (ids c) \<and>
      msg_src m \<noteq> msg_dst m" and peers: "peers (nodes c i) = filter (\<lambda>j. j \<noteq> i) (ids c)" for m i
    by (auto simp: topology_inv_def)
  from st show ?thesis
  proof (cases rule: cstep.cases)
    case (election i rnd n' args)
    note f = startElection_Some [OF election(3)]
    have "currentTerm (nodes c i) < - 1" using small election(2) by (simp add: terms_small_def)
    then have "kind_ok c (Elect i n' args)"
      using election(3) word_less_Suc by (auto simp: f)
    with election(1,2) show ?thesis
      by (intro kind_stepI [where x = "Elect i n' args"]) (auto simp: cluster_update f peers)
  next
    case (heartbeat i t k)
    then have "state (nodes c i) = Leader" "t = currentTerm (nodes c i)" "k = commitIndex (nodes c i)"
      by (auto simp: sendHeartbeats_def split: if_splits)
    with heartbeat show ?thesis
      by (intro kind_stepI [where x = "Beat i (rearm_heartbeat (nodes c i))"])
        (auto simp: cluster_update peers rearm_heartbeat_def split: option.splits)
  next
    case (build src dst t k args)
    with ends [OF build(2)] show ?thesis
      by (intro kind_stepI [where x = "Build src dst Heartbeat t k args"])
        (auto simp: send_def heartbeat_build_def)
  next
    case (replicate i p args)
    then have b: "state (nodes c i) = Leader"
      "build_args p (currentTerm (nodes c i)) (commitIndex (nodes c i)) (nodes c i) = Some args"
      by (auto simp: replicate_tick_def bind_eq_Some_conv split: if_splits)
    from replicate peers b show ?thesis
      by (intro kind_stepI [where
            x = "Build i p Replicate (currentTerm (nodes c i)) (commitIndex (nodes c i)) args"])
        (auto simp: send_def)
  next
    case (vote_request src dst args rnd n' reply)
    then show ?thesis by (intro vote_request_kind [OF _ top])
  next
    case (vote_reply src dst t reply rnd)
    then show ?thesis using ends [OF vote_reply(2)] by (auto intro: vote_reply_kind)
  next
    case (append_request src dst k args rnd n' reply)
    then show ?thesis by (intro append_request_kind [OF _ top])
  next
    case (append_reply src dst k t es reply rnd n')
    then show ?thesis using ends [OF append_reply(2)] by (auto intro: append_reply_kind)
  next
    case (submit i cmd n' r)
    from submit(3) show ?thesis
    proof (cases rule: submit_append_cases)
      case refused
      show ?thesis
        unfolding submit(1) by (rule quiet_kind [OF submit(2)]) (simp_all add: refused calm_def)
    next
      case (appended l w)
      then have "kind_ok c (Extend i n' cmd)" unfolding kind_ok.simps by blast
      then show ?thesis
        by (rule kind_stepI) (simp_all add: submit(1,2) put_node_def appended(3))
    qed
  next
    case (apply_begin i r)
    then show ?thesis
      by (intro kind_stepI [where x = "Quiet i (nodes c i) []"]) (auto simp: calm_def)
  next
    case (apply_send i e es k n')
    then show ?thesis
      by (intro kind_stepI [where x = "Quiet i n' []"])
        (auto simp: calm_def put_node_def apply_send_def split: if_splits)
  next
    case (apply_finish i k)
    then show ?thesis
      by (intro kind_stepI [where x = "Quiet i (Raft_Replication.apply_finish k (nodes c i)) []"])
        (auto simp: calm_def put_node_def apply_finish_def)
  next
    case (apply_receive i e es)
    then show ?thesis
      by (intro kind_stepI [where x = "Quiet i ((nodes c i)\<lparr>applyCh := es\<rparr>) []"])
        (auto simp: calm_def put_node_def)
  qed
qed

text \<open>Consequences that hold for every kind.\<close>

lemma kind_step_local:
  assumes "kind_step c x c'"
  shows "ids c' = ids c" "nodes c' = (nodes c)(kind_node x := kind_new c x)"
    "net_set c' = net_set c \<union> set (kind_msgs x)" "kind_node x \<in> set (ids c)" "kind_ok c x"
  using assms by (auto simp: kind_step_def local_step_def)

lemma kind_term_mono:
  assumes "kind_step c x c'"
  shows "currentTerm (nodes c i) \<le> currentTerm (nodes c' i)"
proof -
  have "currentTerm (nodes c (kind_node x)) \<le> currentTerm (kind_new c x)"
    using kind_step_local(5) [OF assms]
  proof (cases x)
    case (Accept j n' src k a r n4)
    with kind_step_local(5) [OF assms] show ?thesis
      by (auto simp: Let_def dest!: append_loop_frame(3))
  next
    case (Grant j n' y a r)
    with kind_step_local(5) [OF assms] show ?thesis by (auto dest!: HandleRequestVote_frame(10))
  next
    case (Matched j n' p es)
    with kind_step_local(5) [OF assms] show ?thesis by (auto dest!: advanceCommit_frame(3))
  qed (use kind_step_local(5) [OF assms] in
      \<open>auto simp: calm_def rearm_heartbeat_def split: option.splits\<close>)
  then show ?thesis by (simp add: kind_step_local(2) [OF assms])
qed

text \<open>A vote appears in the network only in the voter's current term.\<close>

lemma kind_new_vote:
  assumes st: "kind_step c x c'" and v: "voted (net_set c') v t y" "\<not> voted (net_set c) v t y"
  shows "t = currentTerm (nodes c' v)"
proof -
  note l = kind_step_local [OF st]
  from v have "voted (set (kind_msgs x)) v t y" by (simp add: l voted_Un)
  then obtain m where m: "m \<in> set (kind_msgs x)" "is_grant v t y m \<or> y = v \<and> is_candidacy v t m"
    by (auto simp: voted_def)
  show ?thesis
  proof (cases x)
    case (Elect i n' a)
    with l(5) obtain rnd where se: "startElection rnd (nodes c i) = Some (n', a)" by auto
    from m Elect show ?thesis
      by (auto simp: is_grant_def is_candidacy_def l(2) startElection_Some [OF se])
  next
    case (Grant i n' z a r)
    with l(5) obtain rnd where h: "HandleRequestVote rnd a (nodes c i) = Some (n', r)"
      and g: "rvr_VoteGranted r" by auto
    from m Grant show ?thesis
      by (auto simp: is_grant_def is_candidacy_def l(2) HandleRequestVote_grant(1) [OF h g])
  next
    case (Quiet i n' ms)
    with l(5) m show ?thesis by (auto simp: is_refusal_def is_grant_def is_candidacy_def)
  next
    case (Reject i n' ms a)
    with l(5) m show ?thesis by (auto simp: is_grant_def is_candidacy_def)
  qed (use m in \<open>auto simp: is_grant_def is_candidacy_def\<close>)
qed

section \<open>The history of leaders\<close>

type_synonym hist = "Term \<Rightarrow> (NodeID \<times> LogEntry list) option"

definition is_leader_of :: "cluster \<Rightarrow> Term \<Rightarrow> NodeID \<Rightarrow> bool" where
  "is_leader_of c t i \<longleftrightarrow> state (nodes c i) = Leader \<and> currentTerm (nodes c i) = t"

definition record_leaders :: "cluster \<Rightarrow> hist \<Rightarrow> hist" where
  "record_leaders c h t =
     (case find (is_leader_of c t) (ids c) of
        None \<Rightarrow> h t
      | Some i \<Rightarrow> Some (i, entries (log (nodes c i))))"

inductive hreach :: "cluster \<Rightarrow> hist \<Rightarrow> cluster \<Rightarrow> bool" for c0 where
  start: "hreach c0 (\<lambda>_. None) c0"
| step: "hreach c0 h c \<Longrightarrow> terms_small c \<Longrightarrow> cstep c c' \<Longrightarrow> hreach c0 (record_leaders c' h) c'"

lemma reachable_hreach: "reachable c0 c \<Longrightarrow> \<exists>h. hreach c0 h c"
proof (induction rule: reachable.induct)
  case start
  show ?case using hreach.start by blast
next
  case (step c e c')
  then show ?case using exec_cstep [OF step(3)] hreach.step by blast
qed

lemma hreach_reachable:
  assumes "hreach c0 h c" "election_inv c0" "ids_ok (ids c0)"
  shows "election_inv c \<and> ids c = ids c0"
  using assms
proof (induction rule: hreach.induct)
  case (step h c c')
  then show ?case using elections.inv_step [of c c'] cstep_ids [of c c'] by simp
qed simp

text \<open>Invariants of the cluster together with its history.\<close>

locale history_invariant =
  fixes J :: "hist \<Rightarrow> cluster \<Rightarrow> bool"
  assumes hist_init: "ids_ok is \<Longrightarrow> J (\<lambda>_. None) (init_cluster is w)"
    and hist_step: "J h c \<Longrightarrow> election_inv c \<Longrightarrow> election_inv c' \<Longrightarrow> ids_ok (ids c) \<Longrightarrow>
      kind_step c x c' \<Longrightarrow> J (record_leaders c' h) c'"
begin

lemma hreach_inv:
  assumes "hreach (init_cluster is w) h c" and "ids_ok is"
  shows "J h c"
  using assms(1)
proof (induction rule: hreach.induct)
  case start
  show ?case by (rule hist_init [OF assms(2)])
next
  case (step h c c')
  have inv: "election_inv c" "ids_ok (ids c)"
    using hreach_reachable [OF step(1) init_election_inv] assms(2) by (auto simp: init_cluster_def)
  then obtain x where x: "kind_step c x c'" using cstep_kind [OF _ step(2,3)] by blast
  have "election_inv c'" by (rule cstep_election_inv [OF inv step(2,3)])
  then show ?case using hist_step [OF step(4) inv(1) _ inv(2) x] by simp
qed

lemma reachable_hist:
  assumes "reachable (init_cluster is w) c" and "ids_ok is"
  obtains h where "J h c" "hreach (init_cluster is w) h c"
  using reachable_hreach [OF assms(1)] hreach_inv [OF _ assms(2)] by blast

end

end
