(* ===== verification/Raft_Log_Matching.thy ===== *)
theory Raft_Log_Matching
  imports Raft_History
begin

text \<open>
  Log matching and what the logs of leaders look like. Every log in the cluster, and every
  request in the network, is made of prefixes of the logs of past leaders; a follower that
  accepts a request ends with either its own log or exactly the log the request was built from.
\<close>

section \<open>Logs traced to leaders\<close>

definition hext :: "hist \<Rightarrow> hist \<Rightarrow> bool" where
  "hext h h' \<longleftrightarrow> (\<forall>t m lg. h t = Some (m, lg) \<longrightarrow> (\<exists>lg'. h' t = Some (m, lg') \<and> prefix lg lg'))"

definition traced :: "hist \<Rightarrow> LogEntry list \<Rightarrow> bool" where
  "traced h es \<longleftrightarrow> entries_ok es \<and>
     (\<forall>i < length es. 0 < i \<longrightarrow>
        (\<exists>m lg. h (le_Term (es ! i)) = Some (m, lg) \<and> prefix (take (Suc i) es) lg))"

lemma hext_refl [simp]: "hext h h"
  by (auto simp: hext_def)

lemma hextD: "hext h h' \<Longrightarrow> h t = Some (m, lg) \<Longrightarrow> \<exists>lg'. h' t = Some (m, lg') \<and> prefix lg lg'"
  by (auto simp: hext_def)

lemma hext_upd:
  assumes "\<And>m lg. h t = Some (m, lg) \<Longrightarrow> m = i \<and> prefix lg es"
  shows "hext h (h(t \<mapsto> (i, es)))"
  using assms by (auto simp: hext_def)

lemma traced_ok: "traced h es \<Longrightarrow> entries_ok es"
  by (simp add: traced_def)

lemma traced_nth:
  assumes "traced h es" "0 < i" "i < length es"
  obtains m lg where "h (le_Term (es ! i)) = Some (m, lg)" "prefix (take (Suc i) es) lg"
  using assms by (auto simp: traced_def)

lemma traced_mono:
  assumes "hext h h'" "traced h es" shows "traced h' es"
  unfolding traced_def
proof (intro conjI allI impI)
  show "entries_ok es" by (rule traced_ok [OF assms(2)])
  fix i assume i: "i < length es" "0 < i"
  then obtain m lg where "h (le_Term (es ! i)) = Some (m, lg)" "prefix (take (Suc i) es) lg"
    using traced_nth [OF assms(2)] by blast
  then show "\<exists>m lg. h' (le_Term (es ! i)) = Some (m, lg) \<and> prefix (take (Suc i) es) lg"
    using hextD [OF assms(1)] prefix_order.trans by blast
qed

lemma traced_take:
  assumes "traced h es" "0 < n" shows "traced h (take n es)"
  unfolding traced_def
proof (intro conjI allI impI)
  show "entries_ok (take n es)" using entries_ok_take [OF traced_ok [OF assms(1)] assms(2)] .
  fix i assume i: "i < length (take n es)" "0 < i"
  then obtain m lg where "h (le_Term (es ! i)) = Some (m, lg)" "prefix (take (Suc i) es) lg"
    using traced_nth [OF assms(1)] by auto
  with i show "\<exists>m lg. h (le_Term (take n es ! i)) = Some (m, lg) \<and> prefix (take (Suc i) (take n es)) lg"
    by (auto simp: min_absorb1)
qed

lemma traced_snoc:
  assumes "traced h es" "entries_ok (es @ [e])" "h (le_Term e) = Some (m, es @ [e])"
  shows "traced h (es @ [e])"
  unfolding traced_def
proof (intro conjI allI impI)
  fix i assume i: "i < length (es @ [e])" "0 < i"
  show "\<exists>m lg. h (le_Term ((es @ [e]) ! i)) = Some (m, lg) \<and> prefix (take (Suc i) (es @ [e])) lg"
  proof (cases "i < length es")
    case True
    then obtain m lg where "h (le_Term (es ! i)) = Some (m, lg)" "prefix (take (Suc i) es) lg"
      using traced_nth [OF assms(1) i(2)] by blast
    with True show ?thesis by (auto simp: nth_append)
  next
    case False
    with i have "i = length es" by simp
    with assms(3) show ?thesis by simp
  qed
qed (rule assms(2))

text \<open>Two traced logs with the same term at the same index agree up to that index.\<close>

lemma traced_agree:
  assumes "traced h es" "traced h fs" "i < length es" "i < length fs"
    and "le_Term (es ! i) = le_Term (fs ! i)"
  shows "take (Suc i) es = take (Suc i) fs"
proof (cases "i = 0")
  case True
  have "es \<noteq> []" "fs \<noteq> []" using assms(3,4) by auto
  with True show ?thesis
    using entries_ok_sentinel [OF traced_ok [OF assms(1)]] entries_ok_sentinel [OF traced_ok [OF assms(2)]]
    by (simp add: take_Suc_conv_app_nth)
next
  case False
  then obtain m lg where "h (le_Term (es ! i)) = Some (m, lg)" "prefix (take (Suc i) es) lg"
    using traced_nth [OF assms(1)] assms(3) by blast
  moreover from False obtain m' lg' where
    "h (le_Term (fs ! i)) = Some (m', lg')" "prefix (take (Suc i) fs) lg'"
    using traced_nth [OF assms(2)] assms(4) by blast
  ultimately have "prefix (take (Suc i) es) lg" "prefix (take (Suc i) fs) lg"
    using assms(5) by auto
  then show ?thesis
    using assms(3,4) by (auto simp: prefix_def append_eq_append_conv)
qed

lemma prefix_takeD: "prefix xs ys \<Longrightarrow> xs = take (length xs) ys"
  by (auto simp: prefix_def)

lemma prefix_nth: "prefix xs ys \<Longrightarrow> i < length xs \<Longrightarrow> xs ! i = ys ! i"
  by (auto simp: prefix_def nth_append)

section \<open>Requests and the logs they are built from\<close>

definition from_log :: "LogEntry list \<Rightarrow> AppendEntriesArgs \<Rightarrow> bool" where
  "from_log lg a \<longleftrightarrow>
     (let p = unat (ae_PrevLogIndex a) in
      p < length lg \<and> ae_PrevLogTerm a = le_Term (lg ! p) \<and> ae_Entries a = drop (Suc p) lg \<or>
      length lg \<le> p \<and> ae_PrevLogTerm a = 0 \<and> ae_Entries a = [])"

lemma EntriesFrom_beyond:
  assumes "entries_ok (entries l)" "length (entries l) \<le> unat s"
  shows "EntriesFrom l s = Some []"
proof -
  have "LastIndex l < s"
    using assms(2) entries_ok_len [OF assms(1)]
    unfolding word_less_nat_alt unat_LastIndex [OF assms(1)] by linarith
  then show ?thesis by (simp add: EntriesFrom_def Entries_def)
qed

lemma build_args_from_log:
  assumes b: "build_args p t k n = Some a" and ok: "entries_ok (entries (log n))"
  shows "from_log (entries (log n)) a" "ae_Term a = t" "ae_LeaderCommit a = k"
    "ae_LeaderID a = node_id n"
proof -
  let ?x = "go_get 0 (nextIndex n) p"
  let ?es = "entries (log n)"
  from b obtain pt fs where pt: "TermAt (log n) (?x - 1) = Some pt"
    and fs: "EntriesFrom (log n) ?x = Some fs"
    and a: "a = \<lparr>ae_Term = t, ae_LeaderID = node_id n, ae_PrevLogIndex = ?x - 1,
              ae_PrevLogTerm = pt, ae_Entries = fs, ae_LeaderCommit = k\<rparr>"
    by (auto simp: build_args_def Let_def bind_eq_Some_conv)
  show "ae_Term a = t" "ae_LeaderCommit a = k" "ae_LeaderID a = node_id n" by (simp_all add: a)
  have len: "0 < length ?es" "length ?es < max_len" using entries_ok_len [OF ok] by auto
  show "from_log ?es a"
  proof (cases "unat (?x - 1) < length ?es")
    case True
    then have ux: "unat ?x = Suc (unat (?x - 1))" using unat_Suc_len [of "?x - 1"] len by simp
    show ?thesis
    proof (cases "unat ?x < max_len")
      case True
      with fs have "fs = drop (unat ?x) ?es" using EntriesFrom_eq [OF ok] by simp
      with pt ux \<open>unat (?x - 1) < _\<close> show ?thesis by (simp add: from_log_def a Let_def)
    next
      case False
      with ux True len show ?thesis by linarith
    qed
  next
    case False
    then have small: "unat (?x - 1) < max_len"
      using pt TermAt_panics [of "log n" "?x - 1"] by (cases "unat (?x - 1) < max_len") auto
    then have "pt = 0" using False pt TermAt_out [of "log n" "?x - 1"] by simp
    moreover have "unat ?x = Suc (unat (?x - 1))" using unat_Suc_len [OF small] by simp
    then have "fs = []" using False fs EntriesFrom_beyond [OF ok, of ?x] by simp
    ultimately show ?thesis using False by (simp add: from_log_def a Let_def)
  qed
qed

section \<open>Accepting a request\<close>

lemma append_loop_log:
  assumes "traced h (entries (log n))" "traced h lg"
    and "p < length lg" "p < length (entries (log n))"
    and "take (Suc p) (entries (log n)) = take (Suc p) lg"
    and "append_entries_loop (of_nat (Suc p)) (drop (Suc p) lg) n = Some n'"
  shows "entries (log n') = (if prefix lg (entries (log n)) then entries (log n) else lg)"
  using assms(3-6)
proof (induction "length lg - p" arbitrary: p)
  case 0
  then show ?case by simp
next
  case (Suc d)
  let ?es = "entries (log n)"
  have len: "length ?es < max_len" "length lg < max_len"
    using assms(1,2) by (auto dest!: traced_ok entries_ok_len)
  have u: "unat (of_nat (Suc p) :: u64) = Suc p" using Suc.prems len by (intro unat_of_nat_len) simp
  show ?case
  proof (cases "Suc p < length lg")
    case False
    then have "lg = take (Suc p) ?es" "drop (Suc p) lg = []" using Suc.prems by auto
    then show ?thesis using Suc.prems(4) by (metis append_entries_loop.simps(1) option.inject take_is_prefix)
  next
    case True
    then have d: "drop (Suc p) lg = lg ! Suc p # drop (Suc (Suc p)) lg"
      by (simp add: Cons_nth_drop_Suc)
    show ?thesis
    proof (cases "Suc p < length ?es")
      case False
      then have es: "?es = take (Suc p) lg" using Suc.prems by simp
      from False u len have "\<not> Contains (log n) (of_nat (Suc p))" using Suc.prems by (simp add: Contains_small)
      with Suc.prems(4) d have "entries (log n') = ?es @ drop (Suc p) lg"
        by (auto simp: bind_eq_Some_conv Append_def go_append_Some)
      also have "\<dots> = lg" by (simp add: es)
      finally show ?thesis using False True by (auto dest: prefix_length_le)
    next
      case in_es: True
      then have c: "Contains (log n) (of_nat (Suc p))" using u len by (simp add: Contains_small)
      have t: "TermAt (log n) (of_nat (Suc p)) = Some (le_Term (?es ! Suc p))"
        using in_es u by simp
      show ?thesis
      proof (cases "le_Term (?es ! Suc p) = le_Term (lg ! Suc p)")
        case same: True
        have "append_entries_loop (of_nat (Suc (Suc p))) (drop (Suc (Suc p)) lg) n = Some n'"
          using Suc.prems(4) d c t same by (simp add: add.commute)
        moreover have "take (Suc (Suc p)) ?es = take (Suc (Suc p)) lg"
          by (rule traced_agree [OF assms(1,2) in_es True same])
        ultimately show ?thesis using Suc.hyps(1) [of "Suc p"] Suc.hyps(2) True in_es by simp
      next
        case False
        have "TruncateAfter (log n) (of_nat p) = Some ((log n)\<lparr>entries := take (Suc p) ?es\<rparr>)"
          using TruncateAfter_eq [of "log n" "of_nat p"] len Suc.prems by simp
        then have "entries (log n') = take (Suc p) ?es @ drop (Suc p) lg"
          using Suc.prems(4) d c t False by (auto simp: bind_eq_Some_conv Append_def go_append_Some)
        also have "\<dots> = lg" by (simp add: Suc.prems)
        finally show ?thesis using False True prefix_nth [of lg ?es "Suc p"] by auto
      qed
    qed
  qed
qed

lemma accept_log:
  assumes tr: "traced h (entries (log n))" "traced h lg" and fl: "from_log lg a"
    and chk: "check_prev a n = Some None"
    and loop: "append_entries_loop (ae_PrevLogIndex a + 1) (ae_Entries a) n = Some n'"
  shows "entries (log n') = (if prefix lg (entries (log n)) then entries (log n) else lg)"
    "unat (ae_PrevLogIndex a) < length lg" "ae_Entries a = drop (Suc (unat (ae_PrevLogIndex a))) lg"
proof -
  let ?p = "unat (ae_PrevLogIndex a)" and ?es = "entries (log n)"
  have ok: "entries_ok ?es" "entries_ok lg" using tr by (auto dest: traced_ok)
  have len: "0 < length ?es" "0 < length lg" "length lg < max_len" "length ?es < max_len"
    using entries_ok_len ok by auto
  have prev: "?p < length ?es \<and> le_Term (?es ! ?p) = ae_PrevLogTerm a" if "0 < ?p"
  proof -
    have pos: "0 < ae_PrevLogIndex a" using that by (simp add: word_less_nat_alt)
    then have c: "Contains (log n) (ae_PrevLogIndex a)"
      using chk by (auto simp: check_prev_def split: if_splits)
    moreover from c chk pos have "TermAt (log n) (ae_PrevLogIndex a) = Some (ae_PrevLogTerm a)"
      by (auto simp: check_prev_def bind_eq_Some_conv split: if_splits)
    ultimately show ?thesis
      using TermAt_panics [of "log n" "ae_PrevLogIndex a"]
      by (cases "?p < length ?es") (auto simp: Contains_iff)
  qed
  have p: "?p < length lg"
  proof (rule ccontr)
    assume "\<not> ?p < length lg"
    then have "ae_PrevLogTerm a = 0" "0 < ?p"
      using fl len(2) by (auto simp: from_log_def Let_def simp del: length_greater_0_conv)
    with prev show False using entries_ok_term [OF ok(1), of ?p] by simp
  qed
  then have a: "ae_PrevLogTerm a = le_Term (lg ! ?p)" "ae_Entries a = drop (Suc ?p) lg"
    using fl by (auto simp: from_log_def Let_def)
  have eq: "?p < length ?es" "le_Term (?es ! ?p) = le_Term (lg ! ?p)"
    using prev a len entries_ok_sentinel [OF ok(1)] entries_ok_sentinel [OF ok(2)]
    by (cases "?p = 0"; simp)+
  have "ae_PrevLogIndex a + 1 = of_nat (Suc ?p)" by simp
  then show "entries (log n') = (if prefix lg ?es then ?es else lg)"
    using append_loop_log [OF tr p eq(1) traced_agree [OF tr eq(1) p eq(2)]] loop a(2)
    by (simp add: add.commute)
  show "?p < length lg" "ae_Entries a = drop (Suc ?p) lg" by (rule p, rule a(2))
qed

section \<open>The invariant\<close>

text \<open>A past leader, and its log as last seen in that role.\<close>

definition leader_log_ok :: "hist \<Rightarrow> cluster \<Rightarrow> Term \<Rightarrow> NodeID \<Rightarrow> LogEntry list \<Rightarrow> bool" where
  "leader_log_ok h c t m lg \<longleftrightarrow>
     m \<in> set (ids c) \<and> 0 < t \<and> wins (ids c) (net_set c) t m \<and> t \<le> currentTerm (nodes c m) \<and>
     (currentTerm (nodes c m) = t \<longrightarrow> state (nodes c m) = Leader) \<and>
     traced h lg \<and> (\<forall>e \<in> set lg. le_Term e \<le> t)"

text \<open>
  A candidate's log holds no term above its own, or a quorum has moved on without voting for it
  (then it cannot win any more).
\<close>

definition candidate_ok :: "cluster \<Rightarrow> NodeID \<Rightarrow> bool" where
  "candidate_ok c i \<longleftrightarrow>
     (let t = currentTerm (nodes c i) in
      0 < t \<and>
      ((\<forall>e \<in> set (entries (log (nodes c i))). le_Term e \<le> t) \<or>
       (\<exists>Q. majority_set (ids c) Q \<and>
          (\<forall>q \<in> Q. t < currentTerm (nodes c q) \<and> \<not> voted (net_set c) q t i))))"

definition node_log_ok :: "hist \<Rightarrow> cluster \<Rightarrow> NodeID \<Rightarrow> bool" where
  "node_log_ok h c i \<longleftrightarrow>
     traced h (entries (log (nodes c i))) \<and>
     (state (nodes c i) = Leader \<longrightarrow>
        h (currentTerm (nodes c i)) = Some (i, entries (log (nodes c i)))) \<and>
     (state (nodes c i) = Candidate \<longrightarrow> candidate_ok c i)"

definition msg_ok :: "hist \<Rightarrow> msg \<Rightarrow> bool" where
  "msg_ok h m \<longleftrightarrow> (case m of
     HbTask src dst t k \<Rightarrow> \<exists>lg. h t = Some (src, lg)
   | AppendReq src dst k a \<Rightarrow>
       (\<exists>lg. h (ae_Term a) = Some (src, lg)) \<and> (\<exists>lg. traced h lg \<and> from_log lg a)
   | _ \<Rightarrow> True)"

definition log_inv :: "hist \<Rightarrow> cluster \<Rightarrow> bool" where
  "log_inv h c \<longleftrightarrow>
     (\<forall>t m lg. h t = Some (m, lg) \<longrightarrow> leader_log_ok h c t m lg) \<and>
     (\<forall>i \<in> set (ids c). node_log_ok h c i) \<and>
     (\<forall>m \<in> net_set c. msg_ok h m)"

lemma log_invD:
  assumes "log_inv h c"
  shows "h t = Some (m, lg) \<Longrightarrow> leader_log_ok h c t m lg"
    "i \<in> set (ids c) \<Longrightarrow> node_log_ok h c i" "x \<in> net_set c \<Longrightarrow> msg_ok h x"
  using assms by (auto simp: log_inv_def)

lemma leader_hist:
  assumes "log_inv h c" "i \<in> set (ids c)" "state (nodes c i) = Leader"
  shows "h (currentTerm (nodes c i)) = Some (i, entries (log (nodes c i)))"
  using log_invD(2) [OF assms(1,2)] assms(3) by (simp add: node_log_ok_def)

lemma init_log_inv: "log_inv (\<lambda>_. None) (init_cluster is w)"
  using log_ok_New
  by (auto simp: log_inv_def init_cluster_def node_log_ok_def NewNode_def traced_def log_ok_def
      NewRaftLog_def)

text \<open>The history after a step: only the leader that changed may differ.\<close>

lemma record_step:
  assumes inv: "log_inv h c" and e': "election_inv c'" and st: "kind_step c x c'"
  shows "record_leaders c' h =
     (if state (kind_new c x) = Leader
      then h(currentTerm (kind_new c x) \<mapsto> (kind_node x, entries (log (kind_new c x)))) else h)"
proof
  fix t
  note l = kind_step_local [OF st]
  let ?i = "kind_node x" and ?n = "kind_new c x"
  have unique: "j = k" if "is_leader_of c' t j" "is_leader_of c' t k" "j \<in> set (ids c)" "k \<in> set (ids c)" for j k
  proof -
    have "wins (ids c') (net_set c') t j" "wins (ids c') (net_set c') t k"
      using e' that l(1) by (auto simp: election_inv_def leader_inv_def is_leader_of_def)
    then show ?thesis using wins_unique e' by (auto simp: election_inv_def)
  qed
  have own: "is_leader_of c' t ?i \<longleftrightarrow> state ?n = Leader \<and> currentTerm ?n = t"
    by (simp add: is_leader_of_def l(2))
  show "record_leaders c' h t = (if state ?n = Leader
      then h(currentTerm ?n \<mapsto> (?i, entries (log ?n))) else h) t"
  proof (cases "find (is_leader_of c' t) (ids c')")
    case None
    then have "\<not> is_leader_of c' t ?i" using l(1,4) by (auto simp: find_None_iff)
    with None own show ?thesis by (auto simp: record_leaders_def)
  next
    case (Some j)
    then have j: "is_leader_of c' t j" "j \<in> set (ids c)"
      using l(1) by (auto simp: find_Some_iff)
    show ?thesis
    proof (cases "j = ?i")
      case True
      with Some j own l(2) show ?thesis by (auto simp: record_leaders_def)
    next
      case False
      with j unique l(4) have "\<not> is_leader_of c' t ?i" by blast
      moreover have "h t = Some (j, entries (log (nodes c j)))"
        using leader_hist [OF inv j(2)] j(1) False l(2) by (auto simp: is_leader_of_def)
      ultimately show ?thesis using Some own False l(2) by (auto simp: record_leaders_def)
    qed
  qed
qed

section \<open>Preservation\<close>

lemma msg_ok_mono:
  assumes "hext h h'" "msg_ok h m" shows "msg_ok h' m"
proof -
  have "\<exists>lg'. h' t = Some (s, lg')" if "h t = Some (s, lg)" for t s lg
    using hextD [OF assms(1) that] by blast
  then show ?thesis
    using assms(2) traced_mono [OF assms(1)] by (cases m) (auto simp: msg_ok_def, blast+)
qed

lemma candidate_ok_keep:
  assumes st: "kind_step c x c'" and ok: "candidate_ok c j"
    and same: "currentTerm (nodes c' j) = currentTerm (nodes c j)" "log (nodes c' j) = log (nodes c j)"
  shows "candidate_ok c' j"
proof -
  let ?t = "currentTerm (nodes c j)"
  have "?t < currentTerm (nodes c' q) \<and> \<not> voted (net_set c') q ?t j"
    if "?t < currentTerm (nodes c q)" "\<not> voted (net_set c) q ?t j" for q
    using that kind_term_mono [OF st, of q] kind_new_vote [OF st, of q ?t j] by auto
  with ok show ?thesis
    unfolding candidate_ok_def same Let_def kind_step_local(1) [OF st] by blast
qed

lemma leader_log_keep:
  assumes st: "kind_step c x c'" and ok: "leader_log_ok h c t m lg" and ext: "hext h h'"
    and keep: "state (nodes c (kind_node x)) = Leader \<Longrightarrow>
      currentTerm (kind_new c x) = currentTerm (nodes c (kind_node x)) \<Longrightarrow>
      state (kind_new c x) = Leader"
  shows "leader_log_ok h' c' t m lg"
proof -
  note l = kind_step_local [OF st]
  have "wins (ids c') (net_set c') t m"
    using ok wins_mono [of "net_set c" "net_set c'"] by (auto simp: leader_log_ok_def l(1,3))
  moreover have "state (nodes c' m) = Leader" if "currentTerm (nodes c' m) = t"
  proof -
    have "currentTerm (nodes c m) = t"
      using that ok kind_term_mono [OF st, of m] by (auto simp: leader_log_ok_def)
    moreover from this have "state (nodes c m) = Leader" using ok by (simp add: leader_log_ok_def)
    ultimately show ?thesis using that keep l(2) by (cases "m = kind_node x") auto
  qed
  moreover have "t \<le> currentTerm (nodes c' m)"
    using ok kind_term_mono [OF st, of m] by (auto simp: leader_log_ok_def)
  ultimately show ?thesis
    using ok traced_mono [OF ext] l(1) by (simp add: leader_log_ok_def)
qed

lemma log_inv_step:
  assumes inv: "log_inv h c" and e': "election_inv c'" and st: "kind_step c x c'"
    and h': "h' = record_leaders c' h" and ext: "hext h h'"
    and new: "state (kind_new c x) = Leader \<Longrightarrow>
      leader_log_ok h' c' (currentTerm (kind_new c x)) (kind_node x) (entries (log (kind_new c x)))"
    and tr: "traced h' (entries (log (kind_new c x)))"
    and keep: "state (nodes c (kind_node x)) = Leader \<Longrightarrow>
      currentTerm (kind_new c x) = currentTerm (nodes c (kind_node x)) \<Longrightarrow>
      state (kind_new c x) = Leader"
    and cand: "state (kind_new c x) = Candidate \<Longrightarrow> candidate_ok c' (kind_node x)"
    and msgs: "\<And>m. m \<in> set (kind_msgs x) \<Longrightarrow> msg_ok h' m"
  shows "log_inv h' c'"
proof -
  note l = kind_step_local [OF st]
  let ?i = "kind_node x" and ?n = "kind_new c x"
  note rec = record_step [OF inv e' st, folded h']
  have "leader_log_ok h' c' t m lg" if "h' t = Some (m, lg)" for t m lg
  proof (cases "h t = Some (m, lg)")
    case True
    show ?thesis by (rule leader_log_keep [OF st log_invD(1) [OF inv True] ext keep])
  next
    case False
    with that show ?thesis using new by (auto simp: rec split: if_splits)
  qed
  moreover have "node_log_ok h' c' j" if j: "j \<in> set (ids c')" for j
  proof (cases "j = ?i")
    case True
    then show ?thesis using tr cand by (simp add: node_log_ok_def l(2) rec)
  next
    case False
    then have nj: "nodes c' j = nodes c j" by (simp add: l(2))
    have old: "node_log_ok h c j" using log_invD(2) [OF inv] j l(1) by simp
    have "h' (currentTerm (nodes c j)) = Some (j, entries (log (nodes c j)))"
      if lead: "state (nodes c j) = Leader"
    proof -
      have "h (currentTerm (nodes c j)) = Some (j, entries (log (nodes c j)))"
        using old lead by (simp add: node_log_ok_def)
      moreover have "\<not> (state ?n = Leader \<and> currentTerm ?n = currentTerm (nodes c j))"
        using ext calculation False by (auto simp: rec hext_def split: if_splits)
      ultimately show ?thesis by (auto simp: rec)
    qed
    moreover have "candidate_ok c' j" if "state (nodes c j) = Candidate"
      using old that by (intro candidate_ok_keep [OF st]) (auto simp: node_log_ok_def nj)
    ultimately show ?thesis
      using old traced_mono [OF ext] by (simp add: node_log_ok_def nj)
  qed
  moreover have "msg_ok h' m" if "m \<in> net_set c'" for m
    using that msgs msg_ok_mono [OF ext log_invD(3) [OF inv]] by (auto simp: l(3))
  ultimately show ?thesis by (simp add: log_inv_def)
qed

text \<open>Steps that leave log and role alone.\<close>

lemma record_same:
  assumes inv: "log_inv h c" and e': "election_inv c'" and st: "kind_step c x c'"
    and lead: "state (kind_new c x) = Leader \<Longrightarrow> state (nodes c (kind_node x)) = Leader \<and>
      currentTerm (kind_new c x) = currentTerm (nodes c (kind_node x)) \<and>
      log (kind_new c x) = log (nodes c (kind_node x))"
  shows "record_leaders c' h = h"
  using record_step [OF inv e' st] lead leader_hist [OF inv kind_step_local(4) [OF st]]
  by (auto intro: fun_upd_idem)

lemma log_inv_same:
  assumes inv: "log_inv h c" and e': "election_inv c'" and st: "kind_step c x c'"
    and log: "log (kind_new c x) = log (nodes c (kind_node x))"
    and role: "state (kind_new c x) \<noteq> Follower \<Longrightarrow>
      state (kind_new c x) = state (nodes c (kind_node x)) \<and>
      currentTerm (kind_new c x) = currentTerm (nodes c (kind_node x))"
    and keep: "state (nodes c (kind_node x)) = Leader \<Longrightarrow>
      currentTerm (kind_new c x) = currentTerm (nodes c (kind_node x)) \<Longrightarrow>
      state (kind_new c x) = Leader"
    and msgs: "\<And>m. m \<in> set (kind_msgs x) \<Longrightarrow> msg_ok h m"
  shows "log_inv (record_leaders c' h) c'"
proof -
  note l = kind_step_local [OF st]
  let ?i = "kind_node x" and ?n = "kind_new c x"
  have h: "record_leaders c' h = h" using role log by (intro record_same [OF inv e' st]) auto
  have ok: "node_log_ok h c ?i" by (rule log_invD(2) [OF inv l(4)])
  show ?thesis
  proof (rule log_inv_step [OF inv e' st refl])
    show "leader_log_ok (record_leaders c' h) c' (currentTerm ?n) ?i (entries (log ?n))"
      if "state ?n = Leader"
    proof -
      have "h (currentTerm ?n) = Some (?i, entries (log ?n))"
        using that role log leader_hist [OF inv l(4)] by simp
      then show ?thesis
        unfolding h by (intro leader_log_keep [OF st log_invD(1) [OF inv] hext_refl keep])
    qed
    show "candidate_ok c' ?i" if "state ?n = Candidate"
      using that role log ok by (intro candidate_ok_keep [OF st]) (auto simp: node_log_ok_def l(2))
  qed (use ok msgs keep log in \<open>simp_all add: h node_log_ok_def\<close>)
qed

text \<open>A leader never hears from another leader of its own term.\<close>

lemma no_rival:
  assumes inv: "log_inv h c" and e: "election_inv c" and m: "AppendReq src i k a \<in> net_set c"
    and "state (nodes c i) = Leader"
  shows "ae_Term a \<noteq> currentTerm (nodes c i)"
proof
  assume eq: "ae_Term a = currentTerm (nodes c i)"
  have top: "i \<in> set (ids c)" "src \<noteq> i"
    using e m by (auto simp: election_inv_def topology_inv_def
        dest!: bspec [where x = "AppendReq src i k a"])
  obtain lg where "h (ae_Term a) = Some (src, lg)"
    using log_invD(3) [OF inv m] by (auto simp: msg_ok_def)
  then show False using leader_hist [OF inv top(1) assms(4)] eq top(2) by simp
qed

lemma build_msg_ok:
  assumes inv: "log_inv h c" and i: "i \<in> set (ids c)" and k: "kind_ok c (Build i p k t commit a)"
  shows "msg_ok h (AppendReq i p k a)"
proof -
  have tr: "traced h (entries (log (nodes c i)))"
    using log_invD(2) [OF inv i] by (simp add: node_log_ok_def)
  note b = build_args_from_log [OF _ traced_ok [OF tr], of p t commit a]
  have "\<exists>lg. h t = Some (i, lg)"
  proof (cases "HbTask i p t commit \<in> net_set c")
    case True
    then show ?thesis using log_invD(3) [OF inv True] by (simp add: msg_ok_def)
  next
    case False
    with k show ?thesis using leader_hist [OF inv i] by auto
  qed
  then show ?thesis using k b tr by (auto simp: msg_ok_def)
qed

lemma same_kinds_log_inv:
  assumes inv: "log_inv h c" and e: "election_inv c" "election_inv c'" and st: "kind_step c x c'"
    and x: "case x of Elect _ _ _ \<Rightarrow> False | Win _ _ \<Rightarrow> False | Accept _ _ _ _ _ _ _ \<Rightarrow> False
      | Extend _ _ _ \<Rightarrow> False | _ \<Rightarrow> True"
  shows "log_inv (record_leaders c' h) c'"
proof -
  note k = kind_step_local(5) [OF st] and i = kind_step_local(4) [OF st]
  note same = log_inv_same [OF inv e(2) st]
  show ?thesis
  proof (cases x)
    case (Quiet j n' ms)
    with k show ?thesis
      by (intro same) (auto simp: calm_def is_refusal_def msg_ok_def split: msg.splits)
  next
    case (Grant j n' y a r)
    with k obtain rnd where h: "HandleRequestVote rnd a (nodes c j) = Some (n', r)" by auto
    note f = HandleRequestVote_frame [OF h]
    show ?thesis by (rule same) (auto simp: Grant f msg_ok_def max_def split: if_splits)
  next
    case (Beat j n')
    with k have n': "n' = rearm_heartbeat (nodes c j)" "state (nodes c j) = Leader" by auto
    then have f: "log n' = log (nodes c j)" "state n' = state (nodes c j)"
      "currentTerm n' = currentTerm (nodes c j)"
      by (simp_all add: rearm_heartbeat_def split: option.splits)
    show ?thesis
      using leader_hist [OF inv _ n'(2)] i by (intro same) (auto simp: Beat f n'(2) msg_ok_def)
  next
    case (Build j p kd t commit a)
    then show ?thesis using build_msg_ok [OF inv] k i by (intro same) auto
  next
    case (Reject j n' ms a)
    with k obtain src kd r rnd where m: "AppendReq src j kd a \<in> net_set c"
      and le: "currentTerm (nodes c j) \<le> ae_Term a" and n': "n' = accept_leader rnd a (nodes c j)"
      and ms: "ms = [AppendResp j src kd (ae_Term a) (ae_Entries a) r]" by auto
    show ?thesis
      by (rule same)
        (use no_rival [OF inv e(1) m] le in \<open>auto simp: Reject n' ms msg_ok_def max_def split: if_splits\<close>)
  next
    case (Matched j n' p es)
    with k have "advanceCommitIndexLocked (record_match p es (nodes c j)) = Some n'" by auto
    note f = advanceCommit_frame [OF this]
    show ?thesis by (rule same) (simp_all add: Matched f)
  qed (use x in auto)
qed

subsection \<open>Starting an election\<close>

lemma voted_own_term:
  assumes e: "election_inv c" and v: "voted (net_set c) q t x"
  shows "t \<le> currentTerm (nodes c x)"
proof -
  have "voted (net_set c) x t x"
  proof (cases "x = q \<and> (\<exists>m \<in> net_set c. is_candidacy q t m)")
    case True
    with v show ?thesis by auto
  next
    case False
    with v obtain r where "VoteResp q x t r \<in> net_set c"
      by (auto simp: voted_def is_grant_def)
    then obtain a where "VoteReq x q a \<in> net_set c" "rv_Term a = t"
      using e unfolding election_inv_def request_inv_def by blast
    then show ?thesis by (auto simp: voted_def is_candidacy_def)
  qed
  then show ?thesis using e unfolding election_inv_def vote_inv_def by (metis less_imp_le order_refl)
qed

lemma voted_voter_term:
  assumes "election_inv c" "voted (net_set c) q t x"
  shows "t \<le> currentTerm (nodes c q)"
  using assms unfolding election_inv_def vote_inv_def by (metis less_imp_le order_refl)

lemma traced_term_pos:
  assumes "traced h es" "e \<in> set es" "t < le_Term e"
  obtains m lg where "h (le_Term e) = Some (m, lg)"
proof -
  from assms(2) obtain i where i: "i < length es" "es ! i = e" by (auto simp: in_set_conv_nth)
  have "0 < i"
    using i assms(3) entries_ok_sentinel [OF traced_ok [OF assms(1)]]
    by (cases i) (auto simp: sentinel_def)
  then obtain m lg where "h (le_Term (es ! i)) = Some (m, lg)"
    using traced_nth [OF assms(1) _ i(1)] by blast
  with i(2) show thesis using that by simp
qed

lemma elect_candidate_ok:
  assumes inv: "log_inv h c" and e: "election_inv c" and st: "kind_step c (Elect i n' a) c'"
  shows "candidate_ok c' i"
proof -
  note l = kind_step_local [OF st, simplified]
  from l(5) obtain rnd where se: "startElection rnd (nodes c i) = Some (n', a)"
    and less: "currentTerm (nodes c i) < currentTerm n'" by auto
  note f = startElection_Some [OF se]
  let ?t = "currentTerm n'" and ?es = "entries (log (nodes c i))"
  have "(\<exists>Q. majority_set (ids c) Q \<and>
      (\<forall>q \<in> Q. ?t < currentTerm (nodes c' q) \<and> \<not> voted (net_set c') q ?t i))"
    if x: "x \<in> set ?es" "?t < le_Term x" for x
  proof -
    have "traced h ?es" using log_invD(2) [OF inv l(4)] by (simp add: node_log_ok_def)
    then obtain m lg where "h (le_Term x) = Some (m, lg)"
      using x traced_term_pos by blast
    then have "wins (ids c) (net_set c) (le_Term x) m"
      using log_invD(1) [OF inv] by (auto simp: leader_log_ok_def)
    then obtain Q where Q: "majority_set (ids c) Q"
      and vt: "\<And>q. q \<in> Q \<Longrightarrow> voted (net_set c) q (le_Term x) m" by (auto simp: wins_def)
    have "?t < currentTerm (nodes c' q) \<and> \<not> voted (net_set c') q ?t i" if "q \<in> Q" for q
    proof -
      have gt: "?t < currentTerm (nodes c' q)"
        using voted_voter_term [OF e vt [OF that]] kind_term_mono [OF st, of q] x(2)
        by (meson order.strict_trans1 order.strict_trans2)
      moreover have "\<not> voted (net_set c) q ?t i"
        using voted_own_term [OF e, of q ?t i] less by auto
      ultimately show ?thesis using kind_new_vote [OF st, of q ?t i] by auto
    qed
    with Q show ?thesis by blast
  qed
  then have "(\<forall>x \<in> set ?es. le_Term x \<le> ?t) \<or> (\<exists>Q. majority_set (ids c) Q \<and>
      (\<forall>q \<in> Q. ?t < currentTerm (nodes c' q) \<and> \<not> voted (net_set c') q ?t i))"
    by (meson not_le)
  moreover have "0 < ?t" using less by (auto simp: word_gt_0)
  ultimately show ?thesis by (simp add: candidate_ok_def Let_def l(1,2) f)
qed

lemma elect_log_inv:
  assumes inv: "log_inv h c" and e: "election_inv c" "election_inv c'"
    and st: "kind_step c (Elect i n' a) c'"
  shows "log_inv (record_leaders c' h) c'"
proof -
  note l = kind_step_local [OF st, simplified]
  from l(5) obtain rnd where se: "startElection rnd (nodes c i) = Some (n', a)"
    and less: "currentTerm (nodes c i) < currentTerm n'" by auto
  note f = startElection_Some [OF se]
  have h: "record_leaders c' h = h" by (rule record_same [OF inv e(2) st]) (simp add: f)
  have "traced h (entries (log (nodes c i)))"
    using log_invD(2) [OF inv l(4)] by (simp add: node_log_ok_def)
  then show ?thesis
    using less elect_candidate_ok [OF inv e(1) st]
    by (intro log_inv_step [OF inv e(2) st refl]) (auto simp: h f msg_ok_def)
qed

subsection \<open>Winning one\<close>

lemma win_fresh:
  assumes inv: "log_inv h c" and e: "election_inv c" and e': "election_inv c'"
    and st: "kind_step c (Win i n') c'"
  shows "h (currentTerm (nodes c i)) = None"
    "\<forall>x \<in> set (entries (log (nodes c i))). le_Term x \<le> currentTerm (nodes c i)"
    "wins (ids c) (net_set c) (currentTerm (nodes c i)) i" "0 < currentTerm (nodes c i)"
proof -
  note l = kind_step_local [OF st, simplified]
  let ?t = "currentTerm (nodes c i)"
  from l(5) have n': "state n' = Leader" "currentTerm n' = ?t" and cand: "state (nodes c i) = Candidate"
    by auto
  show w: "wins (ids c) (net_set c) ?t i"
    using e' l n' by (auto simp: election_inv_def leader_inv_def)
  show "h ?t = None"
  proof (rule ccontr)
    assume "h ?t \<noteq> None"
    then obtain m lg where "h ?t = Some (m, lg)" by (metis not_None_eq surj_pair)
    then have ok: "leader_log_ok h c ?t m lg" by (rule log_invD(1) [OF inv])
    then have "m = i" using w wins_unique [of c] e by (auto simp: leader_log_ok_def election_inv_def)
    with ok cand show False by (auto simp: leader_log_ok_def)
  qed
  have ok: "candidate_ok c i" using log_invD(2) [OF inv l(4)] cand by (simp add: node_log_ok_def)
  then show "0 < ?t" by (simp add: candidate_ok_def Let_def)
  obtain Q' where Q': "majority_set (ids c) Q'" "\<forall>q \<in> Q'. voted (net_set c) q ?t i"
    using w by (auto simp: wins_def)
  have False if "majority_set (ids c) Q" "\<forall>q \<in> Q. \<not> voted (net_set c) q ?t i" for Q
    using majority.common_member [OF that(1) Q'(1)] that(2) Q'(2) by blast
  with ok show "\<forall>x \<in> set (entries (log (nodes c i))). le_Term x \<le> ?t"
    unfolding candidate_ok_def Let_def by blast
qed

lemma win_log_inv:
  assumes inv: "log_inv h c" and e: "election_inv c" "election_inv c'"
    and st: "kind_step c (Win i n') c'"
  shows "log_inv (record_leaders c' h) c'"
proof -
  note l = kind_step_local [OF st, simplified]
  note w = win_fresh [OF inv e st]
  from l(5) have f: "state n' = Leader" "currentTerm n' = currentTerm (nodes c i)"
    "log n' = log (nodes c i)" "state (nodes c i) = Candidate" by auto
  have h: "record_leaders c' h = h(currentTerm (nodes c i) \<mapsto> (i, entries (log (nodes c i))))"
    using record_step [OF inv e(2) st] by (simp add: f)
  have ext: "hext h (record_leaders c' h)" unfolding h by (rule hext_upd) (simp add: w(1))
  have tr: "traced (record_leaders c' h) (entries (log (nodes c i)))"
    using traced_mono [OF ext] log_invD(2) [OF inv l(4)] by (simp add: node_log_ok_def)
  show ?thesis
    by (rule log_inv_step [OF inv e(2) st refl ext])
      (use w l tr in \<open>simp_all add: f leader_log_ok_def\<close>)
qed

subsection \<open>Client commands and accepted requests\<close>

lemma extend_log:
  assumes inv: "log_inv h c" and i: "i \<in> set (ids c)" and k: "kind_ok c (Extend i n' cmd)"
  defines "x \<equiv> \<lparr>le_Term = currentTerm (nodes c i),
      le_Index = of_nat (length (entries (log (nodes c i)))), le_Command = cmd\<rparr>"
  shows "entries (log n') = entries (log (nodes c i)) @ [x]"
    "entries_ok (entries (log (nodes c i)) @ [x])" "state n' = Leader"
    "currentTerm n' = currentTerm (nodes c i)" "commitIndex n' = commitIndex (nodes c i)"
    "matchIndex n' = matchIndex (nodes c i)" "nextIndex n' = nextIndex (nodes c i)"
proof -
  let ?n = "nodes c i" and ?es = "entries (log (nodes c i))"
  from k obtain l w where lead: "state ?n = Leader" and n': "n' = ?n\<lparr>log := l, wal := w\<rparr>"
    and ap: "Append (log ?n) [\<lparr>le_Term = currentTerm ?n, le_Index = LastIndex (log ?n) + 1,
        le_Command = cmd\<rparr>] = Some l" by auto
  have ok: "entries_ok ?es" using log_invD(2) [OF inv i] by (auto simp: node_log_ok_def traced_ok)
  have "LastIndex (log ?n) + 1 = of_nat (length ?es)"
    using entries_ok_len [OF ok] by (simp add: LastIndex_def go_len_def)
  then have l: "entries l = ?es @ [x]" "Suc (length ?es) < max_len"
    using ap by (auto simp: Append_def bind_eq_Some_conv go_append_Some x_def)
  show "entries (log n') = ?es @ [x]" by (simp add: n' l)
  have "0 < currentTerm ?n"
    using log_invD(1) [OF inv leader_hist [OF inv i lead]] by (simp add: leader_log_ok_def)
  then show "entries_ok (?es @ [x])"
    by (intro entries_ok_snoc [OF ok l(2)]) (simp_all add: x_def)
  show "state n' = Leader" "currentTerm n' = currentTerm ?n" "commitIndex n' = commitIndex ?n"
    "matchIndex n' = matchIndex ?n" "nextIndex n' = nextIndex ?n"
    by (simp_all add: n' lead)
qed

lemma extend_log_inv:
  assumes inv: "log_inv h c" and e: "election_inv c" "election_inv c'"
    and st: "kind_step c (Extend i n' cmd) c'"
  shows "log_inv (record_leaders c' h) c'"
proof -
  note l = kind_step_local [OF st, simplified]
  note f = extend_log [OF inv l(4) kind_step_local(5) [OF st]]
  let ?t = "currentTerm (nodes c i)" and ?es = "entries (log (nodes c i))"
  let ?x = "\<lparr>le_Term = ?t, le_Index = of_nat (length ?es), le_Command = cmd\<rparr>"
  from l(5) have lead: "state (nodes c i) = Leader" by auto
  note old = leader_hist [OF inv l(4) lead]
  have h: "record_leaders c' h = h(?t \<mapsto> (i, ?es @ [?x]))"
    using record_step [OF inv e(2) st] by (simp add: f)
  have ext: "hext h (record_leaders c' h)" unfolding h by (rule hext_upd) (auto simp: old)
  have ok: "leader_log_ok h c ?t i ?es" by (rule log_invD(1) [OF inv old])
  have tr: "traced (record_leaders c' h) (?es @ [?x])"
    using traced_mono [OF ext] ok f(2)
    by (intro traced_snoc [where m = i]) (auto simp: leader_log_ok_def h)
  have keep: "leader_log_ok (record_leaders c' h) c' ?t i ?es"
    by (rule leader_log_keep [OF st ok ext]) (simp add: f)
  show ?thesis
    by (rule log_inv_step [OF inv e(2) st refl ext])
      (use tr keep in \<open>simp_all add: f leader_log_ok_def\<close>)
qed

text \<open>What an accepted request does to the follower.\<close>

lemma accept_node:
  assumes inv: "log_inv h c" and i: "i \<in> set (ids c)"
    and k: "kind_ok c (Accept i n' src kd a r n4)"
    and lg: "traced h lg" "from_log lg a"
  shows "entries (log n') =
      (if prefix lg (entries (log (nodes c i))) then entries (log (nodes c i)) else lg)"
    "state n' = Follower" "currentTerm n' = ae_Term a" "currentTerm (nodes c i) \<le> ae_Term a"
    "ae_Entries a = drop (Suc (unat (ae_PrevLogIndex a))) lg"
    "unat (ae_PrevLogIndex a) < length lg"
    "n' = update_commit (ae_LeaderCommit a) n4" "log n4 = log n'"
    "commitIndex n4 = commitIndex (nodes c i)"
proof -
  from k obtain rnd where le: "currentTerm (nodes c i) \<le> ae_Term a"
    and chk: "check_prev a (accept_leader rnd a (nodes c i)) = Some None"
    and loop: "append_entries_loop (ae_PrevLogIndex a + 1) (ae_Entries a)
      (accept_leader rnd a (nodes c i)) = Some n4"
    and n': "n' = update_commit (ae_LeaderCommit a) n4" by (auto simp: Let_def)
  have tr: "traced h (entries (log (accept_leader rnd a (nodes c i))))"
    using log_invD(2) [OF inv i] by (simp add: node_log_ok_def)
  note al = accept_log [OF tr lg chk loop] and f = append_loop_frame [OF loop]
  show "entries (log n') =
      (if prefix lg (entries (log (nodes c i))) then entries (log (nodes c i)) else lg)"
    using al(1) by (simp add: n')
  show "state n' = Follower" "currentTerm n' = ae_Term a" "currentTerm (nodes c i) \<le> ae_Term a"
    "ae_Entries a = drop (Suc (unat (ae_PrevLogIndex a))) lg"
    "unat (ae_PrevLogIndex a) < length lg"
    "n' = update_commit (ae_LeaderCommit a) n4" "log n4 = log n'"
    "commitIndex n4 = commitIndex (nodes c i)"
    using al(2,3) f le by (simp_all add: n')
qed

lemma accept_log_inv:
  assumes inv: "log_inv h c" and e: "election_inv c" "election_inv c'"
    and st: "kind_step c (Accept i n' src kd a r n4) c'"
  shows "log_inv (record_leaders c' h) c'"
proof -
  note l = kind_step_local [OF st, simplified]
  have m: "AppendReq src i kd a \<in> net_set c" using l(5) by simp
  then obtain lg where lg: "traced h lg" "from_log lg a"
    using log_invD(3) [OF inv m] by (auto simp: msg_ok_def)
  note f = accept_node [OF inv l(4) kind_step_local(5) [OF st] lg]
  have h: "record_leaders c' h = h" by (rule record_same [OF inv e(2) st]) (simp add: f(2))
  have "traced h (entries (log (nodes c i)))"
    using log_invD(2) [OF inv l(4)] by (simp add: node_log_ok_def)
  then show ?thesis
    using no_rival [OF inv e(1) m] lg(1)
    by (intro log_inv_step [OF inv e(2) st refl]) (auto simp: h f(1-4) msg_ok_def)
qed

lemma kind_log_inv:
  assumes inv: "log_inv h c" and e: "election_inv c" "election_inv c'" and st: "kind_step c x c'"
  shows "log_inv (record_leaders c' h) c'"
proof (cases x)
  case (Elect i n' a)
  with st show ?thesis by (auto intro: elect_log_inv [OF inv e])
next
  case (Win i n')
  with st show ?thesis by (auto intro: win_log_inv [OF inv e])
next
  case (Accept i n' src k a r n4)
  with st show ?thesis by (auto intro: accept_log_inv [OF inv e])
next
  case (Extend i n' cmd)
  with st show ?thesis by (auto intro: extend_log_inv [OF inv e])
qed (use same_kinds_log_inv [OF inv e st] in simp_all)

interpretation logs: history_invariant log_inv
  by unfold_locales (auto intro: init_log_inv kind_log_inv)

section \<open>How the history grows\<close>

lemma record_win:
  assumes inv: "log_inv h c" and e: "election_inv c" "election_inv c'"
    and st: "kind_step c (Win i n') c'"
  shows "record_leaders c' h = h(currentTerm (nodes c i) \<mapsto> (i, entries (log (nodes c i))))"
  using record_step [OF inv e(2) st] kind_step_local(5) [OF st] by auto

lemma record_extend:
  assumes inv: "log_inv h c" and e: "election_inv c" "election_inv c'"
    and st: "kind_step c (Extend i n' cmd) c'"
  shows "record_leaders c' h = h(currentTerm (nodes c i) \<mapsto> (i, entries (log n')))"
  using record_step [OF inv e(2) st]
    extend_log [OF inv _ kind_step_local(5) [OF st]] kind_step_local(4) [OF st] by simp

lemma record_other:
  assumes inv: "log_inv h c" and e: "election_inv c" "election_inv c'" and st: "kind_step c x c'"
    and x: "\<And>i n'. x \<noteq> Win i n'" "\<And>i n' cmd. x \<noteq> Extend i n' cmd"
  shows "record_leaders c' h = h"
proof (rule record_same [OF inv e(2) st])
  note k = kind_step_local(5) [OF st] and i = kind_step_local(4) [OF st]
  assume lead: "state (kind_new c x) = Leader"
  show "state (nodes c (kind_node x)) = Leader \<and>
      currentTerm (kind_new c x) = currentTerm (nodes c (kind_node x)) \<and>
      log (kind_new c x) = log (nodes c (kind_node x))"
  proof (cases x)
    case (Elect j n' a)
    with k lead show ?thesis by (auto dest: startElection_Some(6))
  next
    case (Grant j n' y a r)
    with k obtain rnd where h: "HandleRequestVote rnd a (nodes c j) = Some (n', r)" by auto
    from lead show ?thesis
      by (auto simp: Grant HandleRequestVote_frame [OF h] max_def split: if_splits)
  next
    case (Accept j n' src kd a r n4)
    with k show ?thesis using lead by (auto simp: Let_def dest: append_loop_frame(5))
  next
    case (Matched j n' p es)
    with k have "advanceCommitIndexLocked (record_match p es (nodes c j)) = Some n'" by auto
    with lead show ?thesis by (simp add: Matched advanceCommit_frame)
  qed (use k lead x in \<open>auto simp: calm_def rearm_heartbeat_def split: option.splits\<close>)
qed

lemma kind_hext:
  assumes inv: "log_inv h c" and e: "election_inv c" "election_inv c'" and st: "kind_step c x c'"
  shows "hext h (record_leaders c' h)"
proof (cases "(\<exists>i n'. x = Win i n') \<or> (\<exists>i n' cmd. x = Extend i n' cmd)")
  case True
  then show ?thesis
  proof
    assume "\<exists>i n'. x = Win i n'"
    then obtain i n' where x: "x = Win i n'" by blast
    show ?thesis
      unfolding record_win [OF inv e st [unfolded x]]
      by (rule hext_upd) (simp add: win_fresh(1) [OF inv e st [unfolded x]])
  next
    assume "\<exists>i n' cmd. x = Extend i n' cmd"
    then obtain i n' cmd where x: "x = Extend i n' cmd" by blast
    note k = kind_step_local(4,5) [OF st [unfolded x], simplified]
    have "h (currentTerm (nodes c i)) = Some (i, entries (log (nodes c i)))"
      using leader_hist [OF inv k(1)] k(2) by simp
    then show ?thesis
      unfolding record_extend [OF inv e st [unfolded x]]
      by (intro hext_upd)
        (simp add: extend_log(1) [OF inv k(1) kind_step_local(5) [OF st [unfolded x]]])
  qed
next
  case False
  then show ?thesis using record_other [OF inv e st] by simp
qed

lemma hext_trans: "hext h1 h2 \<Longrightarrow> hext h2 h3 \<Longrightarrow> hext h1 h3"
  unfolding hext_def by (meson prefix_order.trans)

lemma hreach_extend:
  assumes r: "reachable c1 c2" and h: "hreach (init_cluster is w) h1 c1" and ok: "ids_ok is"
  obtains h2 where "hreach (init_cluster is w) h2 c2" "hext h1 h2"
proof -
  from r have "\<exists>h2. hreach (init_cluster is w) h2 c2 \<and> hext h1 h2"
  proof (induction rule: reachable.induct)
    case start
    with h show ?case by auto
  next
    case (step c e c')
    then obtain h2 where h2: "hreach (init_cluster is w) h2 c" "hext h1 h2" by blast
    have inv: "election_inv c" "ids_ok (ids c)"
      using hreach_reachable [OF h2(1) init_election_inv] ok by (auto simp: init_cluster_def)
    have l: "log_inv h2 c" by (rule logs.hreach_inv [OF h2(1) ok])
    show ?case
    proof (cases "c' = c")
      case True
      with h2 show ?thesis by blast
    next
      case False
      then have cs: "cstep c c'" using exec_cstep [OF step(3)] by blast
      obtain x where x: "kind_step c x c'" using cstep_kind [OF inv(1) step(2) cs] by blast
      have "hext h2 (record_leaders c' h2)"
        by (rule kind_hext [OF l inv(1) cstep_election_inv [OF inv step(2) cs] x])
      then show ?thesis using hreach.step [OF h2(1) step(2) cs] hext_trans [OF h2(2)] by blast
    qed
  qed
  then show thesis using that by blast
qed

section \<open>Log properties\<close>

lemma reachable_log_inv:
  assumes "ids_ok is" "reachable (init_cluster is w) c1" "reachable c1 c2"
  obtains h1 h2 where "log_inv h1 c1" "log_inv h2 c2" "hext h1 h2"
    "ids c1 = is" "ids c2 = is"
proof -
  obtain h1 where h1: "log_inv h1 c1" "hreach (init_cluster is w) h1 c1"
    using logs.reachable_hist [OF assms(2,1)] .
  obtain h2 where h2: "hreach (init_cluster is w) h2 c2" "hext h1 h2"
    using hreach_extend [OF assms(3) h1(2) assms(1)] .
  have "ids c1 = is" "ids c2 = is"
    using elections.reachable_inv(2) [OF assms(2,1)]
      elections.reachable_inv(2) [OF reachable_trans [OF assms(3,2)] assms(1)] by auto
  then show thesis using that h1(1) logs.hreach_inv [OF h2(1) assms(1)] h2(2) by blast
qed

text \<open>
  C8. Log matching. If the log of one node at one moment of a run and the log of any node at the
  same or a later moment hold entries with the same term at the same index, then the two logs are
  identical, commands included, in all entries up to that index.
\<close>

theorem log_matching:
  assumes "ids_ok is" and "reachable (init_cluster is w) c1" and "reachable c1 c2"
    and "i \<in> set is" and "j \<in> set is"
    and "k < length (entries (log (nodes c1 i)))" and "k < length (entries (log (nodes c2 j)))"
    and "le_Term (entries (log (nodes c1 i)) ! k) = le_Term (entries (log (nodes c2 j)) ! k)"
  shows "take (Suc k) (entries (log (nodes c1 i))) = take (Suc k) (entries (log (nodes c2 j)))"
proof -
  obtain h1 h2 where h: "log_inv h1 c1" "log_inv h2 c2" "hext h1 h2" "ids c1 = is" "ids c2 = is"
    using reachable_log_inv [OF assms(1-3)] .
  have "traced h2 (entries (log (nodes c1 i)))" "traced h2 (entries (log (nodes c2 j)))"
    using log_invD(2) [OF h(1)] log_invD(2) [OF h(2)] traced_mono [OF h(3)] assms(4,5) h(4,5)
    by (auto simp: node_log_ok_def)
  then show ?thesis using assms(6-8) by (rule traced_agree)
qed

text \<open>A run in which \<open>a\<close> takes a command as leader and copies it to \<open>b\<close>.\<close>

definition submit_one :: "event list" where
  "submit_one = elect_a @ [Submit ''a'' ''x'']"

definition copy_to_b :: "event list" where
  "copy_to_b = [ReplicateTick ''a'' ''b'', Deliver 3 5]"

theorem log_matching_witness:
  "\<exists>c1 c2. ids_ok [''a'', ''b'', ''c''] \<and> reachable three_nodes c1 \<and> reachable c1 c2 \<and>
     length (entries (log (nodes c1 ''a''))) = 2 \<and> length (entries (log (nodes c2 ''b''))) = 2 \<and>
     take 2 (entries (log (nodes c1 ''a''))) = take 2 (entries (log (nodes c2 ''b'')))"
proof -
  have ok: "ids_ok [''a'', ''b'', ''c'']" by (simp add: ids_ok_def)
  have "after submit_one three_nodes (\<lambda>c1. length (entries (log (nodes c1 ''a''))) = 2 \<and>
      le_Term (entries (log (nodes c1 ''a'')) ! 1) = 1 \<and>
      after copy_to_b c1 (\<lambda>c2. length (entries (log (nodes c2 ''b''))) = 2 \<and>
        le_Term (entries (log (nodes c2 ''b'')) ! 1) = 1))"
    by code_simp
  then obtain c1 c2 where c1: "reachable three_nodes c1" "length (entries (log (nodes c1 ''a''))) = 2"
      "le_Term (entries (log (nodes c1 ''a'')) ! 1) = 1"
    and c2: "reachable c1 c2" "length (entries (log (nodes c2 ''b''))) = 2"
      "le_Term (entries (log (nodes c2 ''b'')) ! 1) = 1"
    by (auto elim!: afterE)
  have "take (Suc 1) (entries (log (nodes c1 ''a''))) = take (Suc 1) (entries (log (nodes c2 ''b'')))"
    by (rule log_matching [OF ok c1(1) [unfolded three_nodes_def] c2(1)])
      (use c1(2,3) c2(2,3) in simp_all)
  then show ?thesis using ok c1 c2 by (metis Suc_1)
qed

lemma leader_log_grows:
  assumes h: "log_inv h1 c1" "log_inv h2 c2" "hext h1 h2"
    and i: "i \<in> set (ids c1)" "i \<in> set (ids c2)"
    and lead: "state (nodes c1 i) = Leader" "state (nodes c2 i) = Leader"
    and tm: "currentTerm (nodes c1 i) = currentTerm (nodes c2 i)"
  shows "prefix (entries (log (nodes c1 i))) (entries (log (nodes c2 i)))"
  using leader_hist [OF h(1) i(1) lead(1)] leader_hist [OF h(2) i(2) lead(2)] hextD [OF h(3)] tm
  by force

text \<open>
  C14. Leader append-only. As long as a node leads in a term, its log only grows: the log at an
  earlier moment is a prefix of the log at a later one, whatever requests, replies and commands
  arrive in between.
\<close>

theorem leader_append_only:
  assumes "ids_ok is" and "reachable (init_cluster is w) c1" and "reachable c1 c2"
    and "i \<in> set is" and "state (nodes c1 i) = Leader" and "state (nodes c2 i) = Leader"
    and "currentTerm (nodes c1 i) = currentTerm (nodes c2 i)"
  shows "prefix (entries (log (nodes c1 i))) (entries (log (nodes c2 i)))"
proof -
  obtain h1 h2 where h: "log_inv h1 c1" "log_inv h2 c2" "hext h1 h2" "ids c1 = is" "ids c2 = is"
    using reachable_log_inv [OF assms(1-3)] .
  show ?thesis by (rule leader_log_grows [OF h(1-3)]) (use assms(4-7) h(4,5) in simp_all)
qed

theorem leader_append_only_witness:
  "\<exists>c1 c2. ids_ok [''a'', ''b'', ''c''] \<and> reachable three_nodes c1 \<and> reachable c1 c2 \<and>
     state (nodes c1 ''a'') = Leader \<and> state (nodes c2 ''a'') = Leader \<and>
     prefix (entries (log (nodes c1 ''a''))) (entries (log (nodes c2 ''a'')))"
proof -
  have ok: "ids_ok [''a'', ''b'', ''c'']" by (simp add: ids_ok_def)
  have "after elect_a three_nodes (\<lambda>c1. state (nodes c1 ''a'') = Leader \<and>
      currentTerm (nodes c1 ''a'') = 1 \<and>
      after [Submit ''a'' ''x''] c1 (\<lambda>c2. state (nodes c2 ''a'') = Leader \<and>
        currentTerm (nodes c2 ''a'') = 1))"
    by code_simp
  then obtain c1 c2 where c1: "reachable three_nodes c1" "state (nodes c1 ''a'') = Leader"
      "currentTerm (nodes c1 ''a'') = 1"
    and c2: "reachable c1 c2" "state (nodes c2 ''a'') = Leader" "currentTerm (nodes c2 ''a'') = 1"
    by (auto elim!: afterE)
  have "prefix (entries (log (nodes c1 ''a''))) (entries (log (nodes c2 ''a'')))"
    by (rule leader_append_only [OF ok c1(1) [unfolded three_nodes_def] c2(1)])
      (simp_all add: c1(2,3) c2(2,3))
  then show ?thesis using ok c1 c2 by metis
qed

end
