(* ===== verification/Raft_Commit.thy ===== *)
theory Raft_Commit
  imports Raft_Log_Matching
begin

text \<open>
  Commitment. An entry that a leader created in its own term is committed once a majority has
  acknowledged it to that leader. The invariant says that a later leader either has every such
  entry or a majority can no longer acknowledge it, so that committed entries are in the logs
  of all later leaders and the committed prefixes of all nodes agree.
\<close>

section \<open>Prefixes of leader logs\<close>

definition pfx :: "hist \<Rightarrow> Term \<Rightarrow> nat \<Rightarrow> LogEntry list" where
  "pfx h t i = take (Suc i) (snd (the (h t)))"

text \<open>Index \<open>i\<close> holds an entry that the leader of \<open>t\<close> created in its own term.\<close>

definition own_entry :: "hist \<Rightarrow> Term \<Rightarrow> nat \<Rightarrow> bool" where
  "own_entry h t i \<longleftrightarrow> (\<exists>m lg. h t = Some (m, lg) \<and> i < length lg \<and> le_Term (lg ! i) = t)"

text \<open>Some later leader does not have that entry.\<close>

definition lacking :: "hist \<Rightarrow> Term \<Rightarrow> nat \<Rightarrow> bool" where
  "lacking h t i \<longleftrightarrow> (\<exists>u m lg. t < u \<and> h u = Some (m, lg) \<and> \<not> prefix (pfx h t i) lg)"

definition compat :: "'a list \<Rightarrow> 'a list \<Rightarrow> bool" where
  "compat xs ys \<longleftrightarrow> prefix xs ys \<or> prefix ys xs"

text \<open>A node has acknowledged index \<open>i\<close> to the leader of \<open>t\<close>; the leader acknowledges its own log.\<close>

definition acked :: "hist \<Rightarrow> cluster \<Rightarrow> NodeID \<Rightarrow> Term \<Rightarrow> nat \<Rightarrow> bool" where
  "acked h c q t i \<longleftrightarrow>
     (\<exists>d k es r. AppendResp q d k t es r \<in> net_set c \<and> aer_Success r \<and> es \<noteq> [] \<and>
        i \<le> unat (le_Index (last es))) \<or>
     (\<exists>lg. h t = Some (q, lg) \<and> i < length lg)"

definition committed :: "hist \<Rightarrow> cluster \<Rightarrow> Term \<Rightarrow> nat \<Rightarrow> bool" where
  "committed h c t i \<longleftrightarrow> own_entry h t i \<and>
     (\<exists>Q. majority_set (ids c) Q \<and> (\<forall>q \<in> Q. acked h c q t i))"

text \<open>The first \<open>k + 1\<close> entries of \<open>es\<close> are covered by an entry committed in a term up to \<open>u\<close>.\<close>

definition covered :: "hist \<Rightarrow> cluster \<Rightarrow> LogEntry list \<Rightarrow> LogIndex \<Rightarrow> Term \<Rightarrow> bool" where
  "covered h c es k u \<longleftrightarrow> k = 0 \<or>
     (\<exists>t i. committed h c t i \<and> t \<le> u \<and> unat k \<le> i \<and> unat k < length es \<and>
        take (Suc (unat k)) es = take (Suc (unat k)) (pfx h t i))"

section \<open>The invariant\<close>

definition completeness_inv :: "hist \<Rightarrow> cluster \<Rightarrow> bool" where
  "completeness_inv h c \<longleftrightarrow> (\<forall>t i u m lg.
     own_entry h t i \<longrightarrow> t < u \<longrightarrow> h u = Some (m, lg) \<longrightarrow>
     prefix (pfx h t i) lg \<or>
     (\<exists>Q. majority_set (ids c) Q \<and>
        (\<forall>q \<in> Q. t < currentTerm (nodes c q) \<and> \<not> acked h c q t i)))"

definition ack_kept_inv :: "hist \<Rightarrow> cluster \<Rightarrow> bool" where
  "ack_kept_inv h c \<longleftrightarrow> (\<forall>t i q.
     own_entry h t i \<longrightarrow> q \<in> set (ids c) \<longrightarrow> acked h c q t i \<longrightarrow>
     prefix (pfx h t i) (entries (log (nodes c q))) \<or> lacking h t i)"

definition led_kept_inv :: "hist \<Rightarrow> cluster \<Rightarrow> bool" where
  "led_kept_inv h c \<longleftrightarrow> (\<forall>u q lg t i.
     h u = Some (q, lg) \<longrightarrow> t \<le> u \<longrightarrow> own_entry h t i \<longrightarrow> prefix (pfx h t i) lg \<longrightarrow>
     prefix (pfx h t i) (entries (log (nodes c q))) \<or> lacking h t i)"

definition voter_inv :: "hist \<Rightarrow> cluster \<Rightarrow> bool" where
  "voter_inv h c \<longleftrightarrow> (\<forall>q n t i.
     voted (net_set c) q (currentTerm (nodes c n)) n \<longrightarrow> state (nodes c n) = Candidate \<longrightarrow>
     t < currentTerm (nodes c n) \<longrightarrow> own_entry h t i \<longrightarrow> acked h c q t i \<longrightarrow>
     prefix (pfx h t i) (entries (log (nodes c n))) \<or> lacking h t i)"

definition ballot_inv :: "cluster \<Rightarrow> bool" where
  "ballot_inv c \<longleftrightarrow> (\<forall>n p a.
     VoteReq n p a \<in> net_set c \<longrightarrow> rv_Term a = currentTerm (nodes c n) \<longrightarrow>
     state (nodes c n) = Candidate \<longrightarrow>
     rv_LastLogIndex a = LastIndex (log (nodes c n)) \<and>
     Some (rv_LastLogTerm a) = LastTerm (log (nodes c n)))"

definition request_ok :: "hist \<Rightarrow> cluster \<Rightarrow> NodeID \<Rightarrow> AppendEntriesArgs \<Rightarrow> LogEntry list \<Rightarrow> bool" where
  "request_ok h c src a lg \<longleftrightarrow>
     traced h lg \<and> from_log lg a \<and>
     (\<forall>t i. own_entry h t i \<longrightarrow> t \<le> ae_Term a \<longrightarrow> compat lg (pfx h t i) \<or> lacking h t i) \<and>
     ((\<exists>lg'. h (ae_Term a) = Some (src, lg') \<and> prefix lg lg') \<or>
      ae_Term a < currentTerm (nodes c src)) \<and>
     covered h c lg (ae_LeaderCommit a) (ae_Term a)"

definition message_inv :: "hist \<Rightarrow> cluster \<Rightarrow> bool" where
  "message_inv h c \<longleftrightarrow>
     (\<forall>src dst k a. AppendReq src dst k a \<in> net_set c \<longrightarrow> (\<exists>lg. request_ok h c src a lg)) \<and>
     (\<forall>src dst u k. HbTask src dst u k \<in> net_set c \<longrightarrow>
        k \<le> commitIndex (nodes c src) \<and>
        (k = 0 \<or> (\<exists>t i. committed h c t i \<and> t \<le> u \<and> unat k \<le> i)))"

definition answer_inv :: "hist \<Rightarrow> cluster \<Rightarrow> bool" where
  "answer_inv h c \<longleftrightarrow> (\<forall>q d k t es r.
     AppendResp q d k t es r \<in> net_set c \<longrightarrow> aer_Success r \<longrightarrow> es \<noteq> [] \<longrightarrow>
     t \<le> currentTerm (nodes c q) \<and>
     (\<exists>lg. h t = Some (d, lg) \<and>
        (unat (le_Index (last es)) < length lg \<or> t < currentTerm (nodes c d))))"

definition commit_inv :: "hist \<Rightarrow> cluster \<Rightarrow> bool" where
  "commit_inv h c \<longleftrightarrow> (\<forall>q \<in> set (ids c).
     covered h c (entries (log (nodes c q))) (commitIndex (nodes c q)) (currentTerm (nodes c q)))"

definition match_inv :: "hist \<Rightarrow> cluster \<Rightarrow> bool" where
  "match_inv h c \<longleftrightarrow> (\<forall>q \<in> set (ids c). \<forall>p \<in> set (peers (nodes c q)).
     state (nodes c q) = Leader \<longrightarrow> go_get 0 (matchIndex (nodes c q)) p \<noteq> 0 \<longrightarrow>
     acked h c p (currentTerm (nodes c q)) (unat (go_get 0 (matchIndex (nodes c q)) p)))"

definition safety_inv :: "hist \<Rightarrow> cluster \<Rightarrow> bool" where
  "safety_inv h c \<longleftrightarrow> log_inv h c \<and> completeness_inv h c \<and> ack_kept_inv h c \<and> led_kept_inv h c \<and>
     voter_inv h c \<and> ballot_inv c \<and> message_inv h c \<and> answer_inv h c \<and> commit_inv h c \<and>
     match_inv h c"

section \<open>Basic facts\<close>

lemma compat_same: "prefix xs zs \<Longrightarrow> prefix ys zs \<Longrightarrow> compat xs ys"
  by (auto simp: compat_def dest: prefix_same_cases)

lemma compat_long: "compat xs ys \<Longrightarrow> length ys \<le> length xs \<Longrightarrow> prefix ys xs"
  by (auto simp: compat_def prefix_def)

lemma own_entry_pfx:
  assumes "own_entry h t i"
  obtains m lg where "h t = Some (m, lg)" "i < length lg" "le_Term (lg ! i) = t"
    "pfx h t i = take (Suc i) lg" "length (pfx h t i) = Suc i" "prefix (pfx h t i) lg"
proof -
  from assms obtain m lg where lg: "h t = Some (m, lg)" "i < length lg" "le_Term (lg ! i) = t"
    by (auto simp: own_entry_def)
  show thesis by (rule that [OF lg]) (use lg in \<open>simp_all add: pfx_def take_is_prefix\<close>)
qed

lemma own_entry_ext:
  assumes "hext h h'" "own_entry h t i"
  shows "own_entry h' t i" "pfx h' t i = pfx h t i"
proof -
  obtain m lg where lg: "h t = Some (m, lg)" "i < length lg" "le_Term (lg ! i) = t"
    using assms(2) by (auto simp: own_entry_def)
  obtain lg' where lg': "h' t = Some (m, lg')" "prefix lg lg'" using hextD [OF assms(1) lg(1)] by blast
  have "lg' ! i = lg ! i" "i < length lg'" "take (Suc i) lg' = take (Suc i) lg"
    using lg(2) lg'(2) by (auto simp: prefix_def nth_append)
  then show "own_entry h' t i" "pfx h' t i = pfx h t i"
    using lg lg' by (auto simp: own_entry_def pfx_def)
qed

lemma acked_le: "acked h c q t i \<Longrightarrow> j \<le> i \<Longrightarrow> acked h c q t j"
  unfolding acked_def by (meson le_less_trans order_trans)

section \<open>A step with its history\<close>

definition hstep :: "hist \<Rightarrow> cluster \<Rightarrow> kind \<Rightarrow> hist \<Rightarrow> cluster \<Rightarrow> bool" where
  "hstep h c x h' c' \<longleftrightarrow> log_inv h c \<and> election_inv c \<and> election_inv c' \<and> kind_step c x c' \<and>
     h' = record_leaders c' h"

lemma hstepD:
  assumes "hstep h c x h' c'"
  shows "log_inv h c" "log_inv h' c'" "election_inv c" "election_inv c'" "kind_step c x c'"
    "hext h h'" "h' = record_leaders c' h"
  using assms kind_log_inv kind_hext by (auto simp: hstep_def)

lemma hstep_other:
  assumes "hstep h c x h' c'" "\<And>i n'. x \<noteq> Win i n'" "\<And>i n' cmd. x \<noteq> Extend i n' cmd"
  shows "h' = h"
  using assms record_other by (auto simp: hstep_def)

text \<open>Entries of a term above that of the whole log, and entries that a leader adds.\<close>

lemma traced_sorted:
  assumes "log_inv h c" "traced h es" "i \<le> j" "j < length es"
  shows "le_Term (es ! i) \<le> le_Term (es ! j)"
proof (cases "j = 0")
  case True
  with assms(3) show ?thesis by simp
next
  case False
  then obtain m lg where lg: "h (le_Term (es ! j)) = Some (m, lg)" "prefix (take (Suc j) es) lg"
    using traced_nth [OF assms(2)] assms(4) by blast
  then have "es ! i \<in> set lg"
    using assms(3,4) by (auto simp: prefix_def intro!: nth_mem [of i "take (Suc j) es", simplified])
  then show ?thesis using log_invD(1) [OF assms(1) lg(1)] by (auto simp: leader_log_ok_def)
qed

lemma own_entry_in:
  assumes "log_inv h c" "h u = Some (m, lg)" "i < length lg" "le_Term (lg ! i) = t" "0 < i"
  shows "own_entry h t i" "prefix (pfx h t i) lg"
proof -
  have tr: "traced h lg" using log_invD(1) [OF assms(1,2)] by (simp add: leader_log_ok_def)
  obtain m' lg' where lg': "h t = Some (m', lg')" "prefix (take (Suc i) lg) lg'"
    using traced_nth [OF tr assms(5,3)] assms(4) by auto
  then have eq: "take (Suc i) lg' = take (Suc i) lg"
    using assms(3) by (auto simp: prefix_def)
  moreover have "i < length lg'" using prefix_length_le [OF lg'(2)] assms(3) by simp
  ultimately show "own_entry h t i" "prefix (pfx h t i) lg"
    using lg'(1) assms(3,4) by (auto simp: own_entry_def pfx_def take_is_prefix dest: take_eq_nth [where i = i])
qed

text \<open>The leader that extends its log.\<close>

lemma hstep_extend:
  assumes st: "hstep h c (Extend i n' cmd) h' c'"
  defines "t \<equiv> currentTerm (nodes c i)" and "es \<equiv> entries (log (nodes c i))"
  shows "h t = Some (i, es)" "h' = h(t \<mapsto> (i, entries (log n')))"
    "\<exists>e. entries (log n') = es @ [e] \<and> le_Term e = t" "i \<in> set (ids c)"
    "currentTerm (nodes c' i) = t" "entries (log (nodes c' i)) = entries (log n')"
proof -
  note d = hstepD [OF st]
  note l = kind_step_local [OF d(5), simplified]
  note f = extend_log [OF d(1) l(4) kind_step_local(5) [OF d(5)]]
  show "i \<in> set (ids c)" by (rule l(4))
  show "h t = Some (i, es)" using leader_hist [OF d(1) l(4)] l(5) by (simp add: t_def es_def)
  show "h' = h(t \<mapsto> (i, entries (log n')))"
    using record_extend [OF d(1,3,4,5)] d(7) by (simp add: t_def)
  show "\<exists>e. entries (log n') = es @ [e] \<and> le_Term e = t" by (simp add: f(1) es_def t_def)
  show "currentTerm (nodes c' i) = t" "entries (log (nodes c' i)) = entries (log n')"
    by (simp_all add: l(2) f(4) t_def)
qed

lemma hstep_win:
  assumes st: "hstep h c (Win i n') h' c'"
  defines "t \<equiv> currentTerm (nodes c i)" and "es \<equiv> entries (log (nodes c i))"
  shows "h t = None" "h' = h(t \<mapsto> (i, es))" "i \<in> set (ids c)" "wins (ids c) (net_set c) t i"
    "state (nodes c i) = Candidate" "entries (log (nodes c' i)) = es"
proof -
  note d = hstepD [OF st]
  note l = kind_step_local [OF d(5), simplified]
  note w = win_fresh [OF d(1,3,4,5)]
  show "h t = None" "wins (ids c) (net_set c) t i" using w by (auto simp: t_def)
  show "h' = h(t \<mapsto> (i, es))" using record_win [OF d(1,3,4,5)] d(7) by (simp add: t_def es_def)
  show "i \<in> set (ids c)" by (rule l(4))
  show "state (nodes c i) = Candidate" "entries (log (nodes c' i)) = es"
    using l(2,5) by (auto simp: es_def)
qed

text \<open>Only a leader's append makes a new own entry.\<close>

lemma new_own_entry:
  assumes st: "hstep h c x h' c'" and new: "own_entry h' t i" "\<not> own_entry h t i"
  obtains j n' cmd where "x = Extend j n' cmd" "t = currentTerm (nodes c j)"
    "i = length (entries (log (nodes c j)))" "pfx h' t i = entries (log n')"
proof (cases x)
  case (Win j n')
  note w = hstep_win [OF st [unfolded Win]]
  note d = hstepD [OF st]
  obtain m lg where lg: "h' t = Some (m, lg)" "i < length lg" "le_Term (lg ! i) = t"
    using new(1) by (auto simp: own_entry_def)
  have "h t \<noteq> Some (m, lg)" using new(2) lg by (auto simp: own_entry_def)
  then have t: "t = currentTerm (nodes c j)" and es: "lg = entries (log (nodes c j))"
    using lg(1) w(2) by (auto split: if_splits)
  have tr: "traced h lg" using log_invD(2) [OF d(1) w(3)] by (simp add: node_log_ok_def es)
  have "0 < t" using log_invD(1) [OF d(2) lg(1)] by (simp add: leader_log_ok_def)
  then have "0 < i"
    using lg(2,3) entries_ok_sentinel [OF traced_ok [OF tr]] by (cases i) (auto simp: sentinel_def)
  then have "h t \<noteq> None" using traced_nth [OF tr _ lg(2)] lg(3) by fastforce
  with w(1) t show thesis by simp
next
  case (Extend j n' cmd)
  note f = hstep_extend [OF st [unfolded Extend]]
  obtain m lg where lg: "h' t = Some (m, lg)" "i < length lg" "le_Term (lg ! i) = t"
    using new(1) by (auto simp: own_entry_def)
  have "h t \<noteq> Some (m, lg)" using new(2) lg by (auto simp: own_entry_def)
  then have t: "t = currentTerm (nodes c j)" and es: "lg = entries (log n')"
    using lg(1) f(2) by (auto split: if_splits)
  obtain e where e: "lg = entries (log (nodes c j)) @ [e]" using f(3) es by blast
  have "\<not> i < length (entries (log (nodes c j)))"
    using new(2) f(1) t lg(3) e by (auto simp: own_entry_def nth_append)
  with lg(2) e have i: "i = length (entries (log (nodes c j)))" by simp
  have "length lg = Suc i" using e i by simp
  then show thesis by (intro that [OF Extend t i]) (use lg(1) es in \<open>simp add: pfx_def\<close>)
qed (use new hstep_other [OF st] in simp_all)

section \<open>Monotonicity\<close>

lemma hstep_log_grows:
  assumes st: "hstep h c x h' c'" and u: "h u = Some (m, lg)" "h' u = Some (m, lg')"
  shows "lg' = lg \<or> (\<exists>e. lg' = lg @ [e] \<and> le_Term e = u)"
proof (cases x)
  case (Win i n')
  note w = hstep_win [OF st [unfolded Win]]
  from u w(1,2) show ?thesis by (auto split: if_splits)
next
  case (Extend i n' cmd)
  note f = hstep_extend [OF st [unfolded Extend]]
  from u f(1,2,3) show ?thesis by (auto split: if_splits)
qed (use u hstep_other [OF st] in simp_all)

text \<open>A leader that lacks an entry of an earlier term never gets it while it leads.\<close>

lemma prefix_pfx_back:
  assumes st: "hstep h c x h' c'" and oe: "own_entry h t i"
    and u: "t < u" "h u = Some (m, lg)" "h' u = Some (m, lg')" and p: "prefix (pfx h t i) lg'"
  shows "prefix (pfx h t i) lg"
proof -
  obtain m0 l0 where l0: "i < length l0" "le_Term (l0 ! i) = t" "pfx h t i = take (Suc i) l0"
    "length (pfx h t i) = Suc i" using own_entry_pfx [OF oe] by blast
  have at: "i < length lg'" "le_Term (lg' ! i) = t"
    using p l0 prefix_nth [OF p, of i] prefix_length_le [OF p] by auto
  have "i < length lg"
    using hstep_log_grows [OF st u(2,3)] at u(1) by (auto simp: nth_append less_Suc_eq split: if_splits)
  moreover have "prefix lg lg'" using hstep_log_grows [OF st u(2,3)] by auto
  ultimately show ?thesis using p l0(4) by (intro prefix_length_prefix [of _ lg' lg]) auto
qed

lemma lacking_mono:
  assumes st: "hstep h c x h' c'" and oe: "own_entry h t i" and l: "lacking h t i"
  shows "lacking h' t i"
proof -
  from l obtain u m lg where u: "t < u" "h u = Some (m, lg)" "\<not> prefix (pfx h t i) lg"
    by (auto simp: lacking_def)
  obtain lg' where lg': "h' u = Some (m, lg')" using hextD [OF hstepD(6) [OF st] u(2)] by blast
  have "\<not> prefix (pfx h t i) lg'" using prefix_pfx_back [OF st oe u(1,2) lg'] u(3) by blast
  then show ?thesis
    unfolding lacking_def own_entry_ext(2) [OF hstepD(6) [OF st] oe] using u(1) lg' by blast
qed

lemma acked_mono:
  assumes st: "hstep h c x h' c'" and a: "acked h c q t i"
  shows "acked h' c' q t i"
proof -
  have net: "net_set c \<subseteq> net_set c'" using kind_step_local(3) [OF hstepD(5) [OF st]] by blast
  have "\<exists>lg'. h' t = Some (q, lg') \<and> i < length lg'" if lg: "h t = Some (q, lg)" "i < length lg" for lg
  proof -
    obtain lg' where "h' t = Some (q, lg')" "prefix lg lg'"
      using hextD [OF hstepD(6) [OF st] lg(1)] by blast
    with lg(2) show ?thesis using prefix_length_le [of lg lg'] by auto
  qed
  with a net show ?thesis unfolding acked_def by blast
qed

lemma committed_mono:
  assumes st: "hstep h c x h' c'" and co: "committed h c t i"
  shows "committed h' c' t i"
  using co own_entry_ext(1) [OF hstepD(6) [OF st]] acked_mono [OF st]
    kind_step_local(1) [OF hstepD(5) [OF st]]
  unfolding committed_def by (metis (no_types))

lemma covered_mono:
  assumes st: "hstep h c x h' c'" and co: "covered h c es k u" and "u \<le> u'" "prefix es es'"
  shows "covered h' c' es' k u'"
proof (cases "k = 0")
  case False
  with co obtain t i where ti: "committed h c t i" "t \<le> u" "unat k \<le> i" "unat k < length es"
    "take (Suc (unat k)) es = take (Suc (unat k)) (pfx h t i)" by (auto simp: covered_def)
  have "pfx h' t i = pfx h t i"
    using own_entry_ext(2) [OF hstepD(6) [OF st]] ti(1) by (simp add: committed_def)
  moreover have "take (Suc (unat k)) es' = take (Suc (unat k)) es" "unat k < length es'"
    using ti(4) assms(4) by (auto simp: prefix_def)
  moreover have "t \<le> u'" using ti(2) assms(3) by (rule order_trans)
  ultimately show ?thesis
    unfolding covered_def using ti committed_mono [OF st ti(1)] by metis
qed (simp add: covered_def)

text \<open>A new acknowledgement of an existing entry is an accepted request of that term.\<close>

lemma new_acked:
  assumes st: "hstep h c x h' c'" and oe: "own_entry h t i"
    and a: "acked h' c' q t i" "\<not> acked h c q t i"
  obtains n' src k a r n4 where "x = Accept q n' src k a r n4" "ae_Term a = t" "ae_Entries a \<noteq> []"
    "i \<le> unat (le_Index (last (ae_Entries a)))"
proof -
  note d = hstepD [OF st]
  note l = kind_step_local [OF d(5)]
  obtain m lg where lg: "h t = Some (m, lg)" "i < length lg" using oe by (auto simp: own_entry_def)
  obtain lg' where lg': "h' t = Some (m, lg')" using hextD [OF d(6) lg(1)] by blast
  have "q \<noteq> m" using a(2) lg unfolding acked_def by blast
  with lg' have "\<nexists>lg. h' t = Some (q, lg) \<and> i < length lg" by simp
  with a(1) obtain dst k es r where m: "AppendResp q dst k t es r \<in> net_set c'" "aer_Success r"
    "es \<noteq> []" "i \<le> unat (le_Index (last es))" unfolding acked_def by blast
  with a(2) have new: "AppendResp q dst k t es r \<in> set (kind_msgs x)"
    unfolding acked_def l(3) by blast
  show thesis
  proof (cases x)
    case (Quiet j n' ms)
    with new l(5) have "is_refusal (AppendResp q dst k t es r)" by (metis kind_msgs.simps(1) kind_ok.simps(1))
    with m(2) show thesis by (simp add: is_refusal_def)
  next
    case (Reject j n' ms b)
    with l(5) obtain src k' r' where "ms = [AppendResp j src k' (ae_Term b) (ae_Entries b) r']"
      "\<not> aer_Success r'" unfolding Reject kind_ok.simps by blast
    with new Reject m(2) show thesis by simp
  next
    case (Accept j n' src k' b r' n4)
    with new have "j = q" "ae_Term b = t" "ae_Entries b = es" by simp_all
    with Accept m(3,4) show thesis by (intro that [of n' src k' b r' n4]) simp_all
  next
    case (Elect j n' b)
    with new show thesis by (simp add: image_iff)
  next
    case (Beat j n')
    with new show thesis by (simp add: image_iff)
  qed (use new in simp_all)
qed

lemma not_acked_keep:
  assumes st: "hstep h c x h' c'" and oe: "own_entry h t i"
    and q: "t < currentTerm (nodes c q)" "\<not> acked h c q t i"
  shows "t < currentTerm (nodes c' q) \<and> \<not> acked h' c' q t i"
proof
  show "t < currentTerm (nodes c' q)"
    using q(1) kind_term_mono [OF hstepD(5) [OF st], of q] by (rule less_le_trans)
  show "\<not> acked h' c' q t i"
  proof
    assume "acked h' c' q t i"
    then obtain n' src k a r n4 where x: "x = Accept q n' src k a r n4" "ae_Term a = t"
      by (rule new_acked [OF st oe _ q(2)])
    have "currentTerm (nodes c q) \<le> t"
      using kind_step_local(5) [OF hstepD(5) [OF st]] unfolding x(1) kind_ok.simps x(2) by blast
    with q(1) show False by simp
  qed
qed

section \<open>What a step does to a log\<close>

lemma log_change [consumes 1, case_names same grow accept]:
  assumes st: "hstep h c x h' c'"
  obtains "entries (log (nodes c' q)) = entries (log (nodes c q))"
  | e where "entries (log (nodes c' q)) = entries (log (nodes c q)) @ [e]"
  | n' src k a r n4 where "x = Accept q n' src k a r n4"
proof (cases "q = kind_node x")
  case False
  then show thesis by (intro that(1)) (simp add: kind_step_local(2) [OF hstepD(5) [OF st]])
next
  case True
  note l = kind_step_local [OF hstepD(5) [OF st]] and that_same = that(1)
  have same: thesis if eq: "log (kind_new c x) = log (nodes c q)"
    by (rule that_same) (use eq True in \<open>simp add: l(2)\<close>)
  show thesis
  proof (cases x)
    case (Quiet i n' ms)
    with l(5) True show thesis by (intro same) (simp add: calm_def)
  next
    case (Elect i n' a)
    with l(5) True show thesis by (intro same) (auto dest: startElection_Some(5))
  next
    case (Grant i n' y a r)
    with l(5) True show thesis by (intro same) (auto dest: HandleRequestVote_frame(3))
  next
    case (Win i n')
    with l(5) True show thesis by (intro same) auto
  next
    case (Beat i n')
    with l(5) True show thesis
      by (intro same) (simp add: rearm_heartbeat_def split: option.splits)
  next
    case (Build i p k t commit a)
    with True show thesis by (intro same) simp
  next
    case (Reject i n' ms a)
    with l(5) True show thesis by (intro same) auto
  next
    case (Accept i n' src k a r n4)
    with True show thesis by (intro that(3)) simp
  next
    case (Matched i n' p es)
    with l(5) True show thesis by (intro same) (auto dest: advanceCommit_frame(5))
  next
    case (Extend i n' cmd)
    note f = hstep_extend [OF st [unfolded Extend]]
    obtain e where "entries (log n') = entries (log (nodes c i)) @ [e]" using f(3) by blast
    with f(6) True Extend show thesis by (intro that(2) [of e]) simp
  qed
qed

lemma accept_request:
  assumes st: "hstep h c (Accept q n' src k a r n4) h' c'" and mi: "message_inv h c"
  obtains lg where "request_ok h c src a lg" "AppendReq src q k a \<in> net_set c"
    "entries (log (nodes c' q)) =
      (if prefix lg (entries (log (nodes c q))) then entries (log (nodes c q)) else lg)"
    "prefix lg (entries (log (nodes c' q)))"
    "currentTerm (nodes c q) \<le> ae_Term a" "currentTerm (nodes c' q) = ae_Term a"
    "ae_Entries a = drop (Suc (unat (ae_PrevLogIndex a))) lg" "traced h lg"
    "nodes c' q = update_commit (ae_LeaderCommit a) n4" "log n4 = log (nodes c' q)"
    "commitIndex n4 = commitIndex (nodes c q)"
proof -
  note d = hstepD [OF st]
  note l = kind_step_local [OF d(5), simplified]
  have m: "AppendReq src q k a \<in> net_set c" using l(5) by simp
  then obtain lg where lg: "request_ok h c src a lg" using mi unfolding message_inv_def by blast
  then have tr: "traced h lg" "from_log lg a" by (auto simp: request_ok_def)
  note f = accept_node [OF d(1) l(4) kind_step_local(5) [OF d(5)] tr]
  have n': "nodes c' q = n'" by (simp add: l(2))
  show thesis
    by (rule that [OF lg m, unfolded n'], rule f(1), simp add: f(1), rule f(4), rule f(3),
        rule f(5), rule tr(1), rule f(7), rule f(8), rule f(9))
qed

lemma keep_prefix:
  assumes st: "hstep h c x h' c'" and mi: "message_inv h c" and oe: "own_entry h t i"
    and t: "t \<le> currentTerm (nodes c q)"
    and p: "prefix (take k (pfx h t i)) (entries (log (nodes c q)))"
  shows "prefix (take k (pfx h t i)) (entries (log (nodes c' q))) \<or> lacking h t i"
  using st
proof (cases rule: log_change [where q = q])
  case same
  with p show ?thesis by simp
next
  case (grow e)
  with p show ?thesis by (simp add: prefix_prefix)
next
  case (accept n' src kd a r n4)
  let ?P = "take k (pfx h t i)" and ?es = "entries (log (nodes c q))"
  obtain lg where lg: "request_ok h c src a lg" "currentTerm (nodes c q) \<le> ae_Term a"
    "entries (log (nodes c' q)) = (if prefix lg ?es then ?es else lg)"
    using accept_request [OF st [unfolded accept] mi] by metis
  have "compat lg (pfx h t i) \<or> lacking h t i"
    using lg(1) oe order_trans [OF t lg(2)] by (simp add: request_ok_def)
  moreover have "prefix ?P (entries (log (nodes c' q)))" if "compat lg (pfx h t i)"
  proof (cases "prefix lg ?es")
    case True
    with lg(3) p show ?thesis by simp
  next
    case False
    have "compat lg ?P"
      using that take_is_prefix [of k "pfx h t i"] prefix_same_cases prefix_order.trans
      unfolding compat_def by blast
    moreover have "\<not> prefix lg ?P" using False p prefix_order.trans by blast
    ultimately show ?thesis using lg(3) False by (simp add: compat_def)
  qed
  ultimately show ?thesis by blast
qed

lemma keep_pfx:
  assumes "hstep h c x h' c'" "message_inv h c" "own_entry h t i"
    "t \<le> currentTerm (nodes c q)" "prefix (pfx h t i) (entries (log (nodes c q)))"
  shows "prefix (pfx h t i) (entries (log (nodes c' q))) \<or> lacking h t i"
  using keep_prefix [OF assms(1-4), of "length (pfx h t i)"] assms(5) by simp

section \<open>New entries\<close>

text \<open>An entry just created is known to its leader only.\<close>

lemma fresh_acked:
  assumes st: "hstep h c x h' c'" and an: "answer_inv h c"
    and new: "own_entry h' t i" "\<not> own_entry h t i" and a: "acked h' c' q t i"
  shows "h' t = Some (q, pfx h' t i)" "currentTerm (nodes c' q) = t"
    "entries (log (nodes c' q)) = pfx h' t i"
proof -
  obtain j n' cmd where x: "x = Extend j n' cmd" and t: "t = currentTerm (nodes c j)"
    and i: "i = length (entries (log (nodes c j)))" and p: "pfx h' t i = entries (log n')"
    using new_own_entry [OF st new] .
  note f = hstep_extend [OF st [unfolded x], folded t]
  have "net_set c' = net_set c" using kind_step_local(3) [OF hstepD(5) [OF st]] x by simp
  then have "\<not> (\<exists>d k es r. AppendResp q d k t es r \<in> net_set c' \<and> aer_Success r \<and> es \<noteq> [] \<and>
      i \<le> unat (le_Index (last es)))"
    using an f(1) t i unfolding answer_inv_def
    by (metis Pair_inject leD less_irrefl option.inject)
  then have "q = j" using a f(2) unfolding acked_def by (metis fst_conv fun_upd_same option.inject)
  then show "h' t = Some (q, pfx h' t i)" "currentTerm (nodes c' q) = t"
    "entries (log (nodes c' q)) = pfx h' t i"
    using f(2,5,6) p by simp_all
qed

lemma fresh_absent:
  assumes st: "hstep h c x h' c'" and new: "own_entry h' t i" "\<not> own_entry h t i"
    and u: "t < u" "h' u = Some (m, lg)"
  shows "\<not> prefix (pfx h' t i) lg"
proof
  assume p: "prefix (pfx h' t i) lg"
  obtain j n' cmd where x: "x = Extend j n' cmd" and t: "t = currentTerm (nodes c j)"
    and i: "i = length (entries (log (nodes c j)))"
    using new_own_entry [OF st new] .
  note f = hstep_extend [OF st [unfolded x], folded t]
  have hu: "h u = Some (m, lg)" using u f(2) by (auto split: if_splits)
  obtain m0 l0 where l0: "pfx h' t i = take (Suc i) l0" "i < length l0" "le_Term (l0 ! i) = t"
    "length (pfx h' t i) = Suc i" using own_entry_pfx [OF new(1)] by metis
  have at: "i < length lg" "le_Term (lg ! i) = t"
    using p l0 prefix_nth [OF p, of i] prefix_length_le [OF p] by auto
  have "0 < i"
    using log_invD(2) [OF hstepD(1) [OF st] f(4)] entries_ok_len i
    by (auto simp: node_log_ok_def dest!: traced_ok)
  then show False using own_entry_in(1) [OF hstepD(1) [OF st] hu at] new(2) by simp
qed

section \<open>Leaders have what was acknowledged\<close>

lemma completeness_step:
  assumes st: "hstep h c x h' c'" and ci: "completeness_inv h c" and vi: "voter_inv h c"
    and an: "answer_inv h c"
  shows "completeness_inv h' c'"
  unfolding completeness_inv_def
proof (intro allI impI)
  fix t i u m lg' assume oe': "own_entry h' t i" and tu: "t < u" and hu': "h' u = Some (m, lg')"
  note d = hstepD [OF st]
  note l = kind_step_local [OF d(5)]
  let ?out = "\<exists>Q. majority_set (ids c') Q \<and>
    (\<forall>q \<in> Q. t < currentTerm (nodes c' q) \<and> \<not> acked h' c' q t i)"
  have ids: "ids c' = ids c" by (rule l(1))
  show "prefix (pfx h' t i) lg' \<or> ?out"
  proof (cases "own_entry h t i")
    case False
    obtain Q where Q: "majority_set (ids c') Q" "\<forall>q \<in> Q. voted (net_set c') q u m"
      using log_invD(1) [OF d(2) hu'] by (auto simp: leader_log_ok_def wins_def)
    have "t < currentTerm (nodes c' q) \<and> \<not> acked h' c' q t i" if "q \<in> Q" for q
      using voted_voter_term [OF d(4), of q u m] Q(2) that tu
        fresh_acked(2) [OF st an oe' False, of q] by fastforce
    with Q(1) show ?thesis by blast
  next
    case oe: True
    have pf: "pfx h' t i = pfx h t i" by (rule own_entry_ext(2) [OF d(6) oe])
    have keep: ?out if "majority_set (ids c) Q"
      "\<forall>q \<in> Q. t < currentTerm (nodes c q) \<and> \<not> acked h c q t i" for Q
      using that not_acked_keep [OF st oe] unfolding ids by blast
    have lack: ?out if "lacking h t i"
      using that ci oe keep unfolding lacking_def completeness_inv_def by blast
    show ?thesis
    proof (cases "h u")
      case (Some p)
      then obtain lg where hu: "h u = Some (m, lg)" "prefix lg lg'"
        using hextD [OF d(6)] hu' by (cases p) force
      then show ?thesis
        using ci oe tu keep prefix_order.trans [OF _ hu(2)]
        unfolding completeness_inv_def pf by blast
    next
      case None
      then obtain j n' where x: "x = Win j n'"
        using hstep_other [OF st] hu' hstep_extend(1,2) [of h c _ _ _ h' c'] st
        by (metis fun_upd_apply option.discI)
      note w = hstep_win [OF st [unfolded x]]
      have u: "u = currentTerm (nodes c j)" and lg': "lg' = entries (log (nodes c j))"
        using None hu' w(2) by (auto split: if_splits)
      obtain Q where Q: "majority_set (ids c) Q" "\<forall>q \<in> Q. voted (net_set c) q u j"
        using w(4) u by (auto simp: wins_def)
      show ?thesis
      proof (cases "\<exists>q \<in> Q. acked h c q t i")
        case True
        then have "prefix (pfx h t i) lg' \<or> lacking h t i"
          using vi Q(2) w(5) oe tu unfolding voter_inv_def u lg' by blast
        with lack pf show ?thesis by auto
      next
        case False
        have "t < currentTerm (nodes c q)" if "q \<in> Q" for q
          using voted_voter_term [OF d(3), of q u j] Q(2) that tu by fastforce
        with False keep Q(1) show ?thesis by blast
      qed
    qed
  qed
qed

section \<open>Nodes keep what they acknowledged or led\<close>

lemma acked_term:
  assumes "log_inv h c" "answer_inv h c" "acked h c q t i"
  shows "t \<le> currentTerm (nodes c q)"
  using assms(2,3) log_invD(1) [OF assms(1)]
  unfolding acked_def answer_inv_def leader_log_ok_def by blast

lemma last_entry_index:
  assumes "traced h lg" "drop p lg \<noteq> []"
  shows "Suc (unat (le_Index (last (drop p lg)))) = length lg"
proof -
  have ok: "entries_ok lg" by (rule traced_ok [OF assms(1)])
  have "last (drop p lg) = lg ! (length lg - 1)"
    using assms(2) by (simp add: last_conv_nth last_drop)
  moreover have "le_Index (lg ! (length lg - 1)) = of_nat (length lg - 1)"
    using entries_ok_len [OF ok] by (intro entries_ok_index [OF ok]) simp
  ultimately have "unat (le_Index (last (drop p lg))) = length lg - 1"
    using entries_ok_len [OF ok] unat_of_nat_len [of "length lg - 1"] by (metis diff_le_self less_imp_le order_trans)
  then show ?thesis using entries_ok_len [OF ok] by simp
qed

lemma ack_kept_step:
  assumes st: "hstep h c x h' c'" and ak: "ack_kept_inv h c" and mi: "message_inv h c"
    and an: "answer_inv h c"
  shows "ack_kept_inv h' c'"
  unfolding ack_kept_inv_def
proof (intro allI impI)
  fix t i q assume oe': "own_entry h' t i" and q: "q \<in> set (ids c')" and a': "acked h' c' q t i"
  note d = hstepD [OF st]
  show "prefix (pfx h' t i) (entries (log (nodes c' q))) \<or> lacking h' t i"
  proof (cases "own_entry h t i")
    case False
    then show ?thesis using fresh_acked(3) [OF st an oe' _ a'] by simp
  next
    case oe: True
    note pf = own_entry_ext(2) [OF d(6) oe]
    have "prefix (pfx h t i) (entries (log (nodes c' q))) \<or> lacking h t i"
    proof (cases "acked h c q t i")
      case True
      have "prefix (pfx h t i) (entries (log (nodes c q))) \<or> lacking h t i"
        using ak oe True q kind_step_local(1) [OF d(5)] unfolding ack_kept_inv_def by auto
      then show ?thesis using keep_pfx [OF st mi oe acked_term [OF d(1) an True]] by blast
    next
      case False
      obtain n' src k a r n4 where x: "x = Accept q n' src k a r n4" "ae_Term a = t"
        "ae_Entries a \<noteq> []" "i \<le> unat (le_Index (last (ae_Entries a)))"
        using new_acked [OF st oe a' False] .
      obtain lg where lg: "request_ok h c src a lg" "prefix lg (entries (log (nodes c' q)))"
        "ae_Entries a = drop (Suc (unat (ae_PrevLogIndex a))) lg" "traced h lg"
        using accept_request [OF st [unfolded x(1)] mi] by metis
      have "i < length lg" using x(3,4) last_entry_index [OF lg(4)] unfolding lg(3) by fastforce
      moreover have "length (pfx h t i) = Suc i" using own_entry_pfx [OF oe] by blast
      moreover have "compat lg (pfx h t i) \<or> lacking h t i"
        using lg(1) oe x(2) by (simp add: request_ok_def)
      ultimately show ?thesis using compat_long [of lg "pfx h t i"] prefix_order.trans [OF _ lg(2)] by auto
    qed
    then show ?thesis using pf lacking_mono [OF st oe] by auto
  qed
qed

lemma upd_neq: "f' = f(a := v) \<Longrightarrow> f' u \<noteq> f u \<Longrightarrow> u = a"
  by (cases "u = a") auto

lemma led_kept_step:
  assumes st: "hstep h c x h' c'" and lk: "led_kept_inv h c" and mi: "message_inv h c"
  shows "led_kept_inv h' c'"
  unfolding led_kept_inv_def
proof (intro allI impI)
  fix u q lg' t i
  assume hu': "h' u = Some (q, lg')" and tu: "t \<le> u" and oe': "own_entry h' t i"
    and p: "prefix (pfx h' t i) lg'"
  note d = hstepD [OF st]
  show "prefix (pfx h' t i) (entries (log (nodes c' q))) \<or> lacking h' t i"
  proof (cases "h u = Some (q, lg') \<and> own_entry h t i")
    case True
    then have oe: "own_entry h t i" and hu: "h u = Some (q, lg')" by auto
    note pf = own_entry_ext(2) [OF d(6) oe]
    have "prefix (pfx h t i) (entries (log (nodes c q))) \<or> lacking h t i"
      using lk [unfolded led_kept_inv_def, rule_format, OF hu tu oe] p pf by simp
    moreover have "t \<le> currentTerm (nodes c q)"
      using log_invD(1) [OF d(1) hu] order_trans [OF tu] by (simp add: leader_log_ok_def)
    ultimately have "prefix (pfx h t i) (entries (log (nodes c' q))) \<or> lacking h t i"
      using keep_pfx [OF st mi oe, of q] by blast
    then show ?thesis unfolding pf using lacking_mono [OF st oe] by blast
  next
    case False
    have "entries (log (nodes c' q)) = lg'" if "h u \<noteq> Some (q, lg')"
    proof (cases x)
      case (Win j n')
      note w = hstep_win [OF st [unfolded Win]]
      have "u = currentTerm (nodes c j)" by (rule upd_neq [OF w(2)]) (use that hu' in simp)
      then have "h' u = Some (j, entries (log (nodes c j)))" using w(2) by simp
      then show ?thesis using hu' w(6) by auto
    next
      case (Extend j n' cmd)
      note f = hstep_extend [OF st [unfolded Extend]]
      have "u = currentTerm (nodes c j)" by (rule upd_neq [OF f(2)]) (use that hu' in simp)
      then have "h' u = Some (j, entries (log n'))" using f(2) by simp
      then show ?thesis using hu' f(6) by auto
    qed (use hstep_other [OF st] that hu' in simp_all)
    moreover have "entries (log (nodes c' q)) = lg'" if no: "\<not> own_entry h t i"
    proof -
      have "\<not> t < u" using fresh_absent [OF st oe' no _ hu'] p by blast
      then have "u = t" using tu by simp
      obtain j n' cmd where x: "x = Extend j n' cmd" and t: "t = currentTerm (nodes c j)"
        "i = length (entries (log (nodes c j)))" "pfx h' t i = entries (log n')"
        using new_own_entry [OF st oe' no] .
      note f = hstep_extend [OF st [unfolded x], folded t(1)]
      have "h' u = Some (j, entries (log n'))" using f(2) \<open>u = t\<close> by simp
      then show ?thesis using f(6) hu' by simp
    qed
    ultimately have "entries (log (nodes c' q)) = lg'" using False by blast
    with p show ?thesis by simp
  qed
qed

end
