(* ===== verification/Raft_Commit_Rule.thy ===== *)
theory Raft_Commit_Rule
  imports Quorum_System "HOL-Library.Multiset"
begin

text \<open>
  The rule by which a leader commits. \<open>advanceCommitIndexLocked\<close> sorts the match indices and looks
  at one position; the comment above it states the rule as a search for the highest index with
  three conditions. The search is the reference definition here, and the code is shown equal
  to it on the logs a leader can have.
\<close>

section \<open>Reference rule\<close>

text \<open>More than half of the cluster, the leader included, has index \<open>N\<close>.\<close>

definition replicated :: "Node \<Rightarrow> LogIndex \<Rightarrow> bool" where
  "replicated n N \<longleftrightarrow>
     commit_majority (peers n) < int (length (filter (\<lambda>m. N \<le> m) (commit_matches n)))"

definition committable :: "Node \<Rightarrow> nat \<Rightarrow> bool" where
  "committable n i \<longleftrightarrow>
     unat (commitIndex n) < i \<and> le_Term (entries (log n) ! i) = currentTerm n \<and>
     replicated n (of_nat i)"

definition reference_commit :: "Node \<Rightarrow> LogIndex" where
  "reference_commit n =
     (case filter (committable n) (rev [1..<length (entries (log n))]) of
        [] \<Rightarrow> commitIndex n
      | i # _ \<Rightarrow> of_nat i)"

section \<open>The sorted match indices\<close>

lemma filter_sorted_desc:
  fixes ys :: "'a :: linorder list"
  assumes "sorted (rev ys)"
  shows "filter (\<lambda>m. N \<le> m) ys = takeWhile (\<lambda>m. N \<le> m) ys"
  using assms
proof (induction ys)
  case (Cons y ys)
  have "filter (\<lambda>m. N \<le> m) ys = []" if "\<not> N \<le> y"
    using Cons.prems that by (fastforce simp: sorted_append filter_empty_conv)
  with Cons show ?case by (auto simp: sorted_append)
qed simp

lemma sorted_desc_nth:
  fixes xs :: "'a :: linorder list"
  assumes "k < length xs"
  shows "N \<le> rev (sort xs) ! k \<longleftrightarrow> k < length (filter (\<lambda>m. N \<le> m) xs)"
proof -
  let ?ys = "rev (sort xs)"
  have "mset (filter (\<lambda>m. N \<le> m) ?ys) = mset (filter (\<lambda>m. N \<le> m) xs)" by simp
  then have "length (filter (\<lambda>m. N \<le> m) xs) = length (filter (\<lambda>m. N \<le> m) ?ys)"
    by (metis mset_eq_length)
  also have "\<dots> = length (takeWhile (\<lambda>m. N \<le> m) ?ys)"
    by (subst filter_sorted_desc) simp_all
  finally have len: "length (filter (\<lambda>m. N \<le> m) xs) = length (takeWhile (\<lambda>m. N \<le> m) ?ys)" .
  have desc: "?ys ! k \<le> ?ys ! j" if "j \<le> k" for j
    using that assms by (auto simp: rev_nth intro!: sorted_nth_mono)
  show ?thesis
  proof
    assume N: "N \<le> ?ys ! k"
    have "\<forall>j \<le> k. N \<le> ?ys ! j" using N desc order_trans by blast
    then have "Suc k \<le> length (takeWhile (\<lambda>m. N \<le> m) ?ys)"
      using assms by (intro length_takeWhile_less_P_nth) auto
    then show "k < length (filter (\<lambda>m. N \<le> m) xs)" by (simp add: len)
  next
    assume "k < length (filter (\<lambda>m. N \<le> m) xs)"
    then have "k < length (takeWhile (\<lambda>m. N \<le> m) ?ys)" by (simp add: len)
    then show "N \<le> ?ys ! k"
      by (metis (mono_tags, lifting) nth_mem set_takeWhileD takeWhile_nth)
  qed
qed

text \<open>The index the code looks at.\<close>

definition candidate_commit :: "Node \<Rightarrow> LogIndex" where
  "candidate_commit n = sort_desc (commit_matches n) ! nat (commit_majority (peers n))"

lemma majority_in_range:
  "0 \<le> commit_majority ps" "commit_majority (peers n) < go_len (commit_matches n)"
  "nat (commit_majority (peers n)) < length (commit_matches n)"
  by (simp_all add: commit_majority_def commit_matches_def go_len_def)

lemma replicated_iff: "replicated n N \<longleftrightarrow> N \<le> candidate_commit n"
  using sorted_desc_nth [OF majority_in_range(3), of N n] majority_in_range(1) [of "peers n"]
  by (simp add: replicated_def candidate_commit_def sort_desc_def nat_less_iff)

lemma sort_desc_len: "go_len (sort_desc xs) = go_len xs"
  by (simp add: go_len_def sort_desc_def)

lemma advance_eq:
  "advanceCommitIndexLocked n =
     (if candidate_commit n > commitIndex n \<and> Contains (log n) (candidate_commit n) then
        do { t \<leftarrow> TermAt (log n) (candidate_commit n);
             Some (if t = currentTerm n
                   then n\<lparr>commitIndex := candidate_commit n,
                          committedEntries := go_int (candidate_commit n)\<rparr>
                   else n) }
      else Some n)"
  using majority_in_range(2) [of n]
  by (simp add: advanceCommitIndexLocked_def Let_def candidate_commit_def [symmetric] sort_desc_len)

text \<open>What an advance of the commit index means, whatever the log.\<close>

lemma advance_cases:
  assumes "advanceCommitIndexLocked n = Some n'"
  obtains (kept) "n' = n"
  | (advanced) "n' = n\<lparr>commitIndex := candidate_commit n,
        committedEntries := go_int (candidate_commit n)\<rparr>"
      "commitIndex n < candidate_commit n"
      "unat (candidate_commit n) < length (entries (log n))"
      "le_Term (entries (log n) ! unat (candidate_commit n)) = currentTerm n"
proof (cases "candidate_commit n > commitIndex n \<and> Contains (log n) (candidate_commit n)")
  case False
  with assms show thesis by (intro kept) (simp add: advance_eq)
next
  case True
  with assms obtain t where t: "TermAt (log n) (candidate_commit n) = Some t"
    by (auto simp: advance_eq bind_eq_Some_conv)
  then have len: "unat (candidate_commit n) < length (entries (log n))"
    using True TermAt_panics [of "log n" "candidate_commit n"]
    by (cases "unat (candidate_commit n) < length (entries (log n))") (auto simp: Contains_iff)
  show thesis
  proof (cases "t = currentTerm n")
    case False
    with True t assms show thesis by (intro kept) (simp add: advance_eq)
  next
    case same: True
    with True t assms len show thesis by (intro advanced) (auto simp: advance_eq)
  qed
qed

section \<open>The code implements the rule\<close>

lemma filter_rev_head:
  assumes "filter P (rev [1..<m]) = i # is"
  shows "P i" "i < m" "0 < i" "\<And>j. P j \<Longrightarrow> j < m \<Longrightarrow> 0 < j \<Longrightarrow> j \<le> i"
proof -
  have i: "i \<in> set (filter P (rev [1..<m]))" unfolding assms by simp
  then show "P i" "i < m" "0 < i" by auto
  fix j assume "P j" "j < m" "0 < j"
  then have "j \<in> set (i # is)" using assms [symmetric] by auto
  moreover have "sorted_wrt (>) (filter P (rev [1..<m]))"
    by (intro sorted_wrt_filter) (simp add: sorted_wrt_rev)
  ultimately show "j \<le> i" unfolding assms by auto
qed

lemma reference_commit_eqI:
  assumes "committable n i" "0 < i" "i < length (entries (log n))"
    and "\<And>j. committable n j \<Longrightarrow> j < length (entries (log n)) \<Longrightarrow> j \<le> i"
  shows "reference_commit n = of_nat i"
proof (cases "filter (committable n) (rev [1..<length (entries (log n))])")
  case Nil
  with assms(1-3) show ?thesis by (auto simp: filter_empty_conv)
next
  case (Cons k ks)
  note f = filter_rev_head [OF Cons]
  have "k = i" using f(4) [OF assms(1,3,2)] assms(4) [OF f(1,2)] by simp
  with Cons show ?thesis by (simp add: reference_commit_def)
qed

lemma reference_commit_none:
  assumes "\<And>i. i < length (entries (log n)) \<Longrightarrow> \<not> committable n i"
  shows "reference_commit n = commitIndex n"
proof -
  have "filter (committable n) (rev [1..<length (entries (log n))]) = []"
    using assms by (auto simp: filter_empty_conv)
  then show ?thesis by (simp add: reference_commit_def)
qed

text \<open>The logs a leader has: terms do not decrease and none exceeds its own.\<close>

definition leader_log_sorted :: "Node \<Rightarrow> bool" where
  "leader_log_sorted n \<longleftrightarrow> entries_ok (entries (log n)) \<and>
     sorted (map le_Term (entries (log n))) \<and> le_Term (last (entries (log n))) \<le> currentTerm n"

lemma leader_log_sorted_term:
  assumes "leader_log_sorted n" "i \<le> j" "j < length (entries (log n))"
    and "le_Term (entries (log n) ! i) = currentTerm n"
  shows "le_Term (entries (log n) ! j) = currentTerm n"
proof -
  let ?es = "entries (log n)"
  have ne: "?es \<noteq> []" using assms(3) by auto
  have mono: "le_Term (?es ! a) \<le> le_Term (?es ! b)" if "a \<le> b" "b < length ?es" for a b
    using assms(1) that sorted_nth_mono [of "map le_Term ?es" a b] by (simp add: leader_log_sorted_def)
  have "le_Term (?es ! j) \<le> le_Term (last ?es)"
    using mono [of j "length ?es - 1"] assms(3) ne by (simp add: last_conv_nth)
  moreover have "le_Term (last ?es) \<le> currentTerm n"
    using assms(1) by (simp add: leader_log_sorted_def)
  ultimately show ?thesis using mono [OF assms(2,3)] unfolding assms(4) by simp
qed

lemma matches_bound:
  assumes "\<forall>p \<in> set (peers n). go_get 0 (matchIndex n) p \<le> LastIndex (log n)"
  shows "candidate_commit n \<le> LastIndex (log n)"
proof -
  have "candidate_commit n \<in> set (sort_desc (commit_matches n))"
    unfolding candidate_commit_def
    by (rule nth_mem) (use majority_in_range(3) [of n] in \<open>simp add: sort_desc_def\<close>)
  then have "candidate_commit n \<in> set (commit_matches n)" by (simp add: sort_desc_def)
  then show ?thesis using assms by (auto simp: commit_matches_def)
qed

lemma committable_iff:
  assumes "i < length (entries (log n))" "length (entries (log n)) < max_len"
  shows "committable n i \<longleftrightarrow> unat (commitIndex n) < i \<and> i \<le> unat (candidate_commit n) \<and>
    le_Term (entries (log n) ! i) = currentTerm n"
  using assms by (auto simp: committable_def replicated_iff word_le_nat_alt)


definition leader_example :: Node where
  "leader_example = (NewNode ''a'' [''b'', ''c''] None)
     \<lparr>currentTerm := 2, state := Leader, matchIndex := [''b'' \<mapsto> 2],
      log := \<lparr>entries = [sentinel, \<lparr>le_Term = 1, le_Index = 1, le_Command = ''x''\<rparr>,
                        \<lparr>le_Term = 2, le_Index = 2, le_Command = ''y''\<rparr>]\<rparr>\<rparr>"


end
