(* ===== verification/Raft_Safety.thy ===== *)
theory Raft_Safety
  imports Raft_Commit Raft_Commit_Rule
begin

text \<open>
  Leader completeness and state machine safety: the rest of the invariant of \<open>Raft_Commit\<close>,
  its preservation by every step, and the theorems about committed entries.
\<close>

section \<open>Votes go to logs that have what the voter acknowledged\<close>

lemma traced_last:
  assumes "traced h es" "0 < le_Term (last es)"
  obtains m lg where "h (le_Term (last es)) = Some (m, lg)" "prefix es lg"
proof -
  have ne: "es \<noteq> []" using traced_ok [OF assms(1)] by (auto simp: entries_ok_def)
  then have last: "last es = es ! (length es - 1)" by (rule last_conv_nth)
  have "0 < length es - 1"
    using assms(2) ne last entries_ok_sentinel [OF traced_ok [OF assms(1)]]
    by (cases "length es - 1") (auto simp: sentinel_def)
  then obtain m lg where "h (le_Term (es ! (length es - 1))) = Some (m, lg)"
    "prefix (take (Suc (length es - 1)) es) lg"
    using ne by (elim traced_nth [OF assms(1)]) simp_all
  with ne last show thesis by (intro that [of m lg]) simp_all
qed

lemma up_to_date_prefix:
  assumes li: "log_inv h c" and oe: "own_entry h t i"
    and tr: "traced h es" "traced h fs" and p: "prefix (pfx h t i) es"
    and up: "le_Term (last fs) > le_Term (last es) \<or>
      le_Term (last fs) = le_Term (last es) \<and> length es \<le> length fs"
  shows "prefix (pfx h t i) fs \<or> lacking h t i"
proof -
  obtain m0 l0 where l0: "h t = Some (m0, l0)" "i < length l0" "le_Term (l0 ! i) = t"
    "pfx h t i = take (Suc i) l0" "length (pfx h t i) = Suc i" using own_entry_pfx [OF oe] .
  have ne: "es \<noteq> []" using p l0(5) by auto
  have i: "i < length es" "es ! i = l0 ! i"
    using p l0(2,4,5) prefix_length_le [OF p] prefix_nth [OF p, of i] by auto
  have "0 < t" using log_invD(1) [OF li l0(1)] by (simp add: leader_log_ok_def)
  moreover have "t \<le> le_Term (last es)"
    using traced_sorted [OF li tr(1), of i "length es - 1"] i l0(3) ne by (auto simp: last_conv_nth)
  ultimately have pos: "0 < le_Term (last es)" "0 < le_Term (last fs)" using up by auto
  obtain m lg where lg: "h (le_Term (last fs)) = Some (m, lg)" "prefix fs lg"
    using traced_last [OF tr(2) pos(2)] .
  show ?thesis
  proof (cases "le_Term (last fs) = le_Term (last es)")
    case True
    obtain m' lg' where lg': "h (le_Term (last es)) = Some (m', lg')" "prefix es lg'"
      using traced_last [OF tr(1) pos(1)] .
    with True lg(1) have "prefix es lg" by simp
    then have "prefix es fs" using lg(2) up True by (intro prefix_length_prefix [of es lg fs]) auto
    with p show ?thesis using prefix_order.trans by blast
  next
    case False
    with up \<open>t \<le> le_Term (last es)\<close> have less: "t < le_Term (last fs)" by auto
    show ?thesis
    proof (cases "prefix (pfx h t i) lg")
      case False
      with less lg(1) show ?thesis by (auto simp: lacking_def)
    next
      case True
      have "\<not> prefix fs (pfx h t i)"
      proof
        assume "prefix fs (pfx h t i)"
        then have "set fs \<subseteq> set (take (Suc i) l0)" unfolding l0(4) by (rule set_mono_prefix)
        moreover have "last fs \<in> set fs" using traced_ok [OF tr(2)] by (simp add: entries_ok_def)
        ultimately have "last fs \<in> set (take (Suc i) l0)" by blast
        then obtain j where j: "j \<le> i" "j < length l0" "last fs = l0 ! j"
          unfolding in_set_conv_nth length_take by (metis less_Suc_eq_le min_less_iff_conj nth_take)
        have "traced h l0" using log_invD(1) [OF li l0(1)] by (simp add: leader_log_ok_def)
        then show False using traced_sorted [OF li _ j(1) l0(2)] l0(3) j(3) less by simp
      qed
      then show ?thesis using prefix_same_cases [OF True lg(2)] by blast
    qed
  qed
qed

lemma up_to_date_logs:
  assumes "isLogUpToDate n (le_Term (last (entries l))) (LastIndex l) = Some True"
    "entries_ok (entries (log n))" "entries_ok (entries l)"
  shows "le_Term (last (entries l)) > le_Term (last (entries (log n))) \<or>
    le_Term (last (entries l)) = le_Term (last (entries (log n))) \<and>
    length (entries (log n)) \<le> length (entries l)"
proof -
  have "le_Term (last (entries l)) > le_Term (last (entries (log n))) \<or>
      le_Term (last (entries l)) = le_Term (last (entries (log n))) \<and>
      length (entries (log n)) - 1 \<le> length (entries l) - 1"
    using assms
    by (auto simp: isLogUpToDate_def LastTerm_ok word_le_nat_alt unat_LastIndex split: if_splits)
  then show ?thesis using entries_ok_len [OF assms(3)] by linarith
qed

text \<open>How a node comes to be a candidate.\<close>

lemma candidate_change [consumes 2, case_names same elect]:
  assumes st: "hstep h c x h' c'" and cand: "state (nodes c' n) = Candidate"
  obtains "state (nodes c n) = Candidate" "currentTerm (nodes c' n) = currentTerm (nodes c n)"
    "log (nodes c' n) = log (nodes c n)"
  | n' a where "x = Elect n n' a"
proof (cases "n = kind_node x")
  case False
  then show thesis using cand by (intro that(1)) (simp_all add: kind_step_local(2) [OF hstepD(5) [OF st]])
next
  case True
  note l = kind_step_local [OF hstepD(5) [OF st]] and keep = that(1) and el = that(2)
  have new: "nodes c' n = kind_new c x" by (simp add: l(2) True)
  have same: thesis if "state (nodes c n) = Candidate" "currentTerm (kind_new c x) = currentTerm (nodes c n)"
    "log (kind_new c x) = log (nodes c n)"
    by (rule keep) (use that new in simp_all)
  show thesis
  proof (cases x)
    case (Quiet i n' ms)
    with l(5) True new cand show thesis by (intro same) (auto simp: calm_def)
  next
    case (Elect i n' a)
    with True show thesis by (intro el) simp
  next
    case (Grant i n' y a r)
    with l(5) obtain rnd where h: "HandleRequestVote rnd a (nodes c i) = Some (n', r)" by auto
    note f = HandleRequestVote_frame [OF h]
    from cand new Grant have "state n' = Candidate" by simp
    then have "\<not> currentTerm (nodes c i) < rv_Term a" "state (nodes c i) = Candidate"
      by (auto simp: f split: if_splits)
    with True Grant show thesis by (intro same) (auto simp: f max_def)
  next
    case (Win i n')
    with l(5) have "state n' = Leader" by auto
    with new cand Win show thesis by simp
  next
    case (Beat i n')
    with l(5) True new cand show thesis
      by (intro same) (simp_all add: rearm_heartbeat_def split: option.splits)
  next
    case (Build i p k t commit a)
    with True new cand show thesis by (intro same) simp_all
  next
    case (Reject i n' ms a)
    with l(5) have "state n' = Follower" by auto
    with new cand Reject show thesis by simp
  next
    case (Accept i n' src k a r n4)
    with l(5) obtain rnd where loop: "append_entries_loop (ae_PrevLogIndex a + 1) (ae_Entries a)
        (accept_leader rnd a (nodes c i)) = Some n4" "n' = update_commit (ae_LeaderCommit a) n4"
      by (auto simp: Let_def)
    with new cand Accept show thesis by (simp add: append_loop_frame(5) [OF loop(1)])
  next
    case (Matched i n' p es)
    with l(5) have m: "advanceCommitIndexLocked (record_match p es (nodes c i)) = Some n'"
      "state (nodes c i) = Leader" by auto
    with new cand Matched show thesis by (simp add: advanceCommit_frame(6) [OF m(1)])
  next
    case (Extend i n' cmd)
    with l(5) have "state n' = Leader" by auto
    with new cand Extend show thesis by simp
  qed
qed

lemma ballot_step:
  assumes st: "hstep h c x h' c'" and bi: "ballot_inv c"
  shows "ballot_inv c'"
  unfolding ballot_inv_def
proof (intro allI impI)
  fix n p a
  assume m: "VoteReq n p a \<in> net_set c'" and t: "rv_Term a = currentTerm (nodes c' n)"
    and cand: "state (nodes c' n) = Candidate"
  note d = hstepD [OF st]
  note l = kind_step_local [OF d(5)]
  from st cand show "rv_LastLogIndex a = LastIndex (log (nodes c' n)) \<and>
      Some (rv_LastLogTerm a) = LastTerm (log (nodes c' n))"
  proof (cases rule: candidate_change)
    case same
    have "VoteReq n p a \<in> net_set c"
    proof (rule ccontr)
      assume "VoteReq n p a \<notin> net_set c"
      with m have new: "VoteReq n p a \<in> set (kind_msgs x)" using l(3) by blast
      then obtain n' where "x = Elect n n' a"
        using l(5) by (cases x) (auto simp: is_refusal_def)
      with same(2) l(2,5) show False by auto
    qed
    with bi same t show ?thesis unfolding ballot_inv_def by metis
  next
    case (elect n' b)
    from l(5) elect obtain rnd where se: "startElection rnd (nodes c n) = Some (n', b)"
      and less: "currentTerm (nodes c n) < currentTerm n'" by auto
    note f = startElection_Some [OF se]
    have n': "nodes c' n = n'" using l(2) elect by simp
    have "VoteReq n p a \<notin> net_set c"
    proof
      assume "VoteReq n p a \<in> net_set c"
      then have "voted (net_set c) n (rv_Term a) n" by (auto simp: voted_def is_candidacy_def)
      then show False using voted_own_term [OF d(3), of n "rv_Term a" n] t less n' by simp
    qed
    with m l(3) elect have "a = b" by auto
    then show ?thesis by (simp add: n' f)
  qed
qed

lemma accept_term:
  assumes "kind_step c (Accept q n' src k a r n4) c'"
  shows "currentTerm n' = ae_Term a" "currentTerm (nodes c q) \<le> ae_Term a"
proof -
  from kind_step_local(5) [OF assms] obtain rnd where le: "currentTerm (nodes c q) \<le> ae_Term a"
    and loop: "append_entries_loop (ae_PrevLogIndex a + 1) (ae_Entries a)
      (accept_leader rnd a (nodes c q)) = Some n4"
    and n': "n' = update_commit (ae_LeaderCommit a) n4" by (auto simp: Let_def)
  show "currentTerm (nodes c q) \<le> ae_Term a" by (rule le)
  with append_loop_frame(3) [OF loop] show "currentTerm n' = ae_Term a" by (simp add: n')
qed

lemma new_voted:
  assumes st: "hstep h c x h' c'" and v: "voted (net_set c') q t n" "\<not> voted (net_set c) q t n"
    and qn: "q \<noteq> n"
  obtains n' a r where "x = Grant q n' n a r" "rv_Term a = t"
proof -
  note l = kind_step_local [OF hstepD(5) [OF st]]
  from v have "voted (set (kind_msgs x)) q t n" by (simp add: l(3) voted_Un)
  with qn obtain r where m: "VoteResp q n t r \<in> set (kind_msgs x)" "rvr_VoteGranted r"
    by (auto simp: voted_def is_grant_def)
  show thesis
  proof (cases x)
    case (Quiet j n' ms)
    with m(1) l(5) have "is_refusal (VoteResp q n t r)"
      by (metis kind_msgs.simps(1) kind_ok.simps(1))
    with m(2) show thesis by (simp add: is_refusal_def)
  next
    case (Grant j n' y a r')
    with m(1) have "j = q" "y = n" "rv_Term a = t" by simp_all
    with Grant show thesis by (intro that [of n' a r']) simp_all
  next
    case (Reject j n' ms b)
    with l(5) obtain src k' r' where "ms = [AppendResp j src k' (ae_Term b) (ae_Entries b) r']"
      unfolding Reject kind_ok.simps by blast
    with m(1) Reject show thesis by simp
  next
    case (Elect j n' b)
    with m(1) show thesis by (simp add: image_iff)
  next
    case (Beat j n')
    with m(1) show thesis by (simp add: image_iff)
  qed (use m(1) in simp_all)
qed

lemma grant_up_to_date:
  assumes st: "hstep h c (Grant q n' n a r) h' c'" and bi: "ballot_inv c"
    and n: "state (nodes c n) = Candidate" "rv_Term a = currentTerm (nodes c n)" "n \<in> set (ids c)"
    and oe: "own_entry h t i" and p: "prefix (pfx h t i) (entries (log (nodes c q)))"
  shows "prefix (pfx h t i) (entries (log (nodes c n))) \<or> lacking h t i"
proof -
  note d = hstepD [OF st]
  note l = kind_step_local [OF d(5), simplified]
  from l(5) obtain rnd where m: "VoteReq n q a \<in> net_set c" "rvr_VoteGranted r"
    and hv: "HandleRequestVote rnd a (nodes c q) = Some (n', r)" by auto
  have tr: "traced h (entries (log (nodes c q)))" "traced h (entries (log (nodes c n)))"
    using log_invD(2) [OF d(1)] l(4) n(3) by (auto simp: node_log_ok_def)
  note ok = traced_ok [OF tr(1)] traced_ok [OF tr(2)]
  have b: "rv_LastLogIndex a = LastIndex (log (nodes c n))"
    "Some (rv_LastLogTerm a) = LastTerm (log (nodes c n))"
    using bi m(1) n(1,2) by (auto simp: ballot_inv_def)
  then have "rv_LastLogTerm a = le_Term (last (entries (log (nodes c n))))"
    using LastTerm_ok [OF ok(2)] by simp
  then have "isLogUpToDate (nodes c q) (le_Term (last (entries (log (nodes c n)))))
      (LastIndex (log (nodes c n))) = Some True"
    using HandleRequestVote_grant(5) [OF hv m(2)] b(1) by simp
  then show ?thesis
    by (intro up_to_date_prefix [OF d(1) oe tr p] up_to_date_logs [OF _ ok])
qed

lemma voter_step:
  assumes st: "hstep h c x h' c'" and vi: "voter_inv h c" and ak: "ack_kept_inv h c"
    and ak': "ack_kept_inv h' c'" and bi: "ballot_inv c" and an: "answer_inv h c"
  shows "voter_inv h' c'"
  unfolding voter_inv_def
proof (intro allI impI)
  fix q n t i
  let ?u = "currentTerm (nodes c' n)"
  assume v: "voted (net_set c') q ?u n" and cand: "state (nodes c' n) = Candidate"
    and tu: "t < ?u" and oe': "own_entry h' t i" and a': "acked h' c' q t i"
  note d = hstepD [OF st]
  note l = kind_step_local [OF d(5)]
  have qn: "q \<in> set (ids c')" "n \<in> set (ids c')"
    using voted_ids [OF _ v] d(4) by (auto simp: election_inv_def)
  have tq: "t < currentTerm (nodes c' q)" using voted_voter_term [OF d(4) v] tu by simp
  have oe: "own_entry h t i"
  proof (rule ccontr)
    assume "\<not> own_entry h t i"
    then show False using fresh_acked(2) [OF st an oe' _ a'] tq by simp
  qed
  note pf = own_entry_ext(2) [OF d(6) oe]
  show "prefix (pfx h' t i) (entries (log (nodes c' n))) \<or> lacking h' t i"
  proof (cases "q = n")
    case True
    then show ?thesis using ak' oe' a' qn(2) by (auto simp: ack_kept_inv_def)
  next
    case False
    have aq: "acked h c q t i"
    proof (rule ccontr)
      assume "\<not> acked h c q t i"
      then obtain n' src k a r n4 where x: "x = Accept q n' src k a r n4" "ae_Term a = t"
        "ae_Entries a \<noteq> []" "i \<le> unat (le_Index (last (ae_Entries a)))"
        using new_acked [OF st oe a'] by blast
      have "nodes c' q = n'" using l(2) x(1) by simp
      then show False
        using accept_term [OF d(5) [unfolded x(1)]] x(2) tq by simp
    qed
    from st cand show ?thesis
    proof (cases rule: candidate_change)
      case (elect n' b)
      then have "currentTerm (nodes c n) < ?u" using l(2,5) by auto
      then have "\<not> voted (net_set c) q ?u n" using voted_own_term [OF d(3), of q ?u n] by auto
      then obtain m' a' r' where "x = Grant q m' n a' r'" using new_voted [OF st v _ False] by blast
      with elect show ?thesis by simp
    next
      case same
      have "prefix (pfx h t i) (entries (log (nodes c n))) \<or> lacking h t i"
      proof (cases "voted (net_set c) q ?u n")
        case True
        then show ?thesis using vi same(1,2) tu oe aq by (simp add: voter_inv_def)
      next
        case no: False
        obtain n' a r where x: "x = Grant q n' n a r" "rv_Term a = ?u"
          using new_voted [OF st v no False] .
        have "prefix (pfx h t i) (entries (log (nodes c q))) \<or> lacking h t i"
          using ak oe aq qn(1) l(1) by (simp add: ack_kept_inv_def)
        then show ?thesis
          using grant_up_to_date [OF st [unfolded x(1)] bi same(1) _ _ oe] x(2) same(2) qn(2) l(1)
          by auto
      qed
      then show ?thesis using lacking_mono [OF st oe] pf same(3) by auto
    qed
  qed
qed

section \<open>Acknowledgements and requests\<close>

lemma new_answer:
  assumes st: "hstep h c x h' c'" and m: "AppendResp q d k t es r \<in> net_set c'"
    "AppendResp q d k t es r \<notin> net_set c" "aer_Success r"
  obtains n' a n4 where "x = Accept q n' d k a r n4" "ae_Term a = t" "ae_Entries a = es"
proof -
  note l = kind_step_local [OF hstepD(5) [OF st]]
  from m(1,2) have new: "AppendResp q d k t es r \<in> set (kind_msgs x)" using l(3) by blast
  show thesis
  proof (cases x)
    case (Quiet j n' ms)
    with new l(5) have "is_refusal (AppendResp q d k t es r)"
      by (metis kind_msgs.simps(1) kind_ok.simps(1))
    with m(3) show thesis by (simp add: is_refusal_def)
  next
    case (Reject j n' ms b)
    with l(5) obtain src k' r' where "ms = [AppendResp j src k' (ae_Term b) (ae_Entries b) r']"
      "\<not> aer_Success r'" unfolding Reject kind_ok.simps by blast
    with new Reject m(3) show thesis by simp
  next
    case (Accept j n' src k' b r' n4)
    with new have "j = q" "src = d" "k' = k" "ae_Term b = t" "ae_Entries b = es" "r' = r"
      by simp_all
    with Accept show thesis by (intro that [of n' b n4]) simp_all
  next
    case (Elect j n' b)
    with new show thesis by (simp add: image_iff)
  next
    case (Beat j n')
    with new show thesis by (simp add: image_iff)
  qed (use new in simp_all)
qed

lemma answer_step:
  assumes st: "hstep h c x h' c'" and an: "answer_inv h c" and mi: "message_inv h c"
  shows "answer_inv h' c'"
  unfolding answer_inv_def
proof (intro allI impI)
  fix q d k t es r
  assume m: "AppendResp q d k t es r \<in> net_set c'" "aer_Success r" "es \<noteq> []"
  note D = hstepD [OF st]
  have mono: "currentTerm (nodes c j) \<le> currentTerm (nodes c' j)" for j
    by (rule kind_term_mono [OF D(5)])
  let ?i = "unat (le_Index (last es))"
  have lift: "\<exists>lg. h' t = Some (d, lg) \<and> (?i < length lg \<or> t < currentTerm (nodes c' d))"
    if lg: "h t = Some (d, lg)" "?i < length lg \<or> t < currentTerm (nodes c d)" for lg
  proof -
    obtain lg' where "h' t = Some (d, lg')" "prefix lg lg'" using hextD [OF D(6) lg(1)] by blast
    then show ?thesis
      using lg(2) mono [of d] prefix_length_le [of lg lg'] by (meson less_le_trans)
  qed
  show "t \<le> currentTerm (nodes c' q) \<and>
      (\<exists>lg. h' t = Some (d, lg) \<and> (?i < length lg \<or> t < currentTerm (nodes c' d)))"
  proof (cases "AppendResp q d k t es r \<in> net_set c")
    case True
    with an m(2,3) have "t \<le> currentTerm (nodes c q)"
      "\<exists>lg. h t = Some (d, lg) \<and> (?i < length lg \<or> t < currentTerm (nodes c d))"
      unfolding answer_inv_def by blast+
    with lift mono [of q] show ?thesis using order_trans by blast
  next
    case False
    obtain n' a n4 where x: "x = Accept q n' d k a r n4" "ae_Term a = t" "ae_Entries a = es"
      using new_answer [OF st m(1) False m(2)] .
    obtain lg where lg: "request_ok h c d a lg" "AppendReq d q k a \<in> net_set c"
      "currentTerm (nodes c' q) = ae_Term a"
      "ae_Entries a = drop (Suc (unat (ae_PrevLogIndex a))) lg" "traced h lg"
      using accept_request [OF st [unfolded x(1)] mi] by metis
    obtain l0 where l0: "h t = Some (d, l0)"
      using log_invD(3) [OF D(1) lg(2)] x(2) by (auto simp: msg_ok_def)
    have "Suc ?i = length lg"
      using last_entry_index [OF lg(5)] m(3) unfolding x(3) [symmetric] lg(4) by blast
    moreover have "prefix lg l0 \<or> t < currentTerm (nodes c d)"
      using lg(1) l0 x(2) by (auto simp: request_ok_def)
    ultimately have "?i < length l0 \<or> t < currentTerm (nodes c d)"
      using prefix_length_le [of lg l0] by auto
    with lift [OF l0] lg(3) x(2) show ?thesis by simp
  qed
qed

lemma request_ok_step:
  assumes st: "hstep h c x h' c'" and ok: "request_ok h c src a lg"
    and src: "h (ae_Term a) = Some (src, l0)"
  shows "request_ok h' c' src a lg"
proof -
  note d = hstepD [OF st]
  have "compat lg (pfx h' t i) \<or> lacking h' t i"
    if oe': "own_entry h' t i" and t: "t \<le> ae_Term a" for t i
  proof (cases "own_entry h t i")
    case True
    then have "compat lg (pfx h t i) \<or> lacking h t i" using ok t by (simp add: request_ok_def)
    then show ?thesis using lacking_mono [OF st True] own_entry_ext(2) [OF d(6) True] by auto
  next
    case False
    obtain l1 where l1: "h' (ae_Term a) = Some (src, l1)" using hextD [OF d(6) src] by blast
    show ?thesis
    proof (cases "t < ae_Term a")
      case True
      then show ?thesis using fresh_absent [OF st oe' False True l1] l1 by (auto simp: lacking_def)
    next
      case eq: False
      obtain j n' cmd where x: "x = Extend j n' cmd" and f0: "t = currentTerm (nodes c j)"
        "i = length (entries (log (nodes c j)))" "pfx h' t i = entries (log n')"
        using new_own_entry [OF st oe' False] .
      note f = hstep_extend [OF st [unfolded x], folded f0(1)]
      have "ae_Term a = t" using eq t by simp
      then have j: "src = j" "l0 = entries (log (nodes c j))" using src f(1) by auto
      have "prefix lg l0"
        using ok src \<open>ae_Term a = t\<close> j f0(1) by (auto simp: request_ok_def)
      moreover have "prefix l0 (entries (log n'))" using f(3) j by auto
      ultimately show ?thesis unfolding f0(3) compat_def using prefix_order.trans by blast
    qed
  qed
  moreover have "(\<exists>lg'. h' (ae_Term a) = Some (src, lg') \<and> prefix lg lg') \<or>
      ae_Term a < currentTerm (nodes c' src)"
    using ok hextD [OF d(6)] kind_term_mono [OF d(5), of src] prefix_order.trans
    unfolding request_ok_def by (meson less_le_trans)
  moreover have "covered h' c' lg (ae_LeaderCommit a) (ae_Term a)"
    using ok by (intro covered_mono [OF st]) (auto simp: request_ok_def)
  ultimately show ?thesis
    using ok traced_mono [OF d(6)] by (simp add: request_ok_def)
qed

section \<open>Committed entries\<close>

text \<open>Every later leader has a committed entry.\<close>

lemma committed_not_lacking:
  assumes ci: "completeness_inv h c" and co: "committed h c t i"
  shows "\<not> lacking h t i"
proof
  assume "lacking h t i"
  then obtain u m lg where u: "t < u" "h u = Some (m, lg)" "\<not> prefix (pfx h t i) lg"
    by (auto simp: lacking_def)
  from co obtain Q where oe: "own_entry h t i" and Q: "majority_set (ids c) Q"
    "\<forall>q \<in> Q. acked h c q t i" by (auto simp: committed_def)
  obtain Q' where Q': "majority_set (ids c) Q'" "\<forall>q \<in> Q'. \<not> acked h c q t i"
    using ci oe u unfolding completeness_inv_def by blast
  show False using majority.common_member [OF Q(1) Q'(1)] Q(2) Q'(2) by blast
qed

lemma committed_compat:
  assumes ci: "completeness_inv h c" and co: "committed h c t i" "committed h c t' i'"
  shows "compat (pfx h t i) (pfx h t' i')"
proof -
  have later: "compat (pfx h u j) (pfx h u' j')"
    if co: "committed h c u j" "committed h c u' j'" and le: "u \<le> u'" for u j u' j'
  proof -
    have oe: "own_entry h u j" "own_entry h u' j'" using co by (auto simp: committed_def)
    obtain m lg where lg: "h u' = Some (m, lg)" "prefix (pfx h u' j') lg"
      using own_entry_pfx [OF oe(2)] by metis
    have "prefix (pfx h u j) lg"
    proof (cases "u = u'")
      case True
      then show ?thesis using own_entry_pfx [OF oe(1)] lg(1) by (metis option.inject snd_conv)
    next
      case False
      with le have "u < u'" by simp
      then show ?thesis
        using committed_not_lacking [OF ci co(1)] lg(1) by (auto simp: lacking_def)
    qed
    then show ?thesis using lg(2) by (rule compat_same)
  qed
  show ?thesis
    using later [OF co(1,2)] later [OF co(2,1)] linear [of t t'] by (auto simp: compat_def)
qed

lemma compat_take:
  assumes "compat xs ys" "k < length xs" "k < length ys"
  shows "take (Suc k) xs = take (Suc k) ys"
  using assms by (auto simp: compat_def prefix_def)

lemma covered_build:
  assumes ci: "completeness_inv h c" and mi: "message_inv h c" and co: "commit_inv h c"
    and i: "i \<in> set (ids c)" and m: "HbTask i p u k \<in> net_set c"
  shows "covered h c (entries (log (nodes c i))) k u"
proof (cases "k = 0")
  case False
  let ?es = "entries (log (nodes c i))" and ?k = "unat k"
  from mi m False obtain t j where ref: "committed h c t j" "t \<le> u" "?k \<le> j"
    and le: "k \<le> commitIndex (nodes c i)"
    unfolding message_inv_def by blast
  then have "commitIndex (nodes c i) \<noteq> 0" using False by auto
  then obtain t' j' where own: "committed h c t' j'" "unat (commitIndex (nodes c i)) \<le> j'"
    "unat (commitIndex (nodes c i)) < length ?es"
    "take (Suc (unat (commitIndex (nodes c i)))) ?es =
       take (Suc (unat (commitIndex (nodes c i)))) (pfx h t' j')"
    using co i unfolding commit_inv_def covered_def by blast
  have le': "?k \<le> unat (commitIndex (nodes c i))" using le by (simp add: word_le_nat_alt)
  have len: "length (pfx h t j) = Suc j" "length (pfx h t' j') = Suc j'"
    using ref(1) own(1) own_entry_pfx by (metis committed_def)+
  have "take (Suc ?k) ?es = take (Suc ?k) (pfx h t' j')"
    using take_le_eq [OF own(4), of "Suc ?k"] le' by simp
  also have "\<dots> = take (Suc ?k) (pfx h t j)"
    using ref(3) own(2) le' len by (intro compat_take [OF committed_compat [OF ci own(1) ref(1)]]) auto
  finally show ?thesis
    unfolding covered_def using ref own(3) le' by (meson le_less_trans)
qed (simp add: covered_def)

lemma build_request_ok:
  assumes st: "hstep h c (Build i p kd u k a) h' c'" and ci: "completeness_inv h c"
    and mi: "message_inv h c" and co: "commit_inv h c" and lk: "led_kept_inv h c"
  shows "request_ok h c i a (entries (log (nodes c i)))"
proof -
  note d = hstepD [OF st]
  note l = kind_step_local [OF d(5), simplified]
  let ?es = "entries (log (nodes c i))"
  have tr: "traced h ?es" using log_invD(2) [OF d(1) l(4)] by (simp add: node_log_ok_def)
  note b = build_args_from_log [OF conjunct1 [OF l(5)] traced_ok [OF tr]]
  obtain lg where lg: "h u = Some (i, lg)"
    using build_msg_ok [OF d(1) l(4) kind_step_local(5) [OF d(5)]] b(2) by (auto simp: msg_ok_def)
  have ok: "u \<le> currentTerm (nodes c i)" "currentTerm (nodes c i) = u \<Longrightarrow> lg = ?es"
    using log_invD(1) [OF d(1) lg] leader_hist [OF d(1) l(4)] lg by (auto simp: leader_log_ok_def)
  have "compat ?es (pfx h t j) \<or> lacking h t j" if oe: "own_entry h t j" and t: "t \<le> u" for t j
  proof (cases "prefix (pfx h t j) lg")
    case True
    then have "prefix (pfx h t j) ?es \<or> lacking h t j"
      using lk lg t oe by (auto simp: led_kept_inv_def)
    then show ?thesis by (auto simp: compat_def)
  next
    case False
    have "t \<noteq> u" using own_entry_pfx [OF oe] lg False by (metis option.inject snd_conv)
    with t have "t < u" by simp
    with False lg show ?thesis by (auto simp: lacking_def)
  qed
  moreover have "(\<exists>lg'. h u = Some (i, lg') \<and> prefix ?es lg') \<or> u < currentTerm (nodes c i)"
    using ok lg by (cases "currentTerm (nodes c i) = u") auto
  moreover have "covered h c ?es k u"
  proof (cases "HbTask i p u k \<in> net_set c")
    case True
    then show ?thesis by (rule covered_build [OF ci mi co l(4)])
  next
    case False
    with l(5) co l(4) show ?thesis by (auto simp: commit_inv_def)
  qed
  ultimately show ?thesis using tr b(1-3) by (simp add: request_ok_def)
qed

section \<open>Commit indices\<close>

text \<open>The commit index a request announces is inside the follower's log once it is accepted.\<close>

lemma accept_commit:
  assumes st: "hstep h c (Accept q n' src k a r n4) h' c'" and mi: "message_inv h c"
  shows "commitIndex (nodes c' q) =
    (if commitIndex (nodes c q) < ae_LeaderCommit a then ae_LeaderCommit a
     else commitIndex (nodes c q))"
proof -
  obtain lg where lg: "request_ok h c src a lg" "prefix lg (entries (log (nodes c' q)))"
    "nodes c' q = update_commit (ae_LeaderCommit a) n4" "log n4 = log (nodes c' q)"
    "commitIndex n4 = commitIndex (nodes c q)"
    using accept_request [OF st mi] by metis
  note d = hstepD [OF st]
  have q: "q \<in> set (ids c')" using kind_step_local(1,4) [OF d(5)] by simp
  have ok: "entries_ok (entries (log (nodes c' q)))"
    using log_invD(2) [OF d(2) q] by (auto simp: node_log_ok_def traced_ok)
  have "ae_LeaderCommit a \<le> LastIndex (log (nodes c' q))" if "commitIndex (nodes c q) < ae_LeaderCommit a"
  proof -
    have "ae_LeaderCommit a \<noteq> 0" using that by auto
    then have "unat (ae_LeaderCommit a) < length lg"
      using lg(1) by (auto simp: request_ok_def covered_def)
    then have "unat (ae_LeaderCommit a) < length (entries (log (nodes c' q)))"
      using prefix_length_le [OF lg(2)] by simp
    then show ?thesis unfolding word_le_nat_alt unat_LastIndex [OF ok] by linarith
  qed
  then have "commitIndex (update_commit (ae_LeaderCommit a) n4) =
      (if commitIndex (nodes c q) < ae_LeaderCommit a then ae_LeaderCommit a
       else commitIndex (nodes c q))"
    using lg(5) by (auto simp: update_commit_def lg(4))
  then show ?thesis unfolding lg(3) .
qed

lemma other_commit:
  assumes st: "hstep h c x h' c'" and x: "\<And>n' src k a r n4. x \<noteq> Accept q n' src k a r n4"
    "\<And>n' p es. x \<noteq> Matched q n' p es"
  shows "commitIndex (nodes c' q) = commitIndex (nodes c q)"
proof (cases "q = kind_node x")
  case False
  then show ?thesis by (simp add: kind_step_local(2) [OF hstepD(5) [OF st]])
next
  case True
  note l = kind_step_local [OF hstepD(5) [OF st]]
  have "commitIndex (kind_new c x) = commitIndex (nodes c q)"
  proof (cases x)
    case (Elect i n' a)
    with l(5) True show ?thesis by (auto dest: startElection_Some(7))
  next
    case (Grant i n' y a r)
    with l(5) True show ?thesis by (auto dest: HandleRequestVote_frame(4))
  next
    case (Extend i n' cmd)
    with l(5) True show ?thesis by auto
  next
    case (Accept i n' src k a r n4)
    with x(1) [of n' src k a r n4] True show ?thesis by simp
  next
    case (Matched i n' p es)
    with x(2) [of n' p es] True show ?thesis by simp
  qed (use l(5) True in \<open>auto simp: calm_def rearm_heartbeat_def split: option.splits\<close>)
  then show ?thesis by (simp add: l(2) True)
qed

lemma matched_node:
  assumes st: "hstep h c (Matched q n' p es) h' c'"
  shows "nodes c' q = n'" "state (nodes c q) = Leader" "q \<in> set (ids c)"
    "advanceCommitIndexLocked (record_match p es (nodes c q)) = Some n'"
    "\<exists>k r. AppendResp p q k (currentTerm (nodes c q)) es r \<in> net_set c \<and> aer_Success r" "es \<noteq> []"
  using kind_step_local [OF hstepD(5) [OF st]] by auto

lemma commit_mono:
  assumes st: "hstep h c x h' c'" and mi: "message_inv h c"
  shows "commitIndex (nodes c q) \<le> commitIndex (nodes c' q)"
proof (cases "(\<exists>n' src k a r n4. x = Accept q n' src k a r n4) \<or> (\<exists>n' p es. x = Matched q n' p es)")
  case False
  then show ?thesis using other_commit [OF st] by simp
next
  case True
  then show ?thesis
  proof (elim disjE exE)
    fix n' src k a r n4 assume x: "x = Accept q n' src k a r n4"
    show ?thesis using accept_commit [OF st [unfolded x] mi] by auto
  next
    fix n' p es assume x: "x = Matched q n' p es"
    note m = matched_node [OF st [unfolded x]]
    from m(4) show ?thesis by (cases rule: advance_cases) (auto simp: m(1))
  qed
qed

lemma new_request:
  assumes st: "hstep h c x h' c'" and m: "m \<in> net_set c'" "m \<notin> net_set c"
  shows "m = AppendReq src dst k a \<Longrightarrow> \<exists>u commit. x = Build src dst k u commit a"
    "m = HbTask src dst v j \<Longrightarrow> \<exists>n'. x = Beat src n' \<and> v = currentTerm n' \<and> j = commitIndex n'"
proof -
  note l = kind_step_local [OF hstepD(5) [OF st]]
  from m have new: "m \<in> set (kind_msgs x)" using l(3) by blast
  have refusal: "is_refusal m" if "x = Quiet i n' ms" for i n' ms
    using that new l(5) by (metis kind_msgs.simps(1) kind_ok.simps(1))
  have reject: "\<exists>i src' k' r'. m = AppendResp i src' k' (ae_Term b) (ae_Entries b) r'"
    if "x = Reject i n' ms b" for i n' ms b
    using that new l(5) by auto
  show "m = AppendReq src dst k a \<Longrightarrow> \<exists>u commit. x = Build src dst k u commit a"
    using new refusal reject by (cases x) (auto simp: is_refusal_def)
  show "m = HbTask src dst v j \<Longrightarrow> \<exists>n'. x = Beat src n' \<and> v = currentTerm n' \<and> j = commitIndex n'"
    using new refusal reject by (cases x) (auto simp: is_refusal_def)
qed

lemma message_step:
  assumes st: "hstep h c x h' c'" and ci: "completeness_inv h c"
    and mi: "message_inv h c" and co: "commit_inv h c" and lk: "led_kept_inv h c"
  shows "message_inv h' c'"
proof -
  note d = hstepD [OF st]
  note l = kind_step_local [OF d(5)]
  have "\<exists>lg. request_ok h' c' src a lg" if m: "AppendReq src dst k a \<in> net_set c'" for src dst k a
  proof (cases "AppendReq src dst k a \<in> net_set c")
    case True
    then obtain lg where "request_ok h c src a lg" using mi unfolding message_inv_def by blast
    moreover obtain l0 where "h (ae_Term a) = Some (src, l0)"
      using log_invD(3) [OF d(1) True] by (auto simp: msg_ok_def)
    ultimately show ?thesis using request_ok_step [OF st] by blast
  next
    case False
    then obtain u commit where x: "x = Build src dst k u commit a"
      using new_request(1) [OF st m] by blast
    have "request_ok h c src a (entries (log (nodes c src)))"
      using build_request_ok [OF st [unfolded x] ci mi co lk] .
    moreover obtain l0 where "h (ae_Term a) = Some (src, l0)"
      using build_msg_ok [OF d(1) _ l(5) [unfolded x]] l(4) x by (auto simp: msg_ok_def)
    ultimately show ?thesis using request_ok_step [OF st] by blast
  qed
  moreover have "k \<le> commitIndex (nodes c' src) \<and>
      (k = 0 \<or> (\<exists>t i. committed h' c' t i \<and> t \<le> u \<and> unat k \<le> i))"
    if m: "HbTask src dst u k \<in> net_set c'" for src dst u k
  proof (cases "HbTask src dst u k \<in> net_set c")
    case True
    with mi have "k \<le> commitIndex (nodes c src)"
      "k = 0 \<or> (\<exists>t i. committed h c t i \<and> t \<le> u \<and> unat k \<le> i)"
      unfolding message_inv_def by blast+
    then show ?thesis
      using commit_mono [OF st mi, of src] committed_mono [OF st] order_trans by blast
  next
    case False
    then obtain n' where x: "x = Beat src n'" and k: "u = currentTerm n'" "k = commitIndex n'"
      using new_request(2) [OF st m] by blast
    have n': "u = currentTerm (nodes c src)" "k = commitIndex (nodes c src)" "src \<in> set (ids c)"
      using l(4,5) k x by (auto simp: rearm_heartbeat_def split: option.splits)
    have "covered h c (entries (log (nodes c src))) k u" using co n' by (simp add: commit_inv_def)
    then have "k = 0 \<or> (\<exists>t i. committed h c t i \<and> t \<le> u \<and> unat k \<le> i)"
      unfolding covered_def by blast
    moreover have "k \<le> commitIndex (nodes c' src)"
      using commit_mono [OF st mi, of src] n'(2) by simp
    ultimately show ?thesis using committed_mono [OF st] by blast
  qed
  ultimately show ?thesis by (auto simp: message_inv_def)
qed

lemma record_match_index:
  "go_get 0 (matchIndex (record_match p es n)) p' =
     (if p' = p \<and> le_Index (last es) > go_get 0 (matchIndex n) p
      then le_Index (last es) else go_get 0 (matchIndex n) p')"
  by (auto simp: record_match_def Let_def go_get_def set_nextIndex_def)

lemma matched_acked:
  assumes st: "hstep h c (Matched q n' p es) h' c'" and ma: "match_inv h c"
    and p': "p' \<in> set (peers (nodes c q))"
    "go_get 0 (matchIndex (record_match p es (nodes c q))) p' \<noteq> 0"
  shows "acked h c p' (currentTerm (nodes c q))
    (unat (go_get 0 (matchIndex (record_match p es (nodes c q))) p'))"
proof (cases "p' = p \<and> le_Index (last es) > go_get 0 (matchIndex (nodes c q)) p")
  case True
  with matched_node(5,6) [OF st] show ?thesis
    unfolding record_match_index acked_def by auto
next
  case False
  then have eq: "go_get 0 (matchIndex (record_match p es (nodes c q))) p' =
      go_get 0 (matchIndex (nodes c q)) p'"
    unfolding record_match_index by auto
  with ma p' matched_node(2,3) [OF st] show ?thesis unfolding match_inv_def eq by blast
qed

lemma replicated_majority:
  assumes "distinct is" "q \<in> set is" "peers n = filter (\<lambda>j. j \<noteq> q) is"
    and "replicated n N"
  shows "majority_set is ({q} \<union> {p \<in> set (peers n). N \<le> go_get 0 (matchIndex n) p})"
proof -
  let ?P = "{p \<in> set (peers n). N \<le> go_get 0 (matchIndex n) p}"
  have "length (filter (\<lambda>m. N \<le> m) (commit_matches n)) \<le>
      Suc (length (filter (\<lambda>p. N \<le> go_get 0 (matchIndex n) p) (peers n)))"
    by (simp add: commit_matches_def filter_map comp_def)
  also have "length (filter (\<lambda>p. N \<le> go_get 0 (matchIndex n) p) (peers n)) = card ?P"
    using assms(1,3) distinct_card [of "filter (\<lambda>p. N \<le> go_get 0 (matchIndex n) p) (peers n)"] by simp
  also have "Suc (card ?P) = card ({q} \<union> ?P)" using assms(3) by simp
  finally have "commit_majority (peers n) < int (card ({q} \<union> ?P))"
    using assms(4) unfolding replicated_def by linarith
  moreover have "commit_majority (peers n) + 1 = int (length is div 2 + 1)"
    using vote_majority_eq [OF assms(1-3)] by (simp add: vote_majority_def commit_majority_def)
  ultimately show ?thesis using assms(2,3) by (auto simp: majority_set_def)
qed

lemma matched_committed:
  assumes st: "hstep h c (Matched q n' p es) h' c'" and ma: "match_inv h c"
    and ids: "distinct (ids c)"
    and adv: "N = candidate_commit (record_match p es (nodes c q))"
      "commitIndex (nodes c q) < N" "unat N < length (entries (log (nodes c q)))"
      "le_Term (entries (log (nodes c q)) ! unat N) = currentTerm (nodes c q)"
  shows "committed h c (currentTerm (nodes c q)) (unat N)"
    "pfx h (currentTerm (nodes c q)) (unat N) = take (Suc (unat N)) (entries (log (nodes c q)))"
proof -
  let ?n = "record_match p es (nodes c q)" and ?t = "currentTerm (nodes c q)"
  note d = hstepD [OF st] and m = matched_node [OF st]
  have h: "h ?t = Some (q, entries (log (nodes c q)))" by (rule leader_hist [OF d(1) m(3,2)])
  show "pfx h ?t (unat N) = take (Suc (unat N)) (entries (log (nodes c q)))"
    by (simp add: pfx_def h)
  have peers: "peers ?n = filter (\<lambda>j. j \<noteq> q) (ids c)"
    using d(3) by (simp add: election_inv_def topology_inv_def)
  let ?Q = "{q} \<union> {p' \<in> set (peers ?n). N \<le> go_get 0 (matchIndex ?n) p'}"
  have Q: "majority_set (ids c) ?Q"
    by (rule replicated_majority [OF ids m(3) peers]) (simp add: replicated_iff adv(1))
  have pos: "N \<noteq> 0" using adv(2) by auto
  have "acked h c v ?t (unat N)" if "v \<in> ?Q" for v
  proof (cases "v = q")
    case True
    with h adv(3) show ?thesis by (auto simp: acked_def)
  next
    case False
    with that have v: "v \<in> set (peers (nodes c q))" "N \<le> go_get 0 (matchIndex ?n) v" by auto
    then have "go_get 0 (matchIndex ?n) v \<noteq> 0" using pos by auto
    from matched_acked [OF st ma v(1) this] show ?thesis
      by (rule acked_le) (use v(2) in \<open>simp add: word_le_nat_alt\<close>)
  qed
  moreover have "own_entry h ?t (unat N)" using h adv(3,4) by (auto simp: own_entry_def)
  ultimately show "committed h c ?t (unat N)" unfolding committed_def using Q by blast
qed

lemma covered_keep:
  assumes st: "hstep h c x h' c'" and ci: "completeness_inv h c" and mi: "message_inv h c"
    and co: "covered h c (entries (log (nodes c q))) k (currentTerm (nodes c q))"
  shows "covered h' c' (entries (log (nodes c' q))) k (currentTerm (nodes c' q))"
proof (cases "k = 0")
  case False
  let ?es = "entries (log (nodes c q))" and ?es' = "entries (log (nodes c' q))"
  from co False obtain t i where ti: "committed h c t i" "t \<le> currentTerm (nodes c q)"
    "unat k \<le> i" "unat k < length ?es" "take (Suc (unat k)) ?es = take (Suc (unat k)) (pfx h t i)"
    by (auto simp: covered_def)
  let ?P = "take (Suc (unat k)) (pfx h t i)"
  have oe: "own_entry h t i" using ti(1) by (simp add: committed_def)
  have "prefix ?P ?es" using ti(5) by (metis take_is_prefix)
  then have p: "prefix ?P ?es'"
    using keep_prefix [OF st mi oe ti(2)] committed_not_lacking [OF ci ti(1)] by blast
  have len: "length ?P = Suc (unat k)" using own_entry_pfx [OF oe] ti(3) by (metis Suc_le_mono length_take min_absorb2)
  have "unat k < length ?es'" using prefix_length_le [OF p] len by simp
  moreover have "take (Suc (unat k)) ?es' = ?P" using prefix_takeD [OF p] len by simp
  moreover have "t \<le> currentTerm (nodes c' q)"
    using ti(2) kind_term_mono [OF hstepD(5) [OF st], of q] by (rule order_trans)
  ultimately show ?thesis
    unfolding covered_def
    using committed_mono [OF st ti(1)] ti(3) own_entry_ext(2) [OF hstepD(6) [OF st] oe] by metis
qed (simp add: covered_def)

lemma commit_step:
  assumes st: "hstep h c x h' c'" and ci: "completeness_inv h c" and mi: "message_inv h c"
    and co: "commit_inv h c" and ma: "match_inv h c" and ids: "distinct (ids c)"
  shows "commit_inv h' c'"
  unfolding commit_inv_def
proof
  fix q assume "q \<in> set (ids c')"
  then have q: "q \<in> set (ids c)" using kind_step_local(1) [OF hstepD(5) [OF st]] by simp
  let ?goal = "\<lambda>k. covered h' c' (entries (log (nodes c' q))) k (currentTerm (nodes c' q))"
  have old: "?goal (commitIndex (nodes c q))"
    using co q by (intro covered_keep [OF st ci mi]) (simp add: commit_inv_def)
  show "?goal (commitIndex (nodes c' q))"
  proof (cases "(\<exists>n' src k a r n4. x = Accept q n' src k a r n4) \<or> (\<exists>n' p es. x = Matched q n' p es)")
    case False
    then have "commitIndex (nodes c' q) = commitIndex (nodes c q)"
      using other_commit [OF st] by blast
    with old show ?thesis by simp
  next
    case True
    then show ?thesis
    proof (elim disjE exE)
      fix n' src k a r n4 assume x: "x = Accept q n' src k a r n4"
      obtain lg where lg: "request_ok h c src a lg" "prefix lg (entries (log (nodes c' q)))"
        "currentTerm (nodes c' q) = ae_Term a"
        using accept_request [OF st [unfolded x] mi] by metis
      have "?goal (ae_LeaderCommit a)"
        using lg by (intro covered_mono [OF st, of lg _ "ae_Term a"]) (auto simp: request_ok_def)
      then show ?thesis using old accept_commit [OF st [unfolded x] mi] by auto
    next
      fix n' p es assume x: "x = Matched q n' p es"
      note m = matched_node [OF st [unfolded x]]
      note f = advanceCommit_frame [OF m(4)]
      from m(4) show ?thesis
      proof (cases rule: advance_cases)
        case kept
        with old m(1) show ?thesis by simp
      next
        case advanced
        let ?N = "candidate_commit (record_match p es (nodes c q))"
        have co: "committed h c (currentTerm (nodes c q)) (unat ?N)"
          and pf: "pfx h (currentTerm (nodes c q)) (unat ?N) =
            take (Suc (unat ?N)) (entries (log (nodes c q)))"
          using matched_committed [OF st [unfolded x] ma ids refl] advanced(2-4) by simp_all
        have "covered h c (entries (log (nodes c q))) ?N (currentTerm (nodes c q))"
          unfolding covered_def using co pf advanced(3) by force
        then have "?goal ?N" by (rule covered_keep [OF st ci mi])
        then show ?thesis using advanced(1) m(1) by simp
      qed
    qed
  qed
qed

lemma leader_change [consumes 2, case_names same win matched]:
  assumes st: "hstep h c x h' c'" and lead: "state (nodes c' q) = Leader"
  obtains "state (nodes c q) = Leader" "currentTerm (nodes c' q) = currentTerm (nodes c q)"
    "matchIndex (nodes c' q) = matchIndex (nodes c q)"
  | n' where "x = Win q n'"
  | n' p es where "x = Matched q n' p es"
proof (cases "q = kind_node x")
  case False
  then show thesis using lead by (intro that(1)) (simp_all add: kind_step_local(2) [OF hstepD(5) [OF st]])
next
  case True
  note l = kind_step_local [OF hstepD(5) [OF st]] and keep = that(1) and w = that(2) and ma = that(3)
  have new: "nodes c' q = kind_new c x" by (simp add: l(2) True)
  have same: thesis if "state (nodes c q) = Leader" "currentTerm (kind_new c x) = currentTerm (nodes c q)"
    "matchIndex (kind_new c x) = matchIndex (nodes c q)"
    by (rule keep) (use that new in simp_all)
  show thesis
  proof (cases x)
    case (Quiet i n' ms)
    with l(5) True new lead show thesis by (intro same) (auto simp: calm_def)
  next
    case (Elect i n' a)
    with l(5) have "state n' = Candidate" by (auto dest: startElection_Some(6))
    with new lead Elect show thesis by simp
  next
    case (Grant i n' y a r)
    with l(5) obtain rnd where h: "HandleRequestVote rnd a (nodes c i) = Some (n', r)" by auto
    note f = HandleRequestVote_frame [OF h]
    from lead new Grant have "state n' = Leader" by simp
    then have "\<not> currentTerm (nodes c i) < rv_Term a" "state (nodes c i) = Leader"
      by (auto simp: f split: if_splits)
    with True Grant show thesis by (intro same) (auto simp: f max_def)
  next
    case (Win i n')
    with True show thesis by (intro w) simp
  next
    case (Beat i n')
    with l(5) True show thesis
      by (intro same) (simp_all add: rearm_heartbeat_def split: option.splits)
  next
    case (Build i p k t commit a)
    with True new lead show thesis by (intro same) simp_all
  next
    case (Reject i n' ms a)
    with l(5) have "state n' = Follower" by auto
    with new lead Reject show thesis by simp
  next
    case (Accept i n' src k a r n4)
    with l(5) obtain rnd where loop: "append_entries_loop (ae_PrevLogIndex a + 1) (ae_Entries a)
        (accept_leader rnd a (nodes c i)) = Some n4" "n' = update_commit (ae_LeaderCommit a) n4"
      by (auto simp: Let_def)
    with new lead Accept show thesis by (simp add: append_loop_frame(5) [OF loop(1)])
  next
    case (Matched i n' p es)
    with True show thesis by (intro ma) simp
  next
    case (Extend i n' cmd)
    with l(5) True show thesis by (intro same) auto
  qed
qed

lemma match_step:
  assumes st: "hstep h c x h' c'" and ma: "match_inv h c"
  shows "match_inv h' c'"
  unfolding match_inv_def
proof (intro ballI impI)
  fix q p
  assume q': "q \<in> set (ids c')" and p': "p \<in> set (peers (nodes c' q))"
    and lead: "state (nodes c' q) = Leader" and ne: "go_get 0 (matchIndex (nodes c' q)) p \<noteq> 0"
  note d = hstepD [OF st]
  note l = kind_step_local [OF d(5)]
  have q: "q \<in> set (ids c)" using q' l(1) by simp
  have peers: "peers (nodes c' q) = peers (nodes c q)"
    using d(3,4) l(1) by (simp add: election_inv_def topology_inv_def)
  from st lead show "acked h' c' p (currentTerm (nodes c' q))
      (unat (go_get 0 (matchIndex (nodes c' q)) p))"
  proof (cases rule: leader_change)
    case same
    then show ?thesis
      using ma q p' ne unfolding match_inv_def same(2,3) peers by (intro acked_mono [OF st]) blast
  next
    case (win n')
    then obtain n1 where "nodes c' q = becomeLeaderLocked n1" "peers n1 = peers (nodes c q)"
      using l(2,5) by auto
    with ne p' peers show ?thesis by (simp add: becomeLeader_index go_get_def)
  next
    case (matched n' p0 es)
    note m = matched_node [OF st [unfolded matched]]
    note f = advanceCommit_frame [OF m(4)]
    have "matchIndex (nodes c' q) = matchIndex (record_match p0 es (nodes c q))"
      "currentTerm (nodes c' q) = currentTerm (nodes c q)" by (simp_all add: m(1) f)
    then show ?thesis
      using matched_acked [OF st [unfolded matched] ma, of p] ne p' peers
      by (simp add: acked_mono [OF st])
  qed
qed

section \<open>The invariant holds in every reachable state\<close>

lemma safety_step:
  assumes inv: "safety_inv h c" and e: "election_inv c" "election_inv c'" and ids: "ids_ok (ids c)"
    and k: "kind_step c x c'"
  shows "safety_inv (record_leaders c' h) c'"
proof -
  note parts = inv [unfolded safety_inv_def]
  have li: "log_inv h c" and ci: "completeness_inv h c" and ak: "ack_kept_inv h c"
    and lk: "led_kept_inv h c" and vi: "voter_inv h c" and bi: "ballot_inv c"
    and mi: "message_inv h c" and an: "answer_inv h c" and co: "commit_inv h c"
    and ma: "match_inv h c" using parts by blast+
  have st: "hstep h c x (record_leaders c' h) c'" using li e k by (simp add: hstep_def)
  have dist: "distinct (ids c)" using ids by (simp add: ids_ok_def)
  note ak' = ack_kept_step [OF st ak mi an]
  show ?thesis
    unfolding safety_inv_def
    using hstepD(2) [OF st] completeness_step [OF st ci vi an] ak' led_kept_step [OF st lk mi]
      voter_step [OF st vi ak ak' bi an] ballot_step [OF st bi] message_step [OF st ci mi co lk]
      answer_step [OF st an mi] commit_step [OF st ci mi co ma dist] match_step [OF st ma]
    by blast
qed

lemma init_safety_inv: "safety_inv (\<lambda>_. None) (init_cluster is w)"
  using init_log_inv [of "is" w]
  by (auto simp: safety_inv_def completeness_inv_def ack_kept_inv_def led_kept_inv_def
      voter_inv_def ballot_inv_def message_inv_def answer_inv_def commit_inv_def match_inv_def
      own_entry_def init_cluster_def NewNode_def covered_def)

interpretation safety: history_invariant safety_inv
  by unfold_locales (auto intro: init_safety_inv safety_step)

end
