(* ===== verification/Raft_Theorems.thy ===== *)
theory Raft_Theorems
  imports Raft_Safety
begin

text \<open>
  The safety theorems of the protocol, over whole runs of a cluster: what is committed stays,
  all nodes agree on it, and every later leader has it.
\<close>

section \<open>Progress of a run\<close>

text \<open>What a later state of the same run keeps.\<close>

definition later :: "hist \<Rightarrow> cluster \<Rightarrow> hist \<Rightarrow> cluster \<Rightarrow> bool" where
  "later h c h' c' \<longleftrightarrow> hext h h' \<and> ids c' = ids c \<and>
     (\<forall>t i. committed h c t i \<longrightarrow> committed h' c' t i) \<and>
     (\<forall>q. commitIndex (nodes c q) \<le> commitIndex (nodes c' q)) \<and>
     (\<forall>q. currentTerm (nodes c q) \<le> currentTerm (nodes c' q))"

lemma later_refl: "later h c h c"
  by (simp add: later_def)

lemma later_trans:
  assumes "later h1 c1 h2 c2" "later h2 c2 h3 c3" shows "later h1 c1 h3 c3"
proof -
  have "hext h1 h3" using assms by (auto simp: later_def intro: hext_trans)
  moreover have "commitIndex (nodes c1 q) \<le> commitIndex (nodes c3 q)" for q
    using assms order_trans [of "commitIndex (nodes c1 q)" "commitIndex (nodes c2 q)"]
    by (simp add: later_def)
  moreover have "currentTerm (nodes c1 q) \<le> currentTerm (nodes c3 q)" for q
    using assms order_trans [of "currentTerm (nodes c1 q)" "currentTerm (nodes c2 q)"]
    by (simp add: later_def)
  ultimately show ?thesis using assms by (simp add: later_def)
qed

lemma hstep_later:
  assumes st: "hstep h c x h' c'" and inv: "safety_inv h c"
  shows "later h c h' c'"
proof -
  have mi: "message_inv h c" using inv by (simp add: safety_inv_def)
  note d = hstepD [OF st]
  show ?thesis
    unfolding later_def
    using d(6) kind_step_local(1) [OF d(5)] committed_mono [OF st] commit_mono [OF st mi]
      kind_term_mono [OF d(5)] by blast
qed

lemma reachable_later:
  assumes r: "reachable c1 c2" and h: "hreach (init_cluster is w) h1 c1" and ok: "ids_ok is"
  obtains h2 where "hreach (init_cluster is w) h2 c2" "later h1 c1 h2 c2"
proof -
  from r have "\<exists>h2. hreach (init_cluster is w) h2 c2 \<and> later h1 c1 h2 c2"
  proof (induction rule: reachable.induct)
    case start
    with h later_refl show ?case by blast
  next
    case (step c e c')
    then obtain h2 where h2: "hreach (init_cluster is w) h2 c" "later h1 c1 h2 c" by blast
    have inv: "election_inv c" "ids_ok (ids c)"
      using hreach_reachable [OF h2(1) init_election_inv] ok by (auto simp: init_cluster_def)
    have si: "safety_inv h2 c" by (rule safety.hreach_inv [OF h2(1) ok])
    show ?case
    proof (cases "c' = c")
      case True
      with h2 show ?thesis by blast
    next
      case False
      then have cs: "cstep c c'" using exec_cstep [OF step(3)] by blast
      obtain x where x: "kind_step c x c'" using cstep_kind [OF inv(1) step(2) cs] by blast
      have "hstep h2 c x (record_leaders c' h2) c'"
        using si inv(1) cstep_election_inv [OF inv step(2) cs] x by (simp add: hstep_def safety_inv_def)
      then have "later h1 c1 (record_leaders c' h2) c'"
        using hstep_later [OF _ si] later_trans [OF h2(2)] by blast
      then show ?thesis using hreach.step [OF h2(1) step(2) cs] by blast
    qed
  qed
  then show thesis using that by blast
qed

lemma two_states:
  assumes "ids_ok is" "reachable (init_cluster is w) c1" "reachable c1 c2"
  obtains h1 h2 where "safety_inv h1 c1" "safety_inv h2 c2" "later h1 c1 h2 c2"
    "ids c1 = is" "ids c2 = is"
proof -
  obtain h1 where h1: "safety_inv h1 c1" "hreach (init_cluster is w) h1 c1"
    using safety.reachable_hist [OF assms(2,1)] .
  obtain h2 where h2: "hreach (init_cluster is w) h2 c2" "later h1 c1 h2 c2"
    using reachable_later [OF assms(3) h1(2) assms(1)] .
  have "ids c1 = is" using elections.reachable_inv(2) [OF assms(2,1)] by auto
  moreover from this have "ids c2 = is" using h2(2) by (simp add: later_def)
  ultimately show thesis using that h1(1) safety.hreach_inv [OF h2(1) assms(1)] h2(2) by blast
qed

section \<open>Committed prefixes\<close>

lemma covered_later:
  assumes "later h1 c1 h2 c2" "covered h1 c1 es k u"
  shows "covered h2 c2 es k u"
proof (cases "k = 0")
  case False
  with assms(2) obtain t i where ti: "committed h1 c1 t i" "t \<le> u" "unat k \<le> i" "unat k < length es"
    "take (Suc (unat k)) es = take (Suc (unat k)) (pfx h1 t i)" by (auto simp: covered_def)
  have "pfx h2 t i = pfx h1 t i"
    using assms(1) ti(1) own_entry_ext(2) by (auto simp: later_def committed_def)
  moreover have "committed h2 c2 t i" using assms(1) ti(1) by (simp add: later_def)
  ultimately show ?thesis using ti unfolding covered_def by metis
qed (simp add: covered_def)

lemma covered_agree:
  assumes ci: "completeness_inv h c" and co: "covered h c es k u" "covered h c fs k' u'"
    and ne: "entries_ok es" "entries_ok fs" and m: "m \<le> unat k" "m \<le> unat k'"
  shows "take (Suc m) es = take (Suc m) fs"
proof (cases "m = 0")
  case True
  with ne show ?thesis
    by (cases es; cases fs) (auto simp: entries_ok_def)
next
  case False
  then have k: "k \<noteq> 0" "k' \<noteq> 0" using m by auto
  from co(1) k(1) obtain t i where ti: "committed h c t i" "unat k \<le> i"
    "take (Suc (unat k)) es = take (Suc (unat k)) (pfx h t i)" by (auto simp: covered_def)
  from co(2) k(2) obtain t' i' where ti': "committed h c t' i'" "unat k' \<le> i'"
    "take (Suc (unat k')) fs = take (Suc (unat k')) (pfx h t' i')" by (auto simp: covered_def)
  have len: "length (pfx h t i) = Suc i" "length (pfx h t' i') = Suc i'"
    using ti(1) ti'(1) own_entry_pfx by (metis committed_def)+
  have "take (Suc m) (pfx h t i) = take (Suc m) (pfx h t' i')"
    using ti(2) ti'(2) m len by (intro compat_take [OF committed_compat [OF ci ti(1) ti'(1)]]) auto
  then show ?thesis
    using take_le_eq [OF ti(3), of "Suc m"] take_le_eq [OF ti'(3), of "Suc m"] m by simp
qed

lemma node_ok:
  assumes "safety_inv h c" "q \<in> set (ids c)"
  shows "entries_ok (entries (log (nodes c q)))"
    "covered h c (entries (log (nodes c q))) (commitIndex (nodes c q)) (currentTerm (nodes c q))"
    "unat (commitIndex (nodes c q)) < length (entries (log (nodes c q)))"
proof -
  have li: "log_inv h c" and co: "commit_inv h c" using assms(1) by (auto simp: safety_inv_def)
  show ok: "entries_ok (entries (log (nodes c q)))"
    using log_invD(2) [OF li assms(2)] by (auto simp: node_log_ok_def traced_ok)
  show cov: "covered h c (entries (log (nodes c q))) (commitIndex (nodes c q)) (currentTerm (nodes c q))"
    using co assms(2) by (simp add: commit_inv_def)
  then show "unat (commitIndex (nodes c q)) < length (entries (log (nodes c q)))"
    using entries_ok_len [OF ok] by (auto simp: covered_def)
qed

text \<open>Two nodes at two moments of a run agree up to the smaller commit index.\<close>

lemma committed_agree:
  assumes h: "safety_inv h1 c1" "safety_inv h2 c2" "later h1 c1 h2 c2"
    and ij: "i \<in> set (ids c1)" "j \<in> set (ids c2)"
    and m: "m \<le> unat (commitIndex (nodes c1 i))" "m \<le> unat (commitIndex (nodes c2 j))"
  shows "take (Suc m) (entries (log (nodes c1 i))) = take (Suc m) (entries (log (nodes c2 j)))"
proof -
  note n1 = node_ok [OF h(1) ij(1)] and n2 = node_ok [OF h(2) ij(2)]
  have "completeness_inv h2 c2" using h(2) by (simp add: safety_inv_def)
  then show ?thesis by (rule covered_agree [OF _ covered_later [OF h(3) n1(2)] n2(2) n1(1) n2(1) m])
qed

text \<open>A leader of a later term has what was committed before.\<close>

lemma leader_has_committed:
  assumes h: "safety_inv h1 c1" "safety_inv h2 c2" "later h1 c1 h2 c2"
    and ij: "i \<in> set (ids c1)" "j \<in> set (ids c2)"
    and lead: "state (nodes c2 j) = Leader" "currentTerm (nodes c1 i) \<le> currentTerm (nodes c2 j)"
  shows "prefix (take (Suc (unat (commitIndex (nodes c1 i)))) (entries (log (nodes c1 i))))
    (entries (log (nodes c2 j)))"
proof -
  let ?k = "commitIndex (nodes c1 i)" and ?es = "entries (log (nodes c1 i))"
    and ?fs = "entries (log (nodes c2 j))" and ?u = "currentTerm (nodes c2 j)"
  have ok: "entries_ok ?es" "entries_ok ?fs"
    using node_ok(1) [OF h(1) ij(1)] node_ok(1) [OF h(2) ij(2)] by auto
  have ci: "completeness_inv h2 c2" and li: "log_inv h2 c2" using h(2) by (auto simp: safety_inv_def)
  have cov: "covered h2 c2 ?es ?k (currentTerm (nodes c1 i))"
    by (rule covered_later [OF h(3) node_ok(2) [OF h(1) ij(1)]])
  show ?thesis
  proof (cases "?k = 0")
    case True
    with ok show ?thesis by (cases ?es; cases ?fs) (auto simp: entries_ok_def)
  next
    case False
    with cov obtain t n where tn: "committed h2 c2 t n" "t \<le> currentTerm (nodes c1 i)"
      "take (Suc (unat ?k)) ?es = take (Suc (unat ?k)) (pfx h2 t n)" by (auto simp: covered_def)
    have oe: "own_entry h2 t n" using tn(1) by (simp add: committed_def)
    have hist: "h2 ?u = Some (j, ?fs)" by (rule leader_hist [OF li ij(2) lead(1)])
    have "prefix (pfx h2 t n) ?fs"
    proof (cases "t = ?u")
      case True
      then show ?thesis using own_entry_pfx [OF oe] hist by (metis option.inject snd_conv)
    next
      case False
      then have "t < ?u" using tn(2) lead(2) by simp
      then show ?thesis using committed_not_lacking [OF ci tn(1)] hist by (auto simp: lacking_def)
    qed
    then show ?thesis using tn(3) take_is_prefix prefix_order.trans by metis
  qed
qed

text \<open>
  C1. State machine safety. Take any node at one moment of a run and any node at the same or a
  later moment: up to the smaller of their commit indices their logs are identical, entry by
  entry. So no two nodes ever commit different commands at the same index.
\<close>

theorem state_machine_safety:
  assumes "ids_ok is" and "reachable (init_cluster is w) c1" and "reachable c1 c2"
    and "i \<in> set is" and "j \<in> set is"
    and "m \<le> unat (commitIndex (nodes c1 i))" and "m \<le> unat (commitIndex (nodes c2 j))"
  shows "m < length (entries (log (nodes c1 i))) \<and> m < length (entries (log (nodes c2 j))) \<and>
    take (Suc m) (entries (log (nodes c1 i))) = take (Suc m) (entries (log (nodes c2 j)))"
proof -
  obtain h1 h2 where h: "safety_inv h1 c1" "safety_inv h2 c2" "later h1 c1 h2 c2"
    "ids c1 = is" "ids c2 = is" using two_states [OF assms(1-3)] .
  show ?thesis
    using node_ok(3) [OF h(1), of i] node_ok(3) [OF h(2), of j]
      committed_agree [OF h(1-3), of i j m] assms(4-7) h(4,5) by auto
qed

text \<open>A run in which \<open>a\<close> commits a command with the acknowledgement of \<open>b\<close>, and \<open>b\<close> learns of it.\<close>

definition commit_one :: "event list" where
  "commit_one = elect_a @ [Submit ''a'' ''x'', ReplicateTick ''a'' ''b'', Deliver 3 5, Deliver 4 6]"

definition tell_b :: "event list" where
  "tell_b = [HeartbeatTick ''a'', Deliver 5 0, Deliver 7 0]"

theorem state_machine_safety_witness:
  "\<exists>c1 c2. ids_ok [''a'', ''b'', ''c''] \<and> reachable three_nodes c1 \<and> reachable c1 c2 \<and>
     commitIndex (nodes c1 ''a'') = 1 \<and> commitIndex (nodes c2 ''b'') = 1 \<and>
     take (Suc 1) (entries (log (nodes c1 ''a''))) = take (Suc 1) (entries (log (nodes c2 ''b'')))"
proof -
  have ok: "ids_ok [''a'', ''b'', ''c'']" by (simp add: ids_ok_def)
  have "after commit_one three_nodes (\<lambda>c1. commitIndex (nodes c1 ''a'') = 1 \<and>
      after tell_b c1 (\<lambda>c2. commitIndex (nodes c2 ''b'') = 1))"
    by code_simp
  then obtain c1 c2 where c1: "reachable three_nodes c1" "commitIndex (nodes c1 ''a'') = 1"
    and c2: "reachable c1 c2" "commitIndex (nodes c2 ''b'') = 1"
    by (auto elim!: afterE)
  have "take (Suc 1) (entries (log (nodes c1 ''a''))) = take (Suc 1) (entries (log (nodes c2 ''b'')))"
    using state_machine_safety [OF ok c1(1) [unfolded three_nodes_def] c2(1), of "''a''" "''b''" 1]
    by (simp add: c1(2) c2(2))
  then show ?thesis using ok c1 c2 by metis
qed

text \<open>
  C2. Leader completeness. If a node has committed an index at some moment, then every node that
  leads at that or any later moment in a term not below the node's term has the same entries up
  to that index.
\<close>

theorem leader_completeness:
  assumes "ids_ok is" and "reachable (init_cluster is w) c1" and "reachable c1 c2"
    and "i \<in> set is" and "j \<in> set is" and "state (nodes c2 j) = Leader"
    and "currentTerm (nodes c1 i) \<le> currentTerm (nodes c2 j)"
  shows "prefix (take (Suc (unat (commitIndex (nodes c1 i)))) (entries (log (nodes c1 i))))
    (entries (log (nodes c2 j)))"
proof -
  obtain h1 h2 where h: "safety_inv h1 c1" "safety_inv h2 c2" "later h1 c1 h2 c2"
    "ids c1 = is" "ids c2 = is" using two_states [OF assms(1-3)] .
  show ?thesis by (rule leader_has_committed [OF h(1-3)]) (use assms(4-7) h(4,5) in simp_all)
qed

theorem leader_completeness_witness:
  "\<exists>c1 c2. ids_ok [''a'', ''b'', ''c''] \<and> reachable three_nodes c1 \<and> reachable c1 c2 \<and>
     commitIndex (nodes c1 ''a'') = 1 \<and> state (nodes c2 ''b'') = Leader \<and>
     currentTerm (nodes c1 ''a'') < currentTerm (nodes c2 ''b'') \<and>
     prefix (take (Suc 1) (entries (log (nodes c1 ''a'')))) (entries (log (nodes c2 ''b'')))"
proof -
  have ok: "ids_ok [''a'', ''b'', ''c'']" by (simp add: ids_ok_def)
  have "after commit_one three_nodes (\<lambda>c1. commitIndex (nodes c1 ''a'') = 1 \<and>
      currentTerm (nodes c1 ''a'') = 1 \<and>
      after [Election ''b'' 3, Deliver 6 0, Deliver 7 0] c1
        (\<lambda>c2. state (nodes c2 ''b'') = Leader \<and> currentTerm (nodes c2 ''b'') = 2))"
    by code_simp
  then obtain c1 c2 where c1: "reachable three_nodes c1" "commitIndex (nodes c1 ''a'') = 1"
      "currentTerm (nodes c1 ''a'') = 1"
    and c2: "reachable c1 c2" "state (nodes c2 ''b'') = Leader" "currentTerm (nodes c2 ''b'') = 2"
    by (auto elim!: afterE)
  have less: "currentTerm (nodes c1 ''a'') < currentTerm (nodes c2 ''b'')" by (simp add: c1(3) c2(3))
  have "prefix (take (Suc (unat (commitIndex (nodes c1 ''a'')))) (entries (log (nodes c1 ''a''))))
      (entries (log (nodes c2 ''b'')))"
    by (rule leader_completeness [OF ok c1(1) [unfolded three_nodes_def] c2(1)])
      (simp_all add: c2(2) less_imp_le [OF less])
  then have "prefix (take (Suc 1) (entries (log (nodes c1 ''a'')))) (entries (log (nodes c2 ''b'')))"
    by (simp add: c1(2))
  then show ?thesis using ok c1(1,2) c2(1,2) less by metis
qed

text \<open>
  C9. Monotonicity and durability. Along a run no node's term and no node's commit index ever
  decreases, the commit index stays inside the log, and the entries up to the commit index are
  never changed or removed again.
\<close>

theorem committed_never_lost:
  assumes "ids_ok is" and "reachable (init_cluster is w) c1" and "reachable c1 c2" and "i \<in> set is"
  shows "currentTerm (nodes c1 i) \<le> currentTerm (nodes c2 i) \<and>
    commitIndex (nodes c1 i) \<le> commitIndex (nodes c2 i) \<and>
    unat (commitIndex (nodes c1 i)) < length (entries (log (nodes c1 i))) \<and>
    prefix (take (Suc (unat (commitIndex (nodes c1 i)))) (entries (log (nodes c1 i))))
      (entries (log (nodes c2 i)))"
proof -
  obtain h1 h2 where h: "safety_inv h1 c1" "safety_inv h2 c2" "later h1 c1 h2 c2"
    "ids c1 = is" "ids c2 = is" using two_states [OF assms(1-3)] .
  have le: "currentTerm (nodes c1 i) \<le> currentTerm (nodes c2 i)"
    "commitIndex (nodes c1 i) \<le> commitIndex (nodes c2 i)" using h(3) by (auto simp: later_def)
  have "take (Suc (unat (commitIndex (nodes c1 i)))) (entries (log (nodes c1 i))) =
      take (Suc (unat (commitIndex (nodes c1 i)))) (entries (log (nodes c2 i)))"
    by (rule committed_agree [OF h(1-3)]) (use assms(4) h(4,5) le(2) in \<open>simp_all add: word_le_nat_alt\<close>)
  then show ?thesis using le node_ok(3) [OF h(1)] assms(4) h(4) take_is_prefix by metis
qed

theorem committed_never_lost_witness:
  "\<exists>c1 c2. ids_ok [''a'', ''b'', ''c''] \<and> reachable three_nodes c1 \<and> reachable c1 c2 \<and>
     commitIndex (nodes c1 ''a'') = 1 \<and> state (nodes c2 ''a'') = Follower \<and>
     currentTerm (nodes c1 ''a'') \<le> currentTerm (nodes c2 ''a'') \<and>
     commitIndex (nodes c1 ''a'') \<le> commitIndex (nodes c2 ''a'') \<and>
     prefix (take (Suc 1) (entries (log (nodes c1 ''a'')))) (entries (log (nodes c2 ''a'')))"
proof -
  have ok: "ids_ok [''a'', ''b'', ''c'']" by (simp add: ids_ok_def)
  have "after commit_one three_nodes (\<lambda>c1. commitIndex (nodes c1 ''a'') = 1 \<and>
      after [Election ''b'' 3, Deliver 5 0] c1 (\<lambda>c2. state (nodes c2 ''a'') = Follower))"
    by code_simp
  then obtain c1 c2 where c1: "reachable three_nodes c1" "commitIndex (nodes c1 ''a'') = 1"
    and c2: "reachable c1 c2" "state (nodes c2 ''a'') = Follower"
    by (auto elim!: afterE)
  have "''a'' \<in> set [''a'', ''b'', ''c'']" by simp
  from committed_never_lost [OF ok c1(1) [unfolded three_nodes_def] c2(1) this]
  show ?thesis using ok c1 c2 by (metis unat_1)
qed

end
