(* ===== verification/Go_Json_Laws.thy ===== *)
theory Go_Json_Laws
  imports Go_Json
begin

text \<open>
  Laws of the JSON codec: strings, numbers and byte slices survive \<open>Marshal\<close> followed by
  \<open>Unmarshal\<close> (strings up to the replacement of invalid UTF-8), objects are read back member by
  member, and the fuel of the parser is always enough.
\<close>

section \<open>Bytes\<close>

lemma byte_less [simp]: "byte c < 256"
  using nat_of_char_less_256 [of c] by simp

lemma byte_char_of: "n < 256 \<Longrightarrow> byte (char_of n) = n"
  by (simp add: of_char_of)

lemma byte_inject: "byte c = byte d \<longleftrightarrow> c = d"
  by (rule of_char_eq_iff)

lemma byte_eq_char: "byte c = n \<longleftrightarrow> n < 256 \<and> c = char_of n"
  by (metis byte_char_of byte_less char_of_char)

section \<open>UTF-8\<close>

lemma rune_len_eqs:
  "194 \<le> byte b0 \<Longrightarrow> byte b0 < 224 \<Longrightarrow> rune_len (b0 # b1 # r) = (if cont_byte b1 then 2 else 0)"
  "224 \<le> byte b0 \<Longrightarrow> byte b0 < 240 \<Longrightarrow>
     rune_len (b0 # b1 # b2 # r) = (if second_ok b0 b1 \<and> cont_byte b2 then 3 else 0)"
  "240 \<le> byte b0 \<Longrightarrow> byte b0 < 245 \<Longrightarrow>
     rune_len (b0 # b1 # b2 # b3 # r) =
       (if second_ok b0 b1 \<and> cont_byte b2 \<and> cont_byte b3 then 4 else 0)"
  by (simp_all add: rune_len_def)

lemma rune_len_zero:
  "rune_len [] = 0" "rune_len [b0] = 0" "byte b0 < 194 \<Longrightarrow> rune_len (b0 # bs) = 0"
  "245 \<le> byte b0 \<Longrightarrow> rune_len (b0 # bs) = 0" "224 \<le> byte b0 \<Longrightarrow> rune_len [b0, b1] = 0"
  "240 \<le> byte b0 \<Longrightarrow> rune_len [b0, b1, b2] = 0"
  by (cases bs; simp add: rune_len_def)+

lemma rune_len_cases:
  assumes "rune_len bs \<noteq> 0"
  obtains (two) b0 b1 r where "bs = b0 # b1 # r" "194 \<le> byte b0" "byte b0 < 224" "cont_byte b1"
    "rune_len bs = 2"
  | (three) b0 b1 b2 r where "bs = b0 # b1 # b2 # r" "224 \<le> byte b0" "byte b0 < 240"
    "second_ok b0 b1" "cont_byte b2" "rune_len bs = 3"
  | (four) b0 b1 b2 b3 r where "bs = b0 # b1 # b2 # b3 # r" "240 \<le> byte b0" "byte b0 < 245"
    "second_ok b0 b1" "cont_byte b2" "cont_byte b3" "rune_len bs = 4"
proof -
  from assms obtain b0 b1 r where bs: "bs = b0 # b1 # r"
    using rune_len_zero(1,2) by (metis neq_Nil_conv)
  have range: "194 \<le> byte b0" "byte b0 < 245"
    using assms rune_len_zero(3,4) [of b0] bs by (metis not_less)+
  then consider "byte b0 < 224" | "224 \<le> byte b0" "byte b0 < 240" | "240 \<le> byte b0" by linarith
  then show thesis
  proof cases
    case 1
    with assms range bs show ?thesis using rune_len_eqs(1) [of b0 b1 r] two by metis
  next
    case 2
    then obtain b2 r' where r: "r = b2 # r'"
      using assms bs rune_len_zero(5) [of b0 b1] by (cases r) auto
    with assms bs 2 show ?thesis using rune_len_eqs(2) [of b0 b1 b2 r'] three by metis
  next
    case 3
    then obtain b2 r' where r: "r = b2 # r'"
      using assms bs rune_len_zero(5) [of b0 b1] by (cases r) auto
    with 3 obtain b3 r'' where "r' = b3 # r''"
      using assms bs rune_len_zero(6) [of b0 b1 b2] by (cases r') auto
    with r assms bs range 3 show ?thesis using rune_len_eqs(3) [of b0 b1 b2 b3 r''] four by metis
  qed
qed

lemma rune_len_take:
  assumes "rune_len bs \<noteq> 0"
  shows "rune_len (take (rune_len bs) bs @ zs) = rune_len bs \<and> rune_len bs \<le> length bs \<and>
    2 \<le> rune_len bs"
  using assms
proof (cases rule: rune_len_cases)
  case two
  then show ?thesis using rune_len_eqs(1) by (simp add: numeral_2_eq_2)
next
  case three
  then show ?thesis using rune_len_eqs(2) by (simp add: numeral_3_eq_3)
next
  case four
  then show ?thesis using rune_len_eqs(3) by (simp add: eval_nat_numeral)
qed

lemma rune_len_le: "rune_len bs \<le> length bs"
  using rune_len_take [of bs] by (cases "rune_len bs = 0") auto

lemma take_rune:
  assumes "rune_len (c # cs) \<noteq> 0"
  shows "take (rune_len (c # cs)) (c # cs) = c # take (rune_len (c # cs) - 1) cs"
  using assms by (cases "rune_len (c # cs)") auto

section \<open>Strings\<close>

lemma hex_val_hex_char: "n < 16 \<Longrightarrow> hex_val (hex_char n) = Some n"
  by (auto simp: hex_val_def hex_char_def byte_char_of Let_def)

lemma unquote_simple:
  assumes "simple_escape e = Some d" "e \<noteq> CHR ''u''"
  shows "unquote (CHR 0x5C # e # cs) = map_option (\<lambda>(s, t). (d # s, t)) (unquote cs)"
  using assms by (simp add: unquote.simps(2))

lemma unquote_u:
  assumes "hex4 cs = Some (r, rest)" "\<not> is_surrogate r"
  shows "unquote (CHR 0x5C # CHR ''u'' # cs) =
    map_option (\<lambda>(s, t). (encode_rune r @ s, t)) (unquote rest)"
  using assms by (simp add: unquote.simps(2) unicode_escape_def)

lemma unquote_escape_ascii:
  assumes "byte c < 128"
  shows "unquote (escape_ascii c @ cs) = map_option (\<lambda>(s, t). (c # s, t)) (unquote cs)"
proof -
  consider (safe) "html_safe c" | (self) "\<not> html_safe c" "byte c = 92 \<or> byte c = 34"
    | (ctl) "\<not> html_safe c" "byte c = 8 \<or> byte c = 12 \<or> byte c = 10 \<or> byte c = 13 \<or> byte c = 9"
    | (hex) "\<not> html_safe c" "byte c \<notin> {92, 34, 8, 12, 10, 13, 9}" by blast
  then show ?thesis
  proof cases
    case safe
    with assms show ?thesis by (simp add: escape_ascii_def html_safe_def unquote.simps(2))
  next
    case self
    then have "simple_escape c = Some c" "c \<noteq> CHR ''u''" by (auto simp: simple_escape_def)
    with self show ?thesis by (simp add: escape_ascii_def unquote_simple)
  next
    case ctl
    then show ?thesis
      by (auto simp: escape_ascii_def unquote_simple simple_escape_def byte_eq_char)
  next
    case hex
    have "hex_val (CHR ''0'') = Some 0" by (simp add: hex_val_def)
    then have "hex4 (CHR ''0'' # CHR ''0'' # hex_char (byte c div 16) # hex_char (byte c mod 16) # cs) =
        Some (byte c, cs)"
      using assms by (simp add: hex4_def hex_val_hex_char)
    moreover have "\<not> is_surrogate (byte c)" using assms by (simp add: is_surrogate_def)
    moreover have "encode_rune (byte c) = [c]" using assms by (simp add: encode_rune_def)
    ultimately show ?thesis using hex by (simp add: escape_ascii_def unquote_u)
  qed
qed

lemma unquote_rune:
  assumes "128 \<le> byte c" "rune_len (c # cs) \<noteq> 0"
  shows "unquote (take (rune_len (c # cs)) (c # cs) @ zs) =
    map_option (\<lambda>(s, t). (take (rune_len (c # cs)) (c # cs) @ s, t)) (unquote zs)"
proof -
  let ?k = "rune_len (c # cs)"
  have k: "rune_len (take ?k (c # cs) @ zs) = ?k" "length (take ?k (c # cs)) = ?k" "0 < ?k"
    using rune_len_take [OF assms(2), of zs] by auto
  have hd: "take ?k (c # cs) @ zs = c # (take (?k - 1) cs @ zs)" using take_rune [OF assms(2)] by simp
  have "take ?k (c # take (?k - 1) cs @ zs) = take ?k (c # cs)"
    using hd k(2) by (metis append_eq_conv_conj)
  moreover have "drop (?k - 1) (take (?k - 1) cs @ zs) = zs"
    using k(2,3) take_rune [OF assms(2)] by (metis append_eq_conv_conj diff_Suc_1 length_Cons)
  moreover have "byte c \<noteq> 34" "byte c \<noteq> 92" "\<not> byte c < 32" "\<not> byte c < 128"
    using assms(1) by auto
  ultimately show ?thesis
    using k(1,3) unfolding hd by (simp add: unquote.simps(2))
qed

lemma hex4_literal:
  "hex4 (''fffd'' @ r) = Some (65533, r)" "hex4 (''2028'' @ r) = Some (8232, r)"
  "hex4 (''2029'' @ r) = Some (8233, r)"
  by (simp_all add: hex4_def hex_val_def)

lemma encode_rune_literal:
  "encode_rune 65533 = replacement" "encode_rune 8232 = [CHR 0xE2, CHR 0x80, CHR 0xA8]"
  "encode_rune 8233 = [CHR 0xE2, CHR 0x80, CHR 0xA9]"
  by code_simp+

text \<open>What a quoted string reads as: the string itself, with invalid bytes replaced.\<close>

lemma unquote_quote_body:
  "unquote (quote_body s @ CHR 0x22 # rest) = Some (coerce_utf8 s, rest)"
proof (induction s rule: quote_body.induct)
  case 1
  show ?case by (simp add: unquote.simps(2))
next
  case (2 c cs)
  let ?k = "rune_len (c # cs)" and ?e = "CHR 0x22 # rest"
  consider (ascii) "byte c < 128" | (bad) "128 \<le> byte c" "?k = 0" | (rune) "128 \<le> byte c" "?k \<noteq> 0"
    by linarith
  then show ?case
  proof cases
    case ascii
    with 2(1) show ?thesis
      by (simp add: quote_body.simps(2) coerce_utf8.simps(2) unquote_escape_ascii)
  next
    case bad
    with 2(2) have "unquote (quote_body cs @ ?e) = Some (coerce_utf8 cs, rest)" by simp
    then have "unquote (CHR 0x5C # CHR ''u'' # ''fffd'' @ quote_body cs @ ?e) =
        Some (replacement @ coerce_utf8 cs, rest)"
      using unquote_u [OF hex4_literal(1)] by (simp add: is_surrogate_def encode_rune_literal)
    with bad show ?thesis by (simp add: quote_body.simps(2) coerce_utf8.simps(2))
  next
    case rune
    let ?z = "quote_body (drop (?k - 1) cs) @ ?e" and ?r = "take ?k (c # cs)"
    from rune 2(3) have ih: "unquote ?z = Some (coerce_utf8 (drop (?k - 1) cs), rest)" by simp
    have "unquote (escape_rune ?r @ ?z) = Some (?r @ coerce_utf8 (drop (?k - 1) cs), rest)"
    proof -
      consider "?r = [CHR 0xE2, CHR 0x80, CHR 0xA8]" | "?r = [CHR 0xE2, CHR 0x80, CHR 0xA9]"
        | "escape_rune ?r = ?r" by (metis escape_rune_def)
      then show ?thesis
      proof cases
        case 1
        then show ?thesis unfolding escape_rune_def
          using unquote_u [OF hex4_literal(2), of ?z] ih by (simp add: is_surrogate_def encode_rune_literal)
      next
        case 2
        then show ?thesis unfolding escape_rune_def
          using unquote_u [OF hex4_literal(3), of ?z] ih by (simp add: is_surrogate_def encode_rune_literal)
      next
        case 3
        then show ?thesis using unquote_rune [OF rune, of ?z] ih by simp
      qed
    qed
    with rune show ?thesis by (simp add: quote_body.simps(2) coerce_utf8.simps(2) Let_def)
  qed
qed

section \<open>Numbers\<close>

lemma show_nat_ne: "show_nat n \<noteq> []"
  by (subst show_nat.simps) simp

lemma is_digit_char: "d < 10 \<Longrightarrow> is_digit (char_of (48 + d :: nat))"
  by (simp add: is_digit_def byte_char_of)

lemma show_nat_digits: "list_all is_digit (show_nat n)"
proof (induction n rule: less_induct)
  case (less n)
  show ?case
  proof (cases "n < 10")
    case True
    then show ?thesis by (subst show_nat.simps) (simp add: is_digit_char)
  next
    case False
    with less [of "n div 10"] show ?thesis
      by (subst show_nat.simps) (simp add: is_digit_char)
  qed
qed

lemma digits_val_snoc: "digits_val (ds @ [c]) = 10 * digits_val ds + (byte c - 48)"
  by (simp add: digits_val_def)

lemma digits_val_show_nat: "digits_val (show_nat n) = n"
proof (induction n rule: less_induct)
  case (less n)
  show ?case
  proof (cases "n < 10")
    case True
    then show ?thesis by (subst show_nat.simps) (simp add: digits_val_def byte_char_of)
  next
    case False
    with less [of "n div 10"] show ?thesis
      by (subst show_nat.simps) (simp add: digits_val_snoc byte_char_of)
  qed
qed

lemma show_nat_hd: "0 < n \<Longrightarrow> byte (hd (show_nat n)) \<noteq> 48"
proof (induction n rule: less_induct)
  case (less n)
  show ?case
  proof (cases "n < 10")
    case True
    with less(2) show ?thesis by (subst show_nat.simps) (simp add: byte_char_of)
  next
    case False
    with less(1) [of "n div 10"] show ?thesis
      by (subst show_nat.simps) (simp add: show_nat_ne div_greater_zero_iff)
  qed
qed

lemma show_nat_0: "show_nat 0 = ''0''"
  by code_simp

lemma ParseUint64_show_nat: "ParseUint64 (show_nat (unat x)) = Some x"
  using unat_u64_lt [of x] by (simp add: ParseUint64_def show_nat_ne show_nat_digits digits_val_show_nat)

text \<open>A character that cannot continue a number.\<close>

definition ends_number :: "bytes \<Rightarrow> bool" where
  "ends_number r \<longleftrightarrow> r = [] \<or>
     (\<not> is_digit (hd r) \<and> hd r \<noteq> CHR ''.'' \<and> hd r \<noteq> CHR ''e'' \<and> hd r \<noteq> CHR ''E'')"

lemma scan_digits_append:
  assumes "list_all is_digit ds" "ends_number r"
  shows "scan_digits (ds @ r) = (ds, r)"
  using assms by (cases r) (auto simp: scan_digits_def ends_number_def list_all_iff)

lemma scan_int_show_nat:
  assumes "ends_number r"
  shows "scan_int (show_nat n @ r) = Some (show_nat n, r)"
proof (cases "n = 0")
  case True
  then show ?thesis by (simp add: scan_int_def show_nat_0)
next
  case False
  obtain c cs where s: "show_nat n = c # cs" using show_nat_ne by (cases "show_nat n") auto
  then have "byte c \<noteq> 48" "is_digit c" using show_nat_hd [of n] show_nat_digits [of n] False by auto
  then show ?thesis
    using scan_digits_append [OF show_nat_digits assms, of n] s by (simp add: scan_int_def)
qed

lemma scan_number_show_nat:
  assumes "ends_number r"
  shows "scan_number (show_nat n @ r) = Some (show_nat n, r)"
proof -
  obtain c cs where s: "show_nat n = c # cs" using show_nat_ne by (cases "show_nat n") auto
  then have "is_digit c" using show_nat_digits [of n] by simp
  then have "c \<noteq> CHR ''-''" by (auto simp: is_digit_def)
  moreover have "scan_frac r = Some ([], r)" "scan_exp r = Some ([], r)"
    using assms by (cases r; simp add: scan_frac_def scan_exp_def ends_number_def)+
  ultimately show ?thesis
    using scan_int_show_nat [OF assms, of n] s by (simp add: scan_number_def)
qed

section \<open>Base64\<close>

lemma b64_val_char: "n < 64 \<Longrightarrow> b64_val (b64_char n) = Some n"
  by (auto simp: b64_val_def b64_char_def byte_char_of Let_def)

lemma b64_val_eq: "b64_val (CHR ''='') = None"
  by (simp add: b64_val_def)

lemma pack16: "y < 16 \<Longrightarrow> (x * 16 + y) div 16 = x \<and> (x * 16 + y) mod 16 = (y::nat)"
  by simp

lemma pack4: "y < 4 \<Longrightarrow> (x * 4 + y) div 4 = x \<and> (x * 4 + y) mod 4 = (y::nat)"
  by simp

lemma split_byte: "byte b div 16 < 16" "byte b div 64 < 4" "byte b div 4 < 64"
  using byte_less [of b] by (simp_all add: less_mult_imp_div_less)

lemma b64_groups_encode: "b64_groups (b64_encode b) = Some b"
proof (induction b rule: b64_encode.induct)
  case (2 a)
  have "byte a mod 4 * 16 < 64" using mod_less_divisor [of 4 "byte a"] by linarith
  with split_byte [of a] show ?case by (simp add: b64_val_char b64_val_eq)
next
  case (3 a b)
  have "byte a mod 4 * 16 + byte b div 16 < 64" "byte b mod 16 * 4 < 64"
    using mod_less_divisor [of 4 "byte a"] mod_less_divisor [of 16 "byte b"] split_byte [of b] by linarith+
  with split_byte [of a] pack16 [OF split_byte(1), of "byte a mod 4" b] show ?case
    by (simp add: b64_val_char b64_val_eq)
next
  case (4 a b c r)
  have "byte a mod 4 * 16 + byte b div 16 < 64" "byte b mod 16 * 4 + byte c div 64 < 64"
    using mod_less_divisor [of 4 "byte a"] mod_less_divisor [of 16 "byte b"] split_byte [of b]
      split_byte [of c] by linarith+
  with 4 split_byte [of a] pack16 [OF split_byte(1), of "byte a mod 4" b]
    pack4 [OF split_byte(2), of "byte b mod 16" c] show ?case
    by (simp add: b64_val_char)
qed simp

definition plain :: "char \<Rightarrow> bool" where
  "plain c \<longleftrightarrow> 32 \<le> byte c \<and> byte c < 128 \<and> byte c \<noteq> 34 \<and> byte c \<noteq> 92"

lemma unquote_plain:
  "list_all plain s \<Longrightarrow> unquote (s @ CHR 0x22 # rest) = Some (s, rest)"
  by (induction s) (auto simp: unquote.simps(2) plain_def)

lemma plain_b64_char: "n < 64 \<Longrightarrow> plain (b64_char n)"
  by (auto simp: plain_def b64_char_def byte_char_of)

lemma b64_encode_plain: "list_all plain (b64_encode b)"
proof (induction b rule: b64_encode.induct)
  case (2 a)
  have "byte a mod 4 * 16 < 64" using mod_less_divisor [of 4 "byte a"] by linarith
  with split_byte [of a] show ?case by (simp add: plain_b64_char) (simp add: plain_def)
next
  case (3 a b)
  have "byte a mod 4 * 16 + byte b div 16 < 64" "byte b mod 16 * 4 < 64"
    using mod_less_divisor [of 4 "byte a"] mod_less_divisor [of 16 "byte b"] split_byte [of b] by linarith+
  with split_byte [of a] show ?case by (simp add: plain_b64_char) (simp add: plain_def)
next
  case (4 a b c r)
  have "byte a mod 4 * 16 + byte b div 16 < 64" "byte b mod 16 * 4 + byte c div 64 < 64"
    using mod_less_divisor [of 4 "byte a"] mod_less_divisor [of 16 "byte b"] split_byte [of b]
      split_byte [of c] by linarith+
  with 4 split_byte [of a] show ?case by (simp add: plain_b64_char)
qed simp

lemma b64_decode_encode: "b64_decode (b64_encode b) = Some b"
proof -
  have "filter (\<lambda>c. byte c \<noteq> 10 \<and> byte c \<noteq> 13) (b64_encode b) = b64_encode b"
    using b64_encode_plain [of b] by (intro filter_True) (auto simp: list_all_iff plain_def)
  then show ?thesis unfolding b64_decode_def by (simp only: b64_groups_encode)
qed

section \<open>Values and objects\<close>

text \<open>The bytes \<open>v\<close> are read as the value \<open>j\<close>, whatever follows them in an object.\<close>

definition reads_as :: "bytes \<Rightarrow> jval \<Rightarrow> bool" where
  "reads_as v j \<longleftrightarrow> (\<forall>f d r. ends_number r \<longrightarrow> parse_value (Suc f) d (v @ r) = Some (j, r))"

lemma reads_json_string: "reads_as (json_string s) (JStr (coerce_utf8 s))"
  by (simp add: reads_as_def json_string_def unquote_quote_body)

lemma reads_json_uint64: "reads_as (json_uint64 n) (JNum (show_nat (unat n)))"
proof -
  obtain c cs where s: "show_nat (unat n) = c # cs" using show_nat_ne by (cases "show_nat (unat n)") auto
  then have d: "is_digit c" using show_nat_digits [of "unat n"] by simp
  then have "c \<notin> {CHR ''{'', CHR ''['', CHR ''t'', CHR ''f'', CHR ''n''}" "byte c \<noteq> 34"
    "skip_ws (c # r) = c # r" for r
    by (auto simp: is_digit_def)
  then show ?thesis
    using scan_number_show_nat [of _ "unat n"] s by (simp add: reads_as_def json_uint64_def)
qed

lemma reads_json_bytes:
  "reads_as (json_bytes b) (if b = [] then JNull else JStr (b64_encode b))"
  by (simp add: reads_as_def json_bytes_def expect_def unquote_plain b64_encode_plain)

lemma set_back:
  "set_string old (JStr s) = Some s" "set_uint64 old' (JNum (show_nat (unat n))) = Some n"
  "set_bytes old'' (if b = [] then JNull else JStr (b64_encode b)) = Some b"
  by (simp_all add: set_string_def set_uint64_def set_bytes_def ParseUint64_show_nat b64_decode_encode)

lemma json_members_Cons:
  "json_members ((k, v) # ms) =
     json_string k @ CHR '':'' # v @ (if ms = [] then [] else CHR '','' # json_members ms)"
  by (cases ms) auto

lemma parse_json_members:
  assumes "list_all2 (\<lambda>(k, v) (k', j). k' = coerce_utf8 k \<and> reads_as v j) ms js" "ms \<noteq> []"
    "length ms < f"
  shows "parse_members f d (json_members ms @ CHR ''}'' # r) = Some (js, r)"
  using assms
proof (induction ms js arbitrary: f rule: list_all2_induct)
  case (Cons kv ms kj js)
  obtain k v k' j where kv: "kv = (k, v)" "kj = (k', j)" by (cases kv; cases kj)
  with Cons(1) have j: "k' = coerce_utf8 k" "reads_as v j" by simp_all
  from Cons(5) obtain g where f: "f = Suc (Suc g)" "length ms < Suc g" by (cases f; cases "f - 1") auto
  let ?t = "(if ms = [] then [] else CHR '','' # json_members ms) @ CHR ''}'' # r"
  have "ends_number ?t" by (simp add: ends_number_def is_digit_def)
  then have pv: "parse_value (Suc g) d (v @ ?t) = Some (j, ?t)" using j(2) by (simp add: reads_as_def)
  have "json_members (kv # ms) @ CHR ''}'' # r =
      CHR 0x22 # quote_body k @ CHR 0x22 # CHR '':'' # v @ ?t"
    by (simp add: kv json_members_Cons json_string_def)
  then have "parse_members f d (json_members (kv # ms) @ CHR ''}'' # r) =
      (case skip_ws ?t of
         g' # r3 \<Rightarrow> if g' = CHR '','' then map_option (apfst (Cons (coerce_utf8 k, j))) (parse_members (Suc g) d r3)
                  else if g' = CHR ''}'' then Some ([(coerce_utf8 k, j)], r3) else None
       | [] \<Rightarrow> None)"
    by (simp add: f unquote_quote_body pv del: parse_value.simps)
  moreover have "ms \<noteq> [] \<Longrightarrow> parse_members (Suc g) d (json_members ms @ CHR ''}'' # r) = Some (js, r)"
    using Cons(3) [of "Suc g"] f(2) by simp
  moreover have "ms = [] \<Longrightarrow> js = []" using Cons(2) by simp
  ultimately show ?case by (cases "ms = []") (simp_all add: kv j(1) del: parse_members.simps)
qed simp

lemma json_members_length: "length ms \<le> length (json_members ms)"
  by (induction ms rule: json_members.induct) (auto simp: json_string_def)

lemma json_parse_object:
  assumes "list_all2 (\<lambda>(k, v) (k', j). k' = coerce_utf8 k \<and> reads_as v j) ms js" "ms \<noteq> []"
  shows "json_parse (json_object ms) = Some (JObj js)"
proof -
  let ?f = "length (json_object ms)"
  have "length ms < ?f" using json_members_length [of ms] by (simp add: json_object_def)
  then have pm: "parse_members ?f 1 (json_members ms @ CHR ''}'' # []) = Some (js, [])"
    by (rule parse_json_members [OF assms])
  obtain k v ms' where "ms = (k, v) # ms'" using assms(2) by (cases ms) auto
  then obtain t where t: "json_members ms = CHR 0x22 # t" by (simp add: json_members_Cons json_string_def)
  have "parse_value (Suc ?f) 0 (json_object ms) = Some (JObj js, [])"
    using pm by (simp add: json_object_def t max_depth_def del: parse_members.simps)
  then show ?thesis by (simp add: json_parse_def del: parse_value.simps)
qed

end
