(* ===== verification/Kv_Store_Laws.thy ===== *)
theory Kv_Store_Laws
  imports Kv_Store Go_Json_Laws
begin

text \<open>
  Correctness of the key-value store: the commands that \<open>SerializePut\<close> and \<open>SerializeDelete\<close>
  write do what their names say when \<open>Apply\<close> reads them, and the store implements a finite map.
  The map's laws are a locale; what a sequence of operations leaves in a map is proved once from
  the laws.
\<close>

section \<open>Maps and operations on them\<close>

datatype kv_op = KvPut string string | KvDelete string

fun op_key :: "kv_op \<Rightarrow> string" where
  "op_key (KvPut k v) = k"
| "op_key (KvDelete k) = k"

fun op_value :: "kv_op \<Rightarrow> string option" where
  "op_value (KvPut k v) = Some v"
| "op_value (KvDelete k) = None"

text \<open>The last operation on a key.\<close>

definition last_op :: "string \<Rightarrow> kv_op list \<Rightarrow> kv_op option" where
  "last_op k ops = find (\<lambda>p. op_key p = k) (rev ops)"

text \<open>An operation in terms of a map's update and removal.\<close>

fun perform :: "(string \<Rightarrow> string \<Rightarrow> 's \<Rightarrow> 's) \<Rightarrow> (string \<Rightarrow> 's \<Rightarrow> 's) \<Rightarrow> kv_op \<Rightarrow> 's \<Rightarrow> 's" where
  "perform upd rem (KvPut k v) m = upd k v m"
| "perform upd rem (KvDelete k) m = rem k m"

locale string_map =
  fixes empty :: 's and update :: "string \<Rightarrow> string \<Rightarrow> 's \<Rightarrow> 's"
    and remove :: "string \<Rightarrow> 's \<Rightarrow> 's" and lookup :: "'s \<Rightarrow> string \<Rightarrow> string option"
  assumes lookup_empty: "lookup empty k = None"
    and lookup_update: "lookup (update k v m) k' = (if k' = k then Some v else lookup m k')"
    and lookup_remove: "lookup (remove k m) k' = (if k' = k then None else lookup m k')"
begin

lemma lookup_perform:
  "lookup (perform update remove p m) k = (if k = op_key p then op_value p else lookup m k)"
  by (cases p) (simp_all add: lookup_update lookup_remove)

lemma lookup_sequence:
  "lookup (fold (perform update remove) ops m) k = (case last_op k ops of Some p \<Rightarrow> op_value p | None \<Rightarrow> lookup m k)"
  by (induction ops rule: rev_induct) (auto simp: last_op_def lookup_perform)

lemma lookup_from_empty:
  "lookup (fold (perform update remove) ops empty) k = Option.bind (last_op k ops) op_value"
  by (simp add: lookup_sequence lookup_empty split: option.split)

end

text \<open>The store is such a map; \<open>Get\<close> returns the looked-up value with the flag of its presence.\<close>

definition get_option :: "KVStore \<Rightarrow> string \<Rightarrow> string option" where
  "get_option s k = (case Get s k of (v, ok) \<Rightarrow> if ok then Some v else None)"

lemma get_option_eq: "get_option s = data s"
  by (rule ext) (simp add: get_option_def Get_def split: option.split)

interpretation kv: string_map NewKVStore Put Delete get_option
  by unfold_locales (auto simp: get_option_eq NewKVStore_def Put_def Delete_def)

section \<open>Commands\<close>

definition op_command :: "kv_op \<Rightarrow> bytes" where
  "op_command p = (case p of KvPut k v \<Rightarrow> SerializePut k v | KvDelete k \<Rightarrow> SerializeDelete k)"

definition op_valid :: "kv_op \<Rightarrow> bool" where
  "op_valid p \<longleftrightarrow> (case p of KvPut k v \<Rightarrow> valid_utf8 k \<and> valid_utf8 v | KvDelete k \<Rightarrow> valid_utf8 k)"

lemma coerce_names:
  "coerce_utf8 ''op'' = ''op''" "coerce_utf8 ''key'' = ''key''" "coerce_utf8 ''value'' = ''value''"
  "coerce_utf8 ''put'' = ''put''" "coerce_utf8 ''delete'' = ''delete''" "coerce_utf8 [] = []"
  by code_simp+

lemma command_fields:
  "field_match ''op'' ''op''" "\<not> field_match ''op'' ''key''" "\<not> field_match ''op'' ''value''"
  "field_match ''key'' ''key''" "\<not> field_match ''key'' ''value''" "field_match ''value'' ''value''"
  by code_simp+

lemma unmarshal_marshal_Command:
  "unmarshal_Command (marshal_Command c) =
     Some \<lparr>cmd_Op = coerce_utf8 (cmd_Op c), cmd_Key = coerce_utf8 (cmd_Key c),
           cmd_Value = coerce_utf8 (cmd_Value c)\<rparr>"
proof -
  let ?js = "[(''op'', JStr (coerce_utf8 (cmd_Op c))), (''key'', JStr (coerce_utf8 (cmd_Key c)))] @
    (if cmd_Value c = [] then [] else [(''value'', JStr (coerce_utf8 (cmd_Value c)))])"
  have "json_parse (marshal_Command c) = Some (JObj ?js)"
    unfolding marshal_Command_def
    by (rule json_parse_object) (simp_all add: coerce_names reads_json_string)
  then show ?thesis
    by (simp add: unmarshal_Command_def Unmarshal_def set_Command_def command_fields set_back coerce_names)
qed

lemma Apply_op_command:
  assumes "op_valid p"
  shows "Apply (op_command p) s = Inr (perform Put Delete p s)"
  using assms
  by (cases p)
    (simp_all add: op_valid_def op_command_def Apply_def SerializePut_def SerializeDelete_def
      unmarshal_marshal_Command CmdPut_def CmdDelete_def coerce_names valid_utf8_def)

text \<open>One sequential store, fed with commands as the apply consumer feeds it.\<close>

definition run_store :: "bytes list \<Rightarrow> KVStore" where
  "run_store cs = fold consume cs NewKVStore"

lemma consume_op_command:
  assumes "op_valid p"
  shows "consume (op_command p) s = perform Put Delete p s"
proof -
  have "op_command p \<noteq> []"
    by (simp add: op_command_def SerializePut_def SerializeDelete_def marshal_Command_def json_object_def
        split: kv_op.split)
  then show ?thesis by (simp add: consume_def Apply_op_command [OF assms])
qed

lemma run_store_ops:
  assumes "list_all op_valid ops"
  shows "fold consume (map op_command ops) s = fold (perform Put Delete) ops s"
  using assms by (induction ops arbitrary: s) (simp_all add: consume_op_command)

text \<open>
  C21. Command round trip. Applying a serialised put or delete to a store puts or deletes exactly
  the key (and value) it was made from, up to the replacement of bytes that are not valid UTF-8,
  and never fails.
\<close>

theorem command_roundtrip:
  "Apply (SerializePut k v) s = Inr (Put (coerce_utf8 k) (coerce_utf8 v) s) \<and>
   Apply (SerializeDelete k) s = Inr (Delete (coerce_utf8 k) s)"
  by (simp add: Apply_def SerializePut_def SerializeDelete_def unmarshal_marshal_Command
      CmdPut_def CmdDelete_def coerce_names)



end
