(* ===== verification/Raft_Apply.thy ===== *)
theory Raft_Apply
  imports Raft_Theorems Kv_Store_Laws
begin

text \<open>
  From the log to the key-value stores: the apply loop, the apply channel and the consumer of
  \<open>cmd/server/main.go\<close>. Every store is the result of running a prefix of the committed commands,
  in order and each exactly once, so all stores follow the same sequence of states.
\<close>

section \<open>Specification\<close>

text \<open>The commands of a node's log, in order.\<close>

definition commands :: "Node \<Rightarrow> bytes list" where
  "commands n = map le_Command (drop 1 (entries (log n)))"

text \<open>What the apply loop still has to send, and the index it is working towards.\<close>

definition pending :: "cluster \<Rightarrow> NodeID \<Rightarrow> LogEntry list" where
  "pending c i = (case applying c i of None \<Rightarrow> [] | Some (es, k) \<Rightarrow> es)"

definition target :: "cluster \<Rightarrow> NodeID \<Rightarrow> nat" where
  "target c i = (case applying c i of None \<Rightarrow> unat (lastApplied (nodes c i)) | Some (es, k) \<Rightarrow> unat k)"

text \<open>The store has consumed \<open>m\<close> commands; the channel and the loop hold the next ones.\<close>

definition applied :: "cluster \<Rightarrow> NodeID \<Rightarrow> nat \<Rightarrow> bool" where
  "applied c i m \<longleftrightarrow>
     m \<le> target c i \<and> unat (lastApplied (nodes c i)) \<le> target c i \<and>
     target c i \<le> unat (commitIndex (nodes c i)) \<and>
     stores c i = run_store (take m (commands (nodes c i))) \<and>
     applyCh (nodes c i) @ pending c i =
       drop (Suc m) (take (Suc (target c i)) (entries (log (nodes c i))))"

text \<open>Everything committed has been applied, sent and consumed.\<close>

definition quiet :: "cluster \<Rightarrow> NodeID \<Rightarrow> bool" where
  "quiet c i \<longleftrightarrow> applying c i = None \<and> applyCh (nodes c i) = [] \<and>
     lastApplied (nodes c i) = commitIndex (nodes c i)"

definition apply_inv :: "cluster \<Rightarrow> bool" where
  "apply_inv c \<longleftrightarrow> (\<forall>i \<in> set (ids c). \<exists>m. applied c i m)"

section \<open>Preservation\<close>

lemma target_cong:
  "lastApplied (nodes c' i) = lastApplied (nodes c i) \<Longrightarrow> applying c' i = applying c i \<Longrightarrow>
     target c' i = target c i"
  "applying c' i = applying c i \<Longrightarrow> pending c' i = pending c i"
  by (simp_all add: target_def pending_def split: option.splits)

lemma commands_take:
  assumes "take (Suc k) (entries (log n')) = take (Suc k) (entries (log n))" "m \<le> k"
  shows "take m (commands n') = take m (commands n)"
proof -
  have "take m (drop 1 es) = drop 1 (take (Suc m) es)" for es :: "LogEntry list"
    by (simp add: drop_take)
  then show ?thesis
    using take_le_eq [OF assms(1), of "Suc m"] assms(2) by (simp add: commands_def take_map)
qed

lemma applied_keep:
  assumes ap: "applied c i m"
    and pre: "take (Suc (unat (commitIndex (nodes c i)))) (entries (log (nodes c' i))) =
      take (Suc (unat (commitIndex (nodes c i)))) (entries (log (nodes c i)))"
    and com: "commitIndex (nodes c i) \<le> commitIndex (nodes c' i)"
    and same: "lastApplied (nodes c' i) = lastApplied (nodes c i)"
      "applyCh (nodes c' i) = applyCh (nodes c i)" "applying c' i = applying c i"
      "stores c' i = stores c i"
  shows "applied c' i m"
proof -
  have tgt: "target c' i = target c i" "pending c' i = pending c i"
    by (rule target_cong; simp add: same)+
  have le: "target c i \<le> unat (commitIndex (nodes c i))" "m \<le> target c i"
    using ap by (simp_all add: applied_def)
  have "take (Suc (target c i)) (entries (log (nodes c' i))) =
      take (Suc (target c i)) (entries (log (nodes c i)))"
    using take_le_eq [OF pre] le(1) by simp
  moreover have "take m (commands (nodes c' i)) = take m (commands (nodes c i))"
    using commands_take [OF pre] le by simp
  ultimately show ?thesis
    using ap com by (auto simp: applied_def same tgt word_le_nat_alt)
qed

lemma kind_applied:
  assumes si: "safety_inv h c" and e: "election_inv c" "election_inv c'" and k: "kind_step c x c'"
    and ids: "ids_ok (ids c)" and i: "i \<in> set (ids c)" and ap: "applied c i m"
    and same: "lastApplied (nodes c' i) = lastApplied (nodes c i)"
      "applyCh (nodes c' i) = applyCh (nodes c i)" "applying c' i = applying c i"
      "stores c' i = stores c i"
  shows "applied c' i m"
proof -
  let ?h = "record_leaders c' h" and ?k = "unat (commitIndex (nodes c i))"
  have st: "hstep h c x ?h c'" using si e k by (simp add: hstep_def safety_inv_def)
  have si': "safety_inv ?h c'" by (rule safety_step [OF si e ids k])
  have lt: "later h c ?h c'" by (rule hstep_later [OF st si])
  have i': "i \<in> set (ids c')" using i lt by (simp add: later_def)
  have com: "commitIndex (nodes c i) \<le> commitIndex (nodes c' i)" using lt by (simp add: later_def)
  note n = node_ok [OF si i] and n' = node_ok [OF si' i']
  have "completeness_inv ?h c'" using si' by (simp add: safety_inv_def)
  then have "take (Suc ?k) (entries (log (nodes c' i))) = take (Suc ?k) (entries (log (nodes c i)))"
    by (rule covered_agree [OF _ n'(2) covered_later [OF lt n(2)] n'(1) n(1)])
      (use com in \<open>simp_all add: word_le_nat_alt\<close>)
  then show ?thesis by (rule applied_keep [OF ap _ com same])
qed

text \<open>The sections of the Raft protocol do not touch the apply side.\<close>

lemma protocol_frame:
  assumes "cstep c c'"
  obtains (protocol) "\<And>i. lastApplied (nodes c' i) = lastApplied (nodes c i)"
      "\<And>i. applyCh (nodes c' i) = applyCh (nodes c i)" "applying c' = applying c" "stores c' = stores c"
  | (begins) i r where "i \<in> set (ids c)" "applying c i = None" "apply_begin (nodes c i) = Some r"
      "c' = c\<lparr>applying := (applying c)(i := r)\<rparr>"
  | (sends) i e es k n' where "i \<in> set (ids c)" "applying c i = Some (e # es, k)"
      "apply_send e (nodes c i) = Some n'"
      "c' = (put_node i n' c)\<lparr>applying := (applying c)(i := Some (es, k))\<rparr>"
  | (finishes) i k where "i \<in> set (ids c)" "applying c i = Some ([], k)"
      "c' = (put_node i (apply_finish k (nodes c i)) c)\<lparr>applying := (applying c)(i := None)\<rparr>"
  | (receives) i e es where "i \<in> set (ids c)" "applyCh (nodes c i) = e # es"
      "c' = (put_node i ((nodes c i)\<lparr>applyCh := es\<rparr>) c)
         \<lparr>stores := (stores c)(i := consume (le_Command e) (stores c i))\<rparr>"
  using assms
proof (cases rule: cstep.cases)
  case (election i rnd n' args)
  then show thesis
    using startElection_Some [OF election(3)] by (intro protocol) (auto simp: cluster_update)
next
  case (heartbeat i t k)
  then show thesis
    by (intro protocol)
      (auto simp: cluster_update rearm_heartbeat_def split: option.splits)
next
  case (vote_request src dst args rnd n' reply)
  then show thesis
    using HandleRequestVote_frame [OF vote_request(3)]
    by (intro protocol) (auto simp: cluster_update)
next
  case (vote_reply src dst t reply rnd)
  let ?n = "nodes c dst"
  have "lastApplied (handleVoteReply rnd src t reply ?n) = lastApplied ?n \<and>
      applyCh (handleVoteReply rnd src t reply ?n) = applyCh ?n"
    by (cases rule: handleVoteReply_cases [of rnd src t reply ?n]) simp_all
  with vote_reply show thesis by (intro protocol) (auto simp: put_node_def)
next
  case (append_request src dst k args rnd n' reply)
  then show thesis
    using HandleAppendEntries_frame [OF append_request(3)]
    by (intro protocol) (auto simp: cluster_update)
next
  case (append_reply src dst k t es reply rnd n')
  from append_reply(3) have "lastApplied n' = lastApplied (nodes c dst) \<and>
      applyCh n' = applyCh (nodes c dst)"
    by (cases rule: append_reply_cases)
      (simp_all add: advanceCommit_frame handleConflict_frame)
  with append_reply show thesis by (intro protocol) (auto simp: put_node_def)
next
  case (submit i cmd n' r)
  from submit(3) have "lastApplied n' = lastApplied (nodes c i) \<and> applyCh n' = applyCh (nodes c i)"
    by (cases rule: submit_append_cases) simp_all
  with submit show thesis by (intro protocol) (auto simp: put_node_def)
qed (use protocol begins sends finishes receives in \<open>auto simp: cluster_update\<close>)

lemma applied_begin:
  assumes ap: "applied c i m" and none: "applying c i = None"
    and ok: "entries_ok (entries (log (nodes c i)))"
      "unat (commitIndex (nodes c i)) < length (entries (log (nodes c i)))"
    and b: "apply_begin (nodes c i) = Some r"
  shows "applied (c\<lparr>applying := (applying c)(i := r)\<rparr>) i m"
proof (cases "lastApplied (nodes c i) \<ge> commitIndex (nodes c i)")
  case True
  with b have "r = None" by (simp add: apply_begin_def)
  with none have "c\<lparr>applying := (applying c)(i := r)\<rparr> = c"
    by (metis cluster.surjective cluster.update_convs(4) fun_upd_triv)
  with ap show ?thesis by simp
next
  case False
  let ?n = "nodes c i"
  let ?la = "unat (lastApplied ?n)" and ?k = "unat (commitIndex ?n)" and ?es = "entries (log ?n)"
  have la: "?la < ?k" using False by (simp add: word_le_nat_alt not_le)
  have len: "?k < length ?es" "length ?es < max_len" using ok entries_ok_len by auto
  have "unat (lastApplied ?n + 1) = Suc ?la" using la len by (intro unat_Suc_len) simp
  then have "Entries (log ?n) (lastApplied ?n + 1) (commitIndex ?n) =
      Some (drop (Suc ?la) (take (Suc ?k) ?es))"
    using Entries_eq [of "log ?n" "lastApplied ?n + 1" "commitIndex ?n"] la len
    by (cases "?es = []") auto
  with b False have r: "r = Some (drop (Suc ?la) (take (Suc ?k) ?es), commitIndex ?n)"
    by (simp add: apply_begin_def)
  have m: "m \<le> ?la" "applyCh ?n = drop (Suc m) (take (Suc ?la) ?es)"
    using ap none by (simp_all add: applied_def target_def pending_def)
  have "drop (Suc m) (take (Suc ?la) ?es) @ drop (Suc ?la) (take (Suc ?k) ?es) =
      drop (Suc m) (take (Suc ?k) ?es)"
  proof -
    have "take (Suc ?k) ?es = take (Suc ?la) ?es @ drop (Suc ?la) (take (Suc ?k) ?es)"
      using append_take_drop_id [of "Suc ?la" "take (Suc ?k) ?es"] la by (simp add: min_absorb1)
    then have "drop (Suc m) (take (Suc ?k) ?es) =
        drop (Suc m) (take (Suc ?la) ?es @ drop (Suc ?la) (take (Suc ?k) ?es))" by simp
    also have "\<dots> = drop (Suc m) (take (Suc ?la) ?es) @ drop (Suc ?la) (take (Suc ?k) ?es)"
      using m(1) la len by (simp add: drop_append)
    finally show ?thesis by simp
  qed
  then show ?thesis
    using ap m la r by (simp add: applied_def target_def pending_def)
qed

lemma applied_send:
  assumes ap: "applied c i m" and p: "applying c i = Some (e # es, k)"
    and s: "apply_send e (nodes c i) = Some n'"
  shows "applied ((put_node i n' c)\<lparr>applying := (applying c)(i := Some (es, k))\<rparr>) i m"
proof -
  have "n' = (nodes c i)\<lparr>applyCh := applyCh (nodes c i) @ [e]\<rparr>"
    using s by (simp add: apply_send_def split: if_splits)
  with ap p show ?thesis by (simp add: applied_def target_def pending_def put_node_def commands_def)
qed

lemma applied_finish:
  assumes ap: "applied c i m" and p: "applying c i = Some ([], k)"
  shows "applied ((put_node i (apply_finish k (nodes c i)) c)\<lparr>applying := (applying c)(i := None)\<rparr>) i m"
  using ap p by (simp add: applied_def target_def pending_def put_node_def apply_finish_def commands_def)

lemma applied_receive:
  assumes ap: "applied c i m" and ch: "applyCh (nodes c i) = e # es"
  shows "applied ((put_node i ((nodes c i)\<lparr>applyCh := es\<rparr>) c)
    \<lparr>stores := (stores c)(i := consume (le_Command e) (stores c i))\<rparr>) i (Suc m)"
proof -
  let ?n = "nodes c i" and ?t = "target c i"
  let ?es = "entries (log (nodes c i))"
  have q: "e # (es @ pending c i) = drop (Suc m) (take (Suc ?t) ?es)"
    using ap ch by (simp add: applied_def)
  then have m: "Suc m < length ?es" "Suc m \<le> ?t" "e = ?es ! Suc m"
    "es @ pending c i = drop (Suc (Suc m)) (take (Suc ?t) ?es)"
  proof -
    have "Suc m < length (take (Suc ?t) ?es)"
      using q by (metis drop_eq_Nil2 list.distinct(1) not_le)
    then show "Suc m < length ?es" "Suc m \<le> ?t" by auto
    show "e = ?es ! Suc m"
      using q \<open>Suc m < length (take (Suc ?t) ?es)\<close>
      by (metis Cons_nth_drop_Suc list.inject length_take min_less_iff_conj nth_take)
    show "es @ pending c i = drop (Suc (Suc m)) (take (Suc ?t) ?es)"
      using q by (metis drop_Suc list.sel(3) tl_drop)
  qed
  have "take (Suc m) (commands ?n) = take m (commands ?n) @ [le_Command e]"
    using m(1,3) by (simp add: commands_def take_Suc_conv_app_nth)
  then have "consume (le_Command e) (stores c i) = run_store (take (Suc m) (commands ?n))"
    using ap by (simp add: applied_def run_store_def)
  then show ?thesis
    using ap m(2,4) target_cong [of "(put_node i (?n\<lparr>applyCh := es\<rparr>) c)
        \<lparr>stores := (stores c)(i := consume (le_Command e) (stores c i))\<rparr>" i c]
    by (simp add: applied_def put_node_def commands_def)
qed

lemma applied_other:
  assumes "applied c j m" "nodes c' j = nodes c j" "applying c' j = applying c j" "stores c' j = stores c j"
  shows "applied c' j m"
  using assms target_cong [of c' j c] by (simp add: applied_def)

lemma apply_inv_step:
  assumes ap: "apply_inv c" and si: "safety_inv h c" and e: "election_inv c" and ids: "ids_ok (ids c)"
    and small: "terms_small c" and st: "cstep c c'"
  shows "apply_inv c'"
proof -
  have ids': "ids c' = ids c" by (rule cstep_ids [OF st])
  have "\<exists>m. applied c' j m" if j: "j \<in> set (ids c)" for j
  proof -
    obtain m where m: "applied c j m" using ap j by (auto simp: apply_inv_def)
    note other = applied_other [OF m, of c']
    from st show ?thesis
    proof (cases rule: protocol_frame)
      case protocol
      obtain x where x: "kind_step c x c'" using cstep_kind [OF e small st] by blast
      have "applied c' j m"
        by (rule kind_applied [OF si e cstep_election_inv [OF e ids small st] x ids j m])
          (simp_all add: protocol)
      then show ?thesis by blast
    next
      case (begins i r)
      have "applied c' j m"
      proof (cases "j = i")
        case True
        then show ?thesis
          using applied_begin [OF m _ node_ok(1) [OF si j] node_ok(3) [OF si j], of r] begins by simp
      next
        case False
        show ?thesis by (rule other) (simp_all add: begins(4) False)
      qed
      then show ?thesis by blast
    next
      case (sends i e es k n')
      have "applied c' j m"
      proof (cases "j = i")
        case True
        then show ?thesis using applied_send [OF m, of e es k n'] sends by simp
      next
        case False
        show ?thesis by (rule other) (simp_all add: sends(4) put_node_def False)
      qed
      then show ?thesis by blast
    next
      case (finishes i k)
      have "applied c' j m"
      proof (cases "j = i")
        case True
        then show ?thesis using applied_finish [OF m, of k] finishes by simp
      next
        case False
        show ?thesis by (rule other) (simp_all add: finishes(3) put_node_def False)
      qed
      then show ?thesis by blast
    next
      case (receives i e es)
      show ?thesis
      proof (cases "j = i")
        case True
        then show ?thesis using applied_receive [OF m, of e es] receives by blast
      next
        case False
        have "applied c' j m" by (rule other) (simp_all add: receives(3) put_node_def False)
        then show ?thesis by blast
      qed
    qed
  qed
  then show ?thesis by (simp add: apply_inv_def ids')
qed

lemma init_apply_inv: "apply_inv (init_cluster is w)"
  by (auto simp: apply_inv_def applied_def init_cluster_def NewNode_def target_def pending_def
      run_store_def intro!: exI [of _ 0])

lemma hreach_apply_inv:
  assumes "hreach (init_cluster is w) h c" "ids_ok is"
  shows "apply_inv c"
  using assms(1)
proof (induction rule: hreach.induct)
  case start
  show ?case by (rule init_apply_inv)
next
  case (step h c c')
  have inv: "election_inv c" "ids_ok (ids c)"
    using hreach_reachable [OF step(1) init_election_inv] assms(2) by (auto simp: init_cluster_def)
  show ?case
    by (rule apply_inv_step [OF step(4) safety.hreach_inv [OF step(1) assms(2)] inv step(2,3)])
qed

lemma reachable_applied:
  assumes "ids_ok is" "reachable (init_cluster is w) c" "i \<in> set is"
  obtains m where "applied c i m"
proof -
  obtain h where "hreach (init_cluster is w) h c"
    using safety.reachable_hist [OF assms(2,1)] .
  then have "apply_inv c" by (rule hreach_apply_inv [OF _ assms(1)])
  moreover have "ids c = is" using elections.reachable_inv(2) [OF assms(2,1)] .
  ultimately show thesis using that assms(3) by (auto simp: apply_inv_def)
qed

lemma applied_bounds:
  assumes "applied c i m"
  shows "m \<le> unat (commitIndex (nodes c i))" "unat (lastApplied (nodes c i)) \<le> unat (commitIndex (nodes c i))"
    "stores c i = run_store (take m (commands (nodes c i)))"
  using assms by (auto simp: applied_def)

lemma quiescent_applied:
  assumes ap: "applied c i m" and q: "quiet c i"
    and len: "unat (commitIndex (nodes c i)) < length (entries (log (nodes c i)))"
  shows "m = unat (commitIndex (nodes c i))"
proof -
  have "m \<le> unat (commitIndex (nodes c i))"
    "drop (Suc m) (take (Suc (unat (commitIndex (nodes c i)))) (entries (log (nodes c i)))) = []"
    using ap q by (simp_all add: applied_def target_def pending_def quiet_def)
  with len show ?thesis by simp
qed

lemma quiet_store:
  assumes "ids_ok is" "reachable (init_cluster is w) c" "j \<in> set is" "quiet c j"
  shows "stores c j = run_store (take (unat (commitIndex (nodes c j))) (commands (nodes c j)))"
proof -
  obtain m where m: "applied c j m" using reachable_applied [OF assms(1-3)] .
  obtain h where h: "safety_inv h c" using safety.reachable_hist [OF assms(2,1)] .
  have "ids c = is" using elections.reachable_inv(2) [OF assms(2,1)] .
  then have "m = unat (commitIndex (nodes c j))"
    using quiescent_applied [OF m assms(4)] node_ok(3) [OF h] assms(3) by simp
  then show ?thesis using applied_bounds(3) [OF m] by simp
qed

section \<open>Theorems\<close>

text \<open>
  C7. Replicated state machine. Every key-value store, at every moment of a run, is what one
  sequential store holds after a number of commands from the beginning of one common sequence
  of committed commands: whichever two stores are compared, at the same or at different moments,
  there is one such sequence for both.
\<close>

theorem stores_follow_one_sequence:
  assumes "ids_ok is" and "reachable (init_cluster is w) c1" and "reachable c1 c2"
    and "i \<in> set is" and "j \<in> set is"
  shows "\<exists>cs m k. stores c1 i = run_store (take m cs) \<and> stores c2 j = run_store (take k cs) \<and>
    m \<le> unat (commitIndex (nodes c1 i)) \<and> k \<le> unat (commitIndex (nodes c2 j)) \<and>
    prefix (take m cs) (commands (nodes c1 i)) \<and> prefix (take k cs) (commands (nodes c2 j))"
proof -
  obtain h1 h2 where h: "safety_inv h1 c1" "safety_inv h2 c2" "later h1 c1 h2 c2"
    "ids c1 = is" "ids c2 = is" using two_states [OF assms(1-3)] .
  obtain m where m: "applied c1 i m" using reachable_applied [OF assms(1,2,4)] .
  obtain k where k: "applied c2 j k"
    using reachable_applied [OF assms(1) reachable_trans [OF assms(3,2)] assms(5)] .
  let ?l = "min (unat (commitIndex (nodes c1 i))) (unat (commitIndex (nodes c2 j)))"
  have "take (Suc ?l) (entries (log (nodes c1 i))) = take (Suc ?l) (entries (log (nodes c2 j)))"
    by (rule committed_agree [OF h(1-3)]) (use assms(4,5) h(4,5) in simp_all)
  then have eq: "n \<le> ?l \<Longrightarrow> take n (commands (nodes c1 i)) = take n (commands (nodes c2 j))" for n
    by (rule commands_take)
  note b = applied_bounds [OF m] applied_bounds [OF k]
  show ?thesis
  proof (cases "k \<le> m")
    case True
    then have "take k (commands (nodes c1 i)) = take k (commands (nodes c2 j))" using eq b(1,4) by simp
    note same = this b take_is_prefix
    show ?thesis
      by (rule exI [of _ "commands (nodes c1 i)"], rule exI [of _ m], rule exI [of _ k])
        (use same in metis)
  next
    case False
    then have "take m (commands (nodes c1 i)) = take m (commands (nodes c2 j))" using eq b(1,4) by simp
    note same = this b take_is_prefix
    show ?thesis
      by (rule exI [of _ "commands (nodes c2 j)"], rule exI [of _ m], rule exI [of _ k])
        (use same in metis)
  qed
qed

text \<open>A run that commits a put and applies it on \<open>a\<close>, and a continuation that applies it on \<open>b\<close>.\<close>

definition put_command :: bytes where
  "put_command = SerializePut ''k'' ''v''"

definition apply_at :: "NodeID \<Rightarrow> event list" where
  "apply_at i = [ApplyBegin i, ApplySend i, ApplyFinish i, ApplyReceive i]"

definition put_at_a :: "event list" where
  "put_at_a = elect_a @ [Submit ''a'' put_command, ReplicateTick ''a'' ''b'', Deliver 3 5, Deliver 4 6]
     @ apply_at ''a''"

definition put_at_b :: "event list" where
  "put_at_b = tell_b @ apply_at ''b''"

theorem stores_follow_one_sequence_witness:
  "\<exists>c1 c2 cs m k. ids_ok [''a'', ''b'', ''c''] \<and> reachable three_nodes c1 \<and> reachable c1 c2 \<and>
     Get (stores c1 ''a'') ''k'' = (''v'', True) \<and> Get (stores c2 ''b'') ''k'' = ([], False) \<and>
     stores c1 ''a'' = run_store (take m cs) \<and> stores c2 ''b'' = run_store (take k cs)"
proof -
  have ok: "ids_ok [''a'', ''b'', ''c'']" by (simp add: ids_ok_def)
  have "after put_at_a three_nodes (\<lambda>c1. Get (stores c1 ''a'') ''k'' = (''v'', True) \<and>
      after tell_b c1 (\<lambda>c2. Get (stores c2 ''b'') ''k'' = ([], False)))"
    by code_simp
  then obtain c1 c2 where c1: "reachable three_nodes c1" "Get (stores c1 ''a'') ''k'' = (''v'', True)"
    and c2: "reachable c1 c2" "Get (stores c2 ''b'') ''k'' = ([], False)"
    by (auto elim!: afterE)
  have "''a'' \<in> set [''a'', ''b'', ''c'']" "''b'' \<in> set [''a'', ''b'', ''c'']" by simp_all
  from stores_follow_one_sequence [OF ok c1(1) [unfolded three_nodes_def] c2(1) this]
  show ?thesis using ok c1 c2 by metis
qed

text \<open>
  C12. Quiescent stores. Once a node has applied everything it knows to be committed and its
  apply channel is drained, its store is the result of running exactly its committed commands in
  log order; so two such nodes with the same commit index have the same store.
\<close>

theorem quiescent_stores_equal:
  assumes "ids_ok is" and "reachable (init_cluster is w) c1" and "reachable c1 c2"
    and "i \<in> set is" and "j \<in> set is"
    and "quiet c1 i" and "quiet c2 j"
    and "commitIndex (nodes c1 i) = commitIndex (nodes c2 j)"
  shows "stores c1 i = run_store (take (unat (commitIndex (nodes c1 i))) (commands (nodes c1 i))) \<and>
    stores c1 i = stores c2 j"
proof -
  obtain h1 h2 where h: "safety_inv h1 c1" "safety_inv h2 c2" "later h1 c1 h2 c2"
    "ids c1 = is" "ids c2 = is" using two_states [OF assms(1-3)] .
  obtain m where m: "applied c1 i m" using reachable_applied [OF assms(1,2,4)] .
  obtain k where k: "applied c2 j k"
    using reachable_applied [OF assms(1) reachable_trans [OF assms(3,2)] assms(5)] .
  have "m = unat (commitIndex (nodes c1 i))"
    by (rule quiescent_applied [OF m]) (use assms(4,6) h(4) node_ok(3) [OF h(1)] in simp_all)
  moreover have "k = unat (commitIndex (nodes c2 j))"
    by (rule quiescent_applied [OF k]) (use assms(5,7) h(5) node_ok(3) [OF h(2)] in simp_all)
  moreover have "take (Suc (unat (commitIndex (nodes c1 i)))) (entries (log (nodes c1 i))) =
      take (Suc (unat (commitIndex (nodes c1 i)))) (entries (log (nodes c2 j)))"
    by (rule committed_agree [OF h(1-3)]) (use assms(4,5,8) h(4,5) in simp_all)
  ultimately show ?thesis
    using commands_take [OF _ order_refl] applied_bounds(3) [OF m] applied_bounds(3) [OF k] assms(8)
    by metis
qed

theorem quiescent_stores_equal_witness:
  "\<exists>c1 c2. ids_ok [''a'', ''b'', ''c''] \<and> reachable three_nodes c1 \<and> reachable c1 c2 \<and>
     commitIndex (nodes c1 ''a'') = 1 \<and> commitIndex (nodes c2 ''b'') = 1 \<and>
     Get (stores c1 ''a'') ''k'' = (''v'', True) \<and> stores c1 ''a'' = stores c2 ''b''"
proof -
  have ok: "ids_ok [''a'', ''b'', ''c'']" by (simp add: ids_ok_def)
  have "after put_at_a three_nodes (\<lambda>c1. Get (stores c1 ''a'') ''k'' = (''v'', True) \<and>
      quiet c1 ''a'' \<and> commitIndex (nodes c1 ''a'') = 1 \<and>
      after put_at_b c1 (\<lambda>c2. quiet c2 ''b'' \<and> commitIndex (nodes c2 ''b'') = 1))"
    by code_simp
  then obtain c1 c2 where c1: "reachable three_nodes c1" "commitIndex (nodes c1 ''a'') = 1"
      "Get (stores c1 ''a'') ''k'' = (''v'', True)" "quiet c1 ''a''"
    and c2: "reachable c1 c2" "commitIndex (nodes c2 ''b'') = 1" "quiet c2 ''b''"
    by (auto elim!: afterE)
  have "stores c1 ''a'' = stores c2 ''b''"
    by (rule conjunct2 [OF quiescent_stores_equal
          [OF ok c1(1) [unfolded three_nodes_def] c2(1) _ _ c1(4) c2(3)]])
      (simp_all add: c1(2) c2(2))
  then show ?thesis using ok c1 c2 by metis
qed

section \<open>Acknowledged commands\<close>

text \<open>The poll on which the wait of \<open>SubmitCommand\<close> succeeds.\<close>

lemma submit_wait_ok:
  assumes "submit_wait index t ns = Inr r"
  shows "r = (index, t) \<and>
    (\<exists>n \<in> set ns. state n = Leader \<and> currentTerm n = t \<and> index \<le> lastApplied n)"
  using assms by (induction index t ns rule: submit_wait.induct) (auto split: if_splits)

lemma SubmitCommand_ok:
  assumes "SubmitCommand cmd n polls = Some (n', Inr (index, t))"
  shows "submit_append cmd n = Some (n', Inr (index, t))"
    "\<exists>p \<in> set polls. state p = Leader \<and> currentTerm p = t \<and> index \<le> lastApplied p"
proof -
  from assms obtain r where r: "submit_append cmd n = Some (n', r)"
    "(case r of Inl e \<Rightarrow> Inl e | Inr (index, term) \<Rightarrow> submit_wait index term polls) = Inr (index, t)"
    by (auto simp: SubmitCommand_def bind_eq_Some_conv)
  then obtain a b where ab: "r = Inr (a, b)" "submit_wait a b polls = Inr (index, t)"
    by (cases r) auto
  with r submit_wait_ok [OF ab(2)] show "submit_append cmd n = Some (n', Inr (index, t))"
    "\<exists>p \<in> set polls. state p = Leader \<and> currentTerm p = t \<and> index \<le> lastApplied p" by auto
qed

lemma submit_append_entry:
  assumes "submit_append cmd n = Some (n', Inr (index, t))" "entries_ok (entries (log n))"
  shows "t = currentTerm n" "state n = Leader" "state n' = Leader" "currentTerm n' = currentTerm n"
    "entries (log n') = entries (log n) @ [\<lparr>le_Term = t, le_Index = index, le_Command = cmd\<rparr>]"
    "unat index = length (entries (log n))"
proof -
  let ?e = "\<lparr>le_Term = currentTerm n, le_Index = LastIndex (log n) + 1, le_Command = cmd\<rparr>"
  have lead: "state n = Leader"
    using assms(1) by (auto simp: submit_append_def split: if_splits)
  from assms(1) lead obtain l where l: "Append (log n) [?e] = Some l"
    by (auto simp: submit_append_def Let_def bind_eq_Some_conv)
  with assms(1) lead have r: "t = currentTerm n" "index = LastIndex (log n) + 1" "log n' = l"
      "state n' = state n" "currentTerm n' = currentTerm n"
    by (auto simp: submit_append_def Let_def split: option.splits prod.splits)
  show "t = currentTerm n" "state n = Leader" "state n' = Leader" "currentTerm n' = currentTerm n"
    using r lead by simp_all
  show "entries (log n') = entries (log n) @ [\<lparr>le_Term = t, le_Index = index, le_Command = cmd\<rparr>]"
    using l unfolding r(1-3) by (auto simp: Append_def bind_eq_Some_conv go_append_Some)
  have "unat (LastIndex (log n)) = length (entries (log n)) - 1" "0 < length (entries (log n))"
    "length (entries (log n)) < max_len"
    using unat_LastIndex [OF assms(2)] entries_ok_len [OF assms(2)] by auto
  then show "unat index = length (entries (log n))"
    using unat_Suc_len [of "LastIndex (log n)"] r(2) by simp
qed

lemma acknowledged_at:
  assumes ok: "ids_ok is" and r: "reachable (init_cluster is w) c"
      "reachable (init_cluster is w) (put_node i n' c)" "reachable (put_node i n' c) p" "reachable p c3"
    and ij: "i \<in> set is" "j \<in> set is"
    and sub: "submit_append cmd (nodes c i) = Some (n', Inr (index, t))"
    and p: "state (nodes p i) = Leader" "currentTerm (nodes p i) = t" "index \<le> lastApplied (nodes p i)"
    and j: "state (nodes c3 j) = Leader \<and> t \<le> currentTerm (nodes c3 j) \<or>
      index \<le> commitIndex (nodes c3 j)"
  shows "unat index < length (entries (log (nodes c3 j))) \<and>
    entries (log (nodes c3 j)) ! unat index = \<lparr>le_Term = t, le_Index = index, le_Command = cmd\<rparr>"
proof -
  let ?e = "\<lparr>le_Term = t, le_Index = index, le_Command = cmd\<rparr>" and ?c = "put_node i n' c"
  obtain h where h: "safety_inv h c" using safety.reachable_hist [OF r(1) ok] .
  have "ids c = is" using elections.reachable_inv(2) [OF r(1) ok] .
  then have eok: "entries_ok (entries (log (nodes c i)))" using node_ok(1) [OF h] ij(1) by simp
  note e = submit_append_entry [OF sub eok]
  obtain h0 h1 where h1: "log_inv h0 ?c" "log_inv h1 p" "hext h0 h1" "ids ?c = is" "ids p = is"
    using reachable_log_inv [OF ok r(2,3)] .
  have "prefix (entries (log n')) (entries (log (nodes p i)))"
    using leader_log_grows [OF h1(1-3), of i] e p ij(1) h1(4,5) by (simp add: put_node_def)
  then have ep: "unat index < length (entries (log (nodes p i)))" "entries (log (nodes p i)) ! unat index = ?e"
    using e(5,6) by (auto simp: prefix_def nth_append)
  have rp: "reachable (init_cluster is w) p" by (rule reachable_trans [OF r(3,2)])
  obtain m where m: "applied p i m" using reachable_applied [OF ok rp ij(1)] .
  have com: "unat index \<le> unat (commitIndex (nodes p i))"
    using applied_bounds(2) [OF m] p(3) by (simp add: word_le_nat_alt)
  obtain h2 h3 where h3: "safety_inv h2 p" "safety_inv h3 c3" "later h2 p h3 c3" "ids p = is" "ids c3 = is"
    using two_states [OF ok rp r(4)] .
  from j show ?thesis
  proof
    assume lead: "state (nodes c3 j) = Leader \<and> t \<le> currentTerm (nodes c3 j)"
    have "prefix (take (Suc (unat (commitIndex (nodes p i)))) (entries (log (nodes p i))))
        (entries (log (nodes c3 j)))"
      by (rule leader_has_committed [OF h3(1-3)]) (use lead p(2) ij h3(4,5) in simp_all)
    then show ?thesis using ep com by (auto simp: prefix_def nth_append)
  next
    assume "index \<le> commitIndex (nodes c3 j)"
    then have cj: "unat index \<le> unat (commitIndex (nodes c3 j))" by (simp add: word_le_nat_alt)
    have "take (Suc (unat index)) (entries (log (nodes p i))) =
        take (Suc (unat index)) (entries (log (nodes c3 j)))"
      by (rule committed_agree [OF h3(1-3) _ _ com cj]) (use ij h3(4,5) in simp_all)
    moreover have "unat index < length (entries (log (nodes c3 j)))"
      using node_ok(3) [OF h3(2)] ij(2) h3(5) cj by fastforce
    ultimately show ?thesis using ep by (metis lessI nth_take)
  qed
qed

text \<open>The successful poll of an acknowledged command, as a state of the run.\<close>

lemma acknowledged_poll:
  assumes "ids_ok is" and "reachable (init_cluster is w) c" and "i \<in> set is" and "terms_small c"
    and "SubmitCommand cmd (nodes c i) (map (\<lambda>c. nodes c i) polls) = Some (n', Inr (index, t))"
    and "\<forall>p \<in> set polls. reachable (put_node i n' c) p \<and> reachable p c3"
  obtains p where "submit_append cmd (nodes c i) = Some (n', Inr (index, t))"
    "reachable (init_cluster is w) (put_node i n' c)" "reachable (put_node i n' c) p" "reachable p c3"
    "state (nodes p i) = Leader" "currentTerm (nodes p i) = t" "index \<le> lastApplied (nodes p i)"
proof -
  have sub: "submit_append cmd (nodes c i) = Some (n', Inr (index, t))"
    by (rule SubmitCommand_ok(1) [OF assms(5)])
  have "ids c = is" using elections.reachable_inv(2) [OF assms(2,1)] .
  then have "exec (Submit i cmd) c = Some (put_node i n' c)" using sub assms(3) by simp
  then have "reachable (init_cluster is w) (put_node i n' c)" using reachable.step [OF assms(2,4)] by blast
  then show thesis using SubmitCommand_ok(2) [OF assms(5)] sub assms(6) that by auto
qed

text \<open>
  C3. Acknowledged commands are durable. When \<open>SubmitCommand\<close> returns an index and a term to its
  caller, polling the node at any later moments of the run, then from the successful poll on
  every leader of that or a later term has the command at that index, and so has every node that
  knows the index to be committed.
\<close>

theorem acknowledged_command_durable:
  assumes "ids_ok is" and "reachable (init_cluster is w) c" and "i \<in> set is" and "terms_small c"
    and "SubmitCommand cmd (nodes c i) (map (\<lambda>c. nodes c i) polls) = Some (n', Inr (index, t))"
    and "\<forall>p \<in> set polls. reachable (put_node i n' c) p \<and> reachable p c3"
    and "j \<in> set is"
    and "state (nodes c3 j) = Leader \<and> t \<le> currentTerm (nodes c3 j) \<or>
      index \<le> commitIndex (nodes c3 j)"
  shows "unat index < length (entries (log (nodes c3 j))) \<and>
    entries (log (nodes c3 j)) ! unat index = \<lparr>le_Term = t, le_Index = index, le_Command = cmd\<rparr>"
proof -
  obtain p where p: "submit_append cmd (nodes c i) = Some (n', Inr (index, t))"
    "reachable (init_cluster is w) (put_node i n' c)" "reachable (put_node i n' c) p" "reachable p c3"
    "state (nodes p i) = Leader" "currentTerm (nodes p i) = t" "index \<le> lastApplied (nodes p i)"
    using acknowledged_poll [OF assms(1-6)] .
  show ?thesis
    by (rule acknowledged_at [OF assms(1,2) p(2-4) assms(3,7) p(1,5-7) assms(8)])
qed

theorem acknowledged_command_durable_witness:
  "\<exists>c p c3 n'. ids_ok [''a'', ''b'', ''c''] \<and> reachable three_nodes c \<and>
     SubmitCommand put_command (nodes c ''a'') [nodes p ''a''] = Some (n', Inr (1, 1)) \<and>
     reachable (put_node ''a'' n' c) p \<and> reachable p c3 \<and>
     state (nodes c3 ''b'') = Leader \<and> currentTerm (nodes c3 ''b'') = 2 \<and>
     entries (log (nodes c3 ''b'')) ! 1 = \<lparr>le_Term = 1, le_Index = 1, le_Command = put_command\<rparr>"
proof -
  have ok: "ids_ok [''a'', ''b'', ''c'']" by (simp add: ids_ok_def)
  have "after elect_a three_nodes (\<lambda>c. terms_small c \<and>
      (case submit_append put_command (nodes c ''a'') of None \<Rightarrow> False | Some (n', r) \<Rightarrow>
        r = Inr (1, 1) \<and>
        after ([ReplicateTick ''a'' ''b'', Deliver 3 5, Deliver 4 6] @ apply_at ''a'') (put_node ''a'' n' c)
         (\<lambda>p. submit_wait 1 1 [nodes p ''a''] = Inr (1, 1) \<and>
           after [Election ''b'' 3, Deliver 6 0, Deliver 7 0] p
            (\<lambda>c3. state (nodes c3 ''b'') = Leader \<and> currentTerm (nodes c3 ''b'') = 2))))"
    by code_simp
  then obtain c n' p c3 where c: "reachable three_nodes c" "terms_small c"
      "submit_append put_command (nodes c ''a'') = Some (n', Inr (1, 1))"
    and p: "reachable (put_node ''a'' n' c) p" "submit_wait 1 1 [nodes p ''a''] = Inr (1, 1)"
    and c3: "reachable p c3" "state (nodes c3 ''b'') = Leader" "currentTerm (nodes c3 ''b'') = 2"
    by (auto elim!: afterE split: option.splits prod.splits simp del: submit_wait.simps)
  have sub: "SubmitCommand put_command (nodes c ''a'') (map (\<lambda>c. nodes c ''a'') [p]) =
      Some (n', Inr (1, 1))"
    using c(3) p(2) by (simp add: SubmitCommand_def del: submit_wait.simps)
  have polls: "\<forall>q \<in> set [p]. reachable (put_node ''a'' n' c) q \<and> reachable q c3"
    using p(1) c3(1) by simp
  have "entries (log (nodes c3 ''b'')) ! unat (1::LogIndex) =
      \<lparr>le_Term = 1, le_Index = 1, le_Command = put_command\<rparr>"
    by (rule conjunct2 [OF acknowledged_command_durable
          [OF ok c(1) [unfolded three_nodes_def] _ c(2) sub polls]])
      (simp_all add: c3(2,3))
  then have "entries (log (nodes c3 ''b'')) ! 1 = \<lparr>le_Term = 1, le_Index = 1, le_Command = put_command\<rparr>"
    by simp
  moreover have "SubmitCommand put_command (nodes c ''a'') [nodes p ''a''] = Some (n', Inr (1, 1))"
    using sub by simp
  ultimately show ?thesis using ok c(1) p(1) c3 by blast
qed

end
