(* ===== verification/Raft_Total.thy ===== *)
theory Raft_Total
  imports Raft_Theorems
begin

text \<open>
  No panics.  The handlers index slices with 64-bit numbers that travel through messages and
  through \<open>nextIndex\<close> and \<open>matchIndex\<close>; an index of 0 or beyond the range of \<open>int\<close> would crash a
  node.  An invariant of the cluster keeps them in range, and in range every section returns.
\<close>

section \<open>Sections that always return\<close>

lemma append_loop_total:
  assumes "unat idx + length es < max_len" "0 < unat idx" "length (entries (log n)) < max_len"
  shows "\<exists>n'. append_entries_loop idx es n = Some n'"
  using assms
proof (induction es arbitrary: idx)
  case (Cons e es)
  have idx: "unat idx < max_len" "unat (idx - 1) < max_len" "unat (idx - 1) = unat idx - 1"
    using Cons.prems(1,2) unat_pred [of idx] by (simp_all add: word_less_nat_alt)
  show ?case
  proof (cases "Contains (log n) idx")
    case True
    then have c: "unat idx < length (entries (log n))" using idx by (simp add: Contains_small)
    show ?thesis
    proof (cases "le_Term (entries (log n) ! unat idx) = le_Term e")
      case same: True
      have "unat (idx + 1) = Suc (unat idx)" using unat_Suc_len [OF idx(1)] .
      then have "\<exists>n'. append_entries_loop (idx + 1) es n = Some n'"
        using Cons.IH [of "idx + 1"] Cons.prems by simp
      then show ?thesis using True c same by simp
    next
      case False
      have "TruncateAfter (log n) (idx - 1) = Some ((log n)\<lparr>entries := take (unat idx) (entries (log n))\<rparr>)"
        using TruncateAfter_eq [OF Cons.prems(3) idx(2)] idx(3) Cons.prems(2) by simp
      moreover have "min (length (entries (log n))) (unat idx) + Suc (length es) < max_len"
        using Cons.prems(1) by simp
      ultimately show ?thesis using True c False by (simp add: Append_def go_append_def)
    qed
  next
    case False
    then have "length (entries (log n)) \<le> unat idx" using idx by (simp add: Contains_small)
    then show ?thesis using False Cons.prems(1) by (simp add: Append_def go_append_def)
  qed
qed simp

lemma check_prev_total:
  assumes "unat (ae_PrevLogIndex a) < max_len"
  shows "\<exists>r. check_prev a n = Some r"
  using assms by (auto simp: check_prev_def Contains_small)

lemma HandleAppendEntries_total:
  assumes "unat (ae_PrevLogIndex a) + Suc (length (ae_Entries a)) < max_len" "length (entries (log n)) < max_len"
  shows "\<exists>n' reply. HandleAppendEntries rnd a n = Some (n', reply)"
proof (cases "ae_Term a < currentTerm n")
  case False
  let ?n = "accept_leader rnd a n"
  have p: "unat (ae_PrevLogIndex a) < max_len" using assms(1) by simp
  obtain chk where "check_prev a ?n = Some chk" using check_prev_total [OF p] by blast
  moreover have "\<exists>n4. append_entries_loop (ae_PrevLogIndex a + 1) (ae_Entries a) ?n = Some n4"
    using append_loop_total [of "ae_PrevLogIndex a + 1" "ae_Entries a" ?n] unat_Suc_len [OF p] assms by simp
  ultimately show ?thesis
    using False by (cases chk) (auto simp: HandleAppendEntries_def Let_def)
qed (simp add: HandleAppendEntries_def)

lemma build_args_total:
  assumes "entries_ok (entries (log n))" "0 < go_get 0 (nextIndex n) p"
    "unat (go_get 0 (nextIndex n) p) \<le> length (entries (log n))"
  obtains a where "build_args p t k n = Some a" "unat (ae_PrevLogIndex a) = unat (go_get 0 (nextIndex n) p) - 1"
    "ae_PrevLogTerm a = le_Term (entries (log n) ! unat (ae_PrevLogIndex a))"
    "ae_Entries a = drop (unat (go_get 0 (nextIndex n) p)) (entries (log n))" "ae_Term a = t"
proof -
  let ?x = "go_get 0 (nextIndex n) p"
  have u: "unat (?x - 1) = unat ?x - 1" "0 < unat ?x" "unat ?x < max_len"
    using unat_pred [OF assms(2)] assms(2,3) entries_ok_len [OF assms(1)] by (auto simp: word_less_nat_alt)
  then have "TermAt (log n) (?x - 1) = Some (le_Term (entries (log n) ! unat (?x - 1)))"
    using assms(3) by simp
  then show thesis
    using that u EntriesFrom_eq [OF assms(1), of ?x] by (simp add: build_args_def Let_def)
qed

section \<open>Conflict hints\<close>

lemma find_last_loop_spec:
  assumes "entries_ok (entries l)" "k < length (entries l)"
  shows "(\<exists>j. 0 < j \<and> j \<le> k \<and> le_Term (entries l ! j) = t \<and> find_last_loop l t k = Some (of_nat j)) \<or>
    (\<forall>j. 0 < j \<and> j \<le> k \<longrightarrow> le_Term (entries l ! j) \<noteq> t) \<and> find_last_loop l t k = Some 0"
  using assms(2)
proof (induction k)
  case (Suc k)
  have "TermAt l (of_nat (Suc k)) = Some (le_Term (entries l ! Suc k))"
    using Suc.prems entries_ok_len [OF assms(1)] TermAt_in [of "of_nat (Suc k)" l] unat_of_nat_len [of "Suc k"]
    by simp
  then show ?case using Suc by (auto simp: le_Suc_eq)
qed simp

lemma find_first_index:
  assumes "entries_ok (entries l)" "0 < j" "j < length (entries l)" "le_Term (entries l ! j) = t"
  shows "0 < FindFirstIndexOfTerm l t \<and> unat (FindFirstIndexOfTerm l t) \<le> j"
proof -
  let ?es = "drop 1 (entries l)"
  let ?P = "\<lambda>k. k < length ?es \<and> le_Term (?es ! k) = t"
  have len: "length (entries l) < max_len" using entries_ok_len [OF assms(1)] by simp
  have P: "?P (j - 1)" using assms(2-4) by simp
  then have least: "?P (LEAST k. ?P k)" "(LEAST k. ?P k) \<le> j - 1" by (rule LeastI, rule Least_le)
  have "FindFirstIndexOfTerm l t = 1 + of_nat (LEAST k. ?P k)"
    unfolding FindFirstIndexOfTerm_def
    using find_first_loop_spec [of 1 ?es t] P len by auto
  moreover have "unat (1 + of_nat (LEAST k. ?P k) :: u64) = Suc (LEAST k. ?P k)"
    using unat_of_nat_len [of "Suc (LEAST k. ?P k)"] least(2) assms(3) len by simp
  ultimately show ?thesis using least(2) assms(2) by (simp add: word_less_nat_alt)
qed

section \<open>Indices stay in range\<close>

text \<open>
  \<open>nextIndex\<close> never becomes 0 and no index of a peer leaves the range of \<open>int\<close>; a leader has an
  entry for every peer.  \<open>idx_step\<close> also says that entries stay.
\<close>

definition in_range :: "LogIndex \<Rightarrow> bool" where
  "in_range x \<longleftrightarrow> 0 < x \<and> unat x < max_len"

declare in_range_def [range_words] word_less_nat_alt [range_words]

definition indices_ok :: "Node \<Rightarrow> bool" where
  "indices_ok n \<longleftrightarrow>
     (\<forall>p x. nextIndex n p = Some x \<longrightarrow> in_range x) \<and>
     (\<forall>p x. matchIndex n p = Some x \<longrightarrow> unat x < max_len) \<and>
     (state n = Leader \<longrightarrow> (\<forall>p \<in> set (peers n). nextIndex n p \<noteq> None))"

definition idx_step :: "Node \<Rightarrow> Node \<Rightarrow> bool" where
  "idx_step n n' \<longleftrightarrow> (indices_ok n \<longrightarrow> indices_ok n') \<and> dom (nextIndex n) \<subseteq> dom (nextIndex n')"

lemma idx_same:
  assumes "nextIndex n' = nextIndex n" "matchIndex n' = matchIndex n" "peers n' = peers n"
    "state n' = Leader \<Longrightarrow> state n = Leader"
  shows "idx_step n n'"
  using assms by (auto simp: idx_step_def indices_ok_def)

lemma idx_trans: "idx_step n m \<Longrightarrow> idx_step m k \<Longrightarrow> idx_step n k"
  by (auto simp: idx_step_def)

lemma in_range_Suc: "Suc (unat x) < max_len \<Longrightarrow> in_range (x + 1)"
  using unat_Suc_len [of x] by (simp add: range_words)

lemma in_range_LastIndex: "entries_ok (entries l) \<Longrightarrow> in_range (LastIndex l + 1)"
  using unat_LastIndex [of l] entries_ok_len [of "entries l"] by (intro in_range_Suc) simp

lemma idx_becomeLeader:
  assumes "entries_ok (entries (log n))"
  shows "idx_step n (becomeLeaderLocked n)"
  using in_range_LastIndex [OF assms]
  by (auto simp: idx_step_def indices_ok_def becomeLeader_index max_len_def split: if_splits)

lemma idx_set_nextIndex: "in_range x \<Longrightarrow> idx_step n (set_nextIndex p x n)"
  by (auto simp: idx_step_def indices_ok_def)

lemma idx_becomeFollower: "idx_step n (becomeFollowerLocked r t n)"
  by (rule idx_same) simp_all

lemma startElection_idx:
  assumes "startElection rnd n = Some (n', a)"
  shows "idx_step n n'"
  using assms by (intro idx_same) (auto simp: startElection_def Let_def bind_eq_Some_conv)

lemma handleVoteReply_idx:
  assumes "entries_ok (entries (log n))"
  shows "idx_step n (handleVoteReply rnd p t r n)"
proof -
  let ?n = "n\<lparr>votesReceived := (votesReceived n)(p \<mapsto> True), votes := votes n + 1\<rparr>"
  have 1: "idx_step n ?n" by (rule idx_same) simp_all
  have "idx_step ?n (becomeLeaderLocked ?n)" by (rule idx_becomeLeader) (simp add: assms)
  then have "idx_step n (becomeLeaderLocked ?n)" by (rule idx_trans [OF 1])
  moreover have "idx_step n n" by (rule idx_same) simp_all
  ultimately show ?thesis using 1 idx_becomeFollower [of n] by (simp add: handleVoteReply_def Let_def)
qed

lemma HandleRequestVote_idx:
  assumes "HandleRequestVote rnd a n = Some (n', r)"
  shows "idx_step n n'"
  using assms
  by (intro idx_same) (auto simp: HandleRequestVote_def Let_def bind_eq_Some_conv split: if_splits)

lemma HandleAppendEntries_idx:
  assumes "HandleAppendEntries rnd a n = Some (n', r)"
  shows "idx_step n n'"
  using assms
proof (cases rule: HandleAppendEntries_cases)
  case (accept n3 n4)
  note f = append_loop_frame [OF accept(4)]
  show ?thesis by (rule idx_same) (simp_all add: accept(2,5) f)
qed (auto intro: idx_same)

text \<open>A reply may move an index; its hint and its entries have to be in range.\<close>

definition entries_in_range :: "LogEntry list \<Rightarrow> bool" where
  "entries_in_range es \<longleftrightarrow> (\<forall>e \<in> set es. Suc (unat (le_Index e)) < max_len)"

definition hint_ok :: "AppendEntriesReply \<Rightarrow> bool" where
  "hint_ok r \<longleftrightarrow> (0 < aer_ConflictTerm r \<or> 0 < aer_ConflictIndex r \<longrightarrow> in_range (aer_ConflictIndex r))"

lemma entries_ok_in_range:
  assumes "entries_ok es"
  shows "entries_in_range (drop k es)"
proof -
  have "Suc (unat (le_Index (es ! i))) < max_len" if "i < length es" for i
    using entries_ok_index [OF assms that] entries_ok_len [OF assms] that by simp
  then show ?thesis
    unfolding entries_in_range_def by (metis in_set_conv_nth in_set_dropD)
qed

lemma handleConflict_total:
  assumes "entries_ok (entries (log n))" "indices_ok n" "hint_ok r"
  obtains n' where "handleConflictLocked p r n = Some n'" "idx_step n n'"
proof -
  have len: "unat (LastIndex (log n)) < length (entries (log n))" "length (entries (log n)) < max_len"
    using unat_LastIndex [OF assms(1)] entries_ok_len [OF assms(1)] by simp_all
  consider (last) j where "0 < j" "j \<le> unat (LastIndex (log n))"
      "find_last_loop (log n) (aer_ConflictTerm r) (unat (LastIndex (log n))) = Some (of_nat j)"
  | (none) "find_last_loop (log n) (aer_ConflictTerm r) (unat (LastIndex (log n))) = Some 0"
    using find_last_loop_spec [OF assms(1) len(1)] by blast
  then have loop: "\<exists>x. find_last_loop (log n) (aer_ConflictTerm r) (unat (LastIndex (log n))) = Some x \<and>
      (0 < x \<longrightarrow> in_range (x + 1))"
  proof cases
    case (last j)
    then have "Suc (unat (of_nat j :: LogIndex)) < max_len"
      using len unat_LastIndex [OF assms(1)] by simp
    then show ?thesis using last in_range_Suc by blast
  qed simp
  have pred: "in_range (go_get 0 (nextIndex n) p - 1)" if "1 < go_get 0 (nextIndex n) p"
  proof -
    have "in_range (go_get 0 (nextIndex n) p)"
      using that assms(2) by (auto simp: go_get_def indices_ok_def split: option.splits)
    then show ?thesis
      using that unat_pred [of "go_get 0 (nextIndex n) p"] by (simp add: range_words)
  qed
  have "idx_step n n" by (rule idx_same) simp_all
  then have "\<exists>n'. handleConflictLocked p r n = Some n' \<and> idx_step n n'"
    using loop pred assms(3) idx_set_nextIndex by (auto simp: handleConflictLocked_def hint_ok_def)
  then show thesis using that by blast
qed

lemma record_match_idx:
  assumes "entries_in_range es" "es \<noteq> []"
  shows "idx_step n (record_match p es n)"
proof -
  have r: "Suc (unat (le_Index (last es))) < max_len" using assms by (simp add: entries_in_range_def)
  then show ?thesis
    using in_range_Suc [OF r]
    by (auto simp: record_match_def Let_def idx_step_def indices_ok_def)
qed

lemma advance_total:
  assumes "entries_ok (entries (log n))" "indices_ok n"
  obtains n' where "advanceCommitIndexLocked n = Some n'" "idx_step n n'"
proof -
  let ?ms = "sort_desc (commit_matches n)" and ?k = "nat (commit_majority (peers n))"
  have "set ?ms = insert (LastIndex (log n)) (go_get 0 (matchIndex n) ` set (peers n))"
    by (simp add: sort_desc_def commit_matches_def set_insort_key)
  moreover have "unat (go_get 0 (matchIndex n) p) < max_len" for p
    using assms(2) by (cases "matchIndex n p") (auto simp: go_get_def indices_ok_def max_len_def)
  ultimately have small: "unat x < max_len" if "x \<in> set ?ms" for x
    using that unat_LastIndex [OF assms(1)] entries_ok_len [OF assms(1)] by auto
  have "\<exists>n'. advanceCommitIndexLocked n = Some n'"
  proof (cases "commit_majority (peers n) < go_len ?ms")
    case True
    moreover have "0 \<le> commit_majority (peers n)" by (simp add: commit_majority_def go_len_def)
    ultimately have "?ms ! ?k \<in> set ?ms" by (intro nth_mem) (simp add: go_len_def)
    then have "Contains (log n) (?ms ! ?k) \<longleftrightarrow> unat (?ms ! ?k) < length (entries (log n))"
      using small by (simp add: Contains_small)
    then show ?thesis using True by (simp add: advanceCommitIndexLocked_def Let_def)
  next
    case False
    then show ?thesis by (simp add: advanceCommitIndexLocked_def Let_def)
  qed
  then obtain n' where n': "advanceCommitIndexLocked n = Some n'" by blast
  have "idx_step n n'" by (rule idx_same) (simp_all add: advanceCommit_frame [OF n'])
  with n' show thesis by (rule that)
qed

lemma reply_total:
  assumes "entries_ok (entries (log n))" "indices_ok n" "entries_in_range es" "hint_ok r"
  shows "\<exists>n'. heartbeat_reply rnd p t es r n = Some n' \<and> idx_step n n'"
    "es \<noteq> [] \<Longrightarrow> \<exists>n'. replicate_reply rnd p t es r n = Some n' \<and> idx_step n n'"
proof -
  have same: "idx_step n n" by (rule idx_same) simp_all
  obtain n1 where n1: "handleConflictLocked p r n = Some n1" "idx_step n n1"
    using handleConflict_total [OF assms(1,2,4)] .
  have adv: "\<exists>n'. advanceCommitIndexLocked (record_match p es n) = Some n' \<and> idx_step n n'" if "es \<noteq> []"
  proof -
    have m: "idx_step n (record_match p es n)" by (rule record_match_idx [OF assms(3) that])
    then have "indices_ok (record_match p es n)" using assms(2) by (simp add: idx_step_def)
    then obtain n' where "advanceCommitIndexLocked (record_match p es n) = Some n'"
      "idx_step (record_match p es n) n'"
      using advance_total [of "record_match p es n"] assms(1) by auto
    with idx_trans [OF m] show ?thesis by blast
  qed
  show "\<exists>n'. heartbeat_reply rnd p t es r n = Some n' \<and> idx_step n n'"
    using same n1 adv idx_becomeFollower [of n] by (simp add: heartbeat_reply_def)
  show "\<exists>n'. replicate_reply rnd p t es r n = Some n' \<and> idx_step n n'" if "es \<noteq> []"
    using same n1 adv idx_becomeFollower [of n] that by (simp add: replicate_reply_def)
qed

section \<open>Requests and their answers\<close>

definition request_range :: "AppendEntriesArgs \<Rightarrow> bool" where
  "request_range a \<longleftrightarrow> unat (ae_PrevLogIndex a) + Suc (length (ae_Entries a)) < max_len \<and>
     entries_in_range (ae_Entries a)"

lemma build_args_some:
  assumes "entries_ok (entries (log n))" "in_range (go_get 0 (nextIndex n) p)"
  shows "\<exists>a. build_args p t k n = Some a \<and> request_range a"
proof -
  let ?x = "go_get 0 (nextIndex n) p" and ?es = "entries (log n)"
  have x: "0 < unat ?x" "unat ?x < max_len" "unat (?x - 1) = unat ?x - 1"
    using assms(2) unat_pred [of ?x] by (simp_all add: range_words)
  have "\<exists>u. TermAt (log n) (?x - 1) = Some u"
    using x TermAt_in [of "?x - 1" "log n"] TermAt_out [of "log n" "?x - 1"]
    by (cases "unat (?x - 1) < length ?es") auto
  moreover have "EntriesFrom (log n) ?x = Some (drop (unat ?x) ?es)" using EntriesFrom_eq [OF assms(1) x(2)] .
  moreover have "unat (?x - 1) + Suc (length (drop (unat ?x) ?es)) < max_len"
    using x entries_ok_len [OF assms(1)] by (cases "unat ?x \<le> length ?es") simp_all
  ultimately show ?thesis
    using entries_ok_in_range [OF assms(1)] by (auto simp: build_args_def Let_def request_range_def)
qed

lemma check_prev_hint:
  assumes "entries_ok (entries (log n))" "unat (ae_PrevLogIndex a) < max_len"
    "check_prev a n = Some (Some (ct, ci))"
  shows "in_range ci"
proof (cases "unat (ae_PrevLogIndex a) < length (entries (log n))")
  case True
  then have p: "0 < unat (ae_PrevLogIndex a)" "ct = le_Term (entries (log n) ! unat (ae_PrevLogIndex a))"
    "ci = FindFirstIndexOfTerm (log n) ct"
    using assms(2,3) by (auto simp: check_prev_def Contains_small word_less_nat_alt split: if_splits)
  with find_first_index [OF assms(1) p(1) True] show ?thesis using assms(2) by (auto simp: in_range_def)
next
  case False
  then show ?thesis
    using assms(2,3) in_range_LastIndex [OF assms(1)]
    by (auto simp: check_prev_def Contains_small split: if_splits)
qed

lemma HandleAppendEntries_ok:
  assumes "entries_ok (entries (log n))" "request_range a"
  obtains n' r where "HandleAppendEntries rnd a n = Some (n', r)" "idx_step n n'" "hint_ok r"
proof -
  have p: "unat (ae_PrevLogIndex a) < max_len" using assms(2) by (simp add: request_range_def)
  obtain n' r where h: "HandleAppendEntries rnd a n = Some (n', r)"
    using HandleAppendEntries_total [of a n rnd] assms entries_ok_len by (auto simp: request_range_def)
  have "in_range ci" if "check_prev a (accept_leader rnd a n) = Some (Some (ct, ci))" for ct ci
    using check_prev_hint [OF _ p that] assms(1) by simp
  then have "hint_ok r"
    using h by (auto simp: HandleAppendEntries_def Let_def bind_eq_Some_conv hint_ok_def
        split: if_splits option.splits)
  with h HandleAppendEntries_idx [OF h] show thesis by (rule that)
qed

section \<open>The invariant of the cluster\<close>

definition msg_range :: "cluster \<Rightarrow> msg \<Rightarrow> bool" where
  "msg_range c m \<longleftrightarrow> (case m of
     HbTask src dst t k \<Rightarrow> nextIndex (nodes c src) dst \<noteq> None
   | AppendReq src dst k a \<Rightarrow> request_range a \<and> (k = Replicate \<longrightarrow> ae_Entries a \<noteq> [])
   | AppendResp src dst k t es r \<Rightarrow> entries_in_range es \<and> hint_ok r \<and> (k = Replicate \<longrightarrow> es \<noteq> [])
   | _ \<Rightarrow> True)"

definition index_inv :: "cluster \<Rightarrow> bool" where
  "index_inv c \<longleftrightarrow> (\<forall>i. indices_ok (nodes c i)) \<and> (\<forall>m \<in> net_set c. msg_range c m)"

definition ranged :: "cluster \<Rightarrow> bool" where
  "ranged c \<longleftrightarrow> election_inv c \<and> (\<exists>h. log_inv h c) \<and> index_inv c"

lemma index_step:
  assumes "index_inv c" "nodes c' = (nodes c)(i := n')" "net c' = net c @ ms"
    "idx_step (nodes c i) n'" "\<And>m. m \<in> set ms \<Longrightarrow> msg_range c' m"
  shows "index_inv c'"
proof -
  have "msg_range c' m" if m: "m \<in> net_set c" for m
  proof (cases m)
    case (HbTask src dst t k)
    have "nextIndex (nodes c src) dst \<noteq> None" using assms(1) m HbTask by (auto simp: index_inv_def msg_range_def)
    then show ?thesis using assms(2,4) HbTask by (auto simp: msg_range_def idx_step_def)
  qed (use assms(1) m in \<open>auto simp: index_inv_def msg_range_def\<close>)
  then show ?thesis using assms by (auto simp: index_inv_def idx_step_def)
qed

lemma ranged_node:
  assumes "ranged c" "i \<in> set (ids c)"
  shows "entries_ok (entries (log (nodes c i)))" "indices_ok (nodes c i)"
proof -
  obtain h where "log_inv h c" using assms(1) by (auto simp: ranged_def)
  then show "entries_ok (entries (log (nodes c i)))"
    using log_invD(2) [OF _ assms(2)] by (auto simp: node_log_ok_def intro: traced_ok)
  show "indices_ok (nodes c i)" using assms(1) by (simp add: ranged_def index_inv_def)
qed

lemma ranged_msg:
  assumes "ranged c" "m \<in> net_set c"
  shows "msg_range c m" "msg_src m \<in> set (ids c)" "msg_dst m \<in> set (ids c)" "msg_src m \<noteq> msg_dst m"
  using assms by (auto simp: ranged_def index_inv_def election_inv_def topology_inv_def)

lemma ranged_peers: "ranged c \<Longrightarrow> peers (nodes c i) = filter (\<lambda>j. j \<noteq> i) (ids c)"
  by (simp add: ranged_def election_inv_def topology_inv_def)

lemma next_in_range:
  assumes "indices_ok n" "nextIndex n p \<noteq> None"
  shows "in_range (go_get 0 (nextIndex n) p)"
  using assms by (auto simp: indices_ok_def go_get_def)

lemma rearm_frame [simp]:
  "nextIndex (rearm_heartbeat n) = nextIndex n" "matchIndex (rearm_heartbeat n) = matchIndex n"
  "peers (rearm_heartbeat n) = peers n" "state (rearm_heartbeat n) = state n" "log (rearm_heartbeat n) = log n"
  "currentTerm (rearm_heartbeat n) = currentTerm n" "commitIndex (rearm_heartbeat n) = commitIndex n"
  "node_id (rearm_heartbeat n) = node_id n"
  by (simp_all add: rearm_heartbeat_def split: option.splits)

text \<open>The two places where a request is built.\<close>

lemma task_request:
  assumes "ranged c" "HbTask src dst t k \<in> net_set c"
  obtains a where "heartbeat_build dst t k (nodes c src) = Some a" "request_range a"
proof -
  note m = ranged_msg [OF assms, unfolded msg_range_def, simplified]
  have "in_range (go_get 0 (nextIndex (nodes c src)) dst)"
    using m(1) ranged_node(2) [OF assms(1) m(2)] by (intro next_in_range) auto
  then show thesis
    using build_args_some [OF ranged_node(1) [OF assms(1) m(2)]] that by (auto simp: heartbeat_build_def)
qed

lemma leader_request:
  assumes "ranged c" "i \<in> set (ids c)" "state (nodes c i) = Leader" "p \<in> set (peers (nodes c i))"
  obtains a where "build_args p t k (nodes c i) = Some a" "request_range a"
proof -
  have "in_range (go_get 0 (nextIndex (nodes c i)) p)"
    using ranged_node(2) [OF assms(1,2)] assms(3,4) by (intro next_in_range) (auto simp: indices_ok_def)
  then show thesis using build_args_some [OF ranged_node(1) [OF assms(1,2)]] that by blast
qed

lemma tick_request:
  assumes "ranged c" "i \<in> set (ids c)" "p \<in> set (peers (nodes c i))"
    "replicate_tick p (nodes c i) = Some (TickSend a)"
  shows "request_range a" "ae_Entries a \<noteq> []"
proof -
  have "state (nodes c i) = Leader" "ae_Entries a \<noteq> []"
    "build_args p (currentTerm (nodes c i)) (commitIndex (nodes c i)) (nodes c i) = Some a"
    using assms(4) by (auto simp: replicate_tick_def bind_eq_Some_conv split: if_splits)
  then show "request_range a" "ae_Entries a \<noteq> []"
    using leader_request [OF assms(1,2) _ assms(3)] by (metis option.inject, simp)
qed

lemma append_reply_idx:
  assumes "entries_ok (entries (log n))" "indices_ok n" "entries_in_range es" "hint_ok r"
    "heartbeat_reply rnd p t es r n = Some n' \<or> replicate_reply rnd p t es r n = Some n'"
  shows "idx_step n n'"
  using assms(5)
proof (cases rule: append_reply_cases)
  case conflict
  then show ?thesis using handleConflict_total [OF assms(1,2,4), of p] by auto
next
  case match
  then have "heartbeat_reply rnd p t es r n = Some n'" by (simp add: heartbeat_reply_def)
  then show ?thesis using reply_total(1) [OF assms(1-4), of rnd p t] by simp
qed (auto intro: idx_same idx_becomeFollower)

lemma cstep_index_inv:
  assumes r: "ranged c" and st: "cstep c c'"
  shows "index_inv c'"
proof -
  have inv: "index_inv c" using r by (simp add: ranged_def)
  note step = index_step [OF inv] and ok = ranged_node [OF r]
  show ?thesis
    using st
  proof cases
    case (election i rnd n' args)
    then show ?thesis
      by (intro step [of _ i n' "map (\<lambda>p. VoteReq i p args) (peers n')"])
        (auto simp: cluster_update msg_range_def intro: startElection_idx)
  next
    case (heartbeat i t k)
    have "state (nodes c i) = Leader" using heartbeat(3) by (simp add: sendHeartbeats_def split: if_splits)
    then have "nextIndex (nodes c i) p \<noteq> None" if "p \<in> set (peers (nodes c i))" for p
      using ok(2) [OF heartbeat(2)] that by (simp add: indices_ok_def)
    then show ?thesis
      by (intro step [of _ i "rearm_heartbeat (nodes c i)" "map (\<lambda>p. HbTask i p t k) (peers (nodes c i))"])
        (auto simp: heartbeat(1) cluster_update msg_range_def intro: idx_same)
  next
    case (build src dst t k args)
    then have "request_range args" using task_request [OF r build(2)] by auto
    then show ?thesis
      by (intro step [of _ src "nodes c src" "[AppendReq src dst Heartbeat args]"])
        (auto simp: build(1) send_def msg_range_def intro: idx_same)
  next
    case (replicate i p args)
    then show ?thesis
      using tick_request [OF r replicate(2-4)]
      by (intro step [of _ i "nodes c i" "[AppendReq i p Replicate args]"])
        (auto simp: replicate(1) send_def msg_range_def intro: idx_same)
  next
    case (vote_request src dst args rnd n' reply)
    then show ?thesis
      by (intro step [of _ dst n' "[VoteResp dst src (rv_Term args) reply]"])
        (auto simp: cluster_update msg_range_def intro: HandleRequestVote_idx)
  next
    case (vote_reply src dst t reply rnd)
    have "dst \<in> set (ids c)" using ranged_msg(3) [OF r vote_reply(2)] by simp
    then show ?thesis
      by (intro step [of _ dst _ "[]"]) (auto simp: vote_reply(1) put_node_def intro: handleVoteReply_idx ok)
  next
    case (append_request src dst k args rnd n' reply)
    note m = ranged_msg [OF r append_request(2), unfolded msg_range_def, simplified]
    have "idx_step (nodes c dst) n'" "hint_ok reply"
      using HandleAppendEntries_ok [OF ok(1) [OF m(3)], of args rnd] m(1) append_request(3) by auto
    then show ?thesis
      using m(1) by (intro step [of _ dst n' "[AppendResp dst src k (ae_Term args) (ae_Entries args) reply]"])
        (auto simp: append_request(1) cluster_update msg_range_def request_range_def)
  next
    case (append_reply src dst k t es reply rnd n')
    note m = ranged_msg [OF r append_reply(2), unfolded msg_range_def, simplified]
    have "idx_step (nodes c dst) n'"
      using append_reply_idx [OF ok [OF m(3)] _ _ append_reply(3)] m(1) by simp
    then show ?thesis
      by (intro step [of _ dst n' "[]"]) (auto simp: append_reply(1) put_node_def)
  next
    case (submit i cmd n' r)
    have "idx_step (nodes c i) n'"
      using submit(3) by (cases rule: submit_append_cases) (auto intro: idx_same)
    then show ?thesis by (intro step [of _ i n' "[]"]) (auto simp: submit(1) put_node_def)
  next
    case (apply_send i e es k n')
    have "idx_step (nodes c i) n'"
      using apply_send(4) by (auto simp: apply_send_def split: if_splits intro!: idx_same)
    then show ?thesis by (intro step [of _ i n' "[]"]) (auto simp: apply_send(1) put_node_def)
  qed (use inv in \<open>auto simp: put_node_def apply_finish_def index_inv_def indices_ok_def msg_range_def split: msg.splits\<close>)
qed

lemma init_ranged: "ranged (init_cluster is w)"
proof -
  have "index_inv (init_cluster is w)"
    by (simp add: index_inv_def indices_ok_def init_cluster_def NewNode_def)
  moreover have "\<exists>h. log_inv h (init_cluster is w)" by (rule exI, rule init_log_inv)
  ultimately show ?thesis using init_election_inv by (simp add: ranged_def)
qed

interpretation ranges: cluster_invariant ranged
proof unfold_locales
  fix c c'
  assume c: "ranged c" "ids_ok (ids c)" "terms_small c" "cstep c c'"
  then obtain h where h: "election_inv c" "log_inv h c" by (auto simp: ranged_def)
  then obtain x where "kind_step c x c'" using cstep_kind c(3,4) by blast
  moreover have "election_inv c'" by (rule cstep_election_inv [OF h(1) c(2-4)])
  ultimately show "ranged c'"
    using logs.hist_step [OF h(2,1) _ c(2)] cstep_index_inv [OF c(1,4)] by (auto simp: ranged_def)
qed (rule init_ranged)

section \<open>Every section returns\<close>

lemma startElection_total:
  assumes "entries_ok (entries (log n))"
  shows "\<exists>n' a. startElection rnd n = Some (n', a)"
  using LastTerm_ok [OF assms] by (simp add: startElection_def Let_def)

lemma HandleRequestVote_total:
  assumes "entries_ok (entries (log n))"
  shows "\<exists>n' r. HandleRequestVote rnd a n = Some (n', r)"
  using LastTerm_ok [OF assms] by (auto simp: HandleRequestVote_def isLogUpToDate_def Let_def)

lemma submit_total:
  assumes "Suc (length (entries (log n))) < max_len"
  shows "\<exists>n' r. submit_append cmd n = Some (n', r)"
proof (cases "state n = Leader")
  case True
  let ?e = "\<lparr>le_Term = currentTerm n, le_Index = LastIndex (log n) + 1, le_Command = cmd\<rparr>"
  have "Append (log n) [?e] = Some ((log n)\<lparr>entries := entries (log n) @ [?e]\<rparr>)"
    using assms by (simp add: Append_def go_append_def)
  then have "submit_append cmd n \<noteq> None"
    using True by (simp add: submit_append_def Let_def split: option.split prod.split)
  then show ?thesis by auto
qed (simp add: submit_append_def)

lemma apply_begin_total:
  assumes "entries_ok (entries (log n))" "unat (commitIndex n) < length (entries (log n))"
  shows "\<exists>r. apply_begin n = Some r"
proof (cases "commitIndex n \<le> lastApplied n")
  case False
  have len: "length (entries (log n)) < max_len" "entries (log n) \<noteq> []" using entries_ok_len [OF assms(1)] by auto
  have "unat (lastApplied n + 1) < max_len"
    using False assms(2) len unat_Suc_len [of "lastApplied n"] by (simp add: word_le_nat_alt)
  then show ?thesis using False Entries_eq len assms(2) by (simp add: apply_begin_def)
qed (simp add: apply_begin_def)

lemma deliver_total:
  assumes "ranged c" "m \<in> net_set c"
  shows "\<exists>c'. deliver m rnd c = Some c'"
proof (cases m)
  case (VoteReq src dst a)
  then show ?thesis
    using HandleRequestVote_total [OF ranged_node(1) [OF assms(1)], of dst rnd a] ranged_msg(3) [OF assms]
    by (auto simp: deliver_def)
next
  case (HbTask src dst t k)
  obtain a where "heartbeat_build dst t k (nodes c src) = Some a"
    using task_request [OF assms(1) assms(2) [unfolded HbTask]] .
  then show ?thesis using HbTask by (simp add: deliver_def)
next
  case (AppendReq src dst k a)
  then have "request_range a" "dst \<in> set (ids c)" using ranged_msg [OF assms] by (simp_all add: msg_range_def)
  then obtain n' r where "HandleAppendEntries rnd a (nodes c dst) = Some (n', r)"
    using HandleAppendEntries_ok ranged_node(1) [OF assms(1)] by metis
  then show ?thesis using AppendReq by (simp add: deliver_def)
next
  case (AppendResp src dst k t es r)
  then have m: "entries_in_range es" "hint_ok r" "k = Replicate \<longrightarrow> es \<noteq> []" "dst \<in> set (ids c)"
    using ranged_msg [OF assms] by (simp_all add: msg_range_def)
  note reply = reply_total [OF ranged_node [OF assms(1) m(4)] m(1,2), of rnd src t]
  show ?thesis
  proof (cases k)
    case Heartbeat
    then show ?thesis using AppendResp reply(1) by (auto simp: deliver_def)
  next
    case Replicate
    then show ?thesis using AppendResp reply(2) m(3) by (auto simp: deliver_def)
  qed
qed (simp add: deliver_def)

lemma exec_total:
  assumes "ranged c" "\<And>i. i \<in> set (ids c) \<Longrightarrow> unat (commitIndex (nodes c i)) < length (entries (log (nodes c i)))"
    "\<And>i cmd. e = Submit i cmd \<Longrightarrow> i \<in> set (ids c) \<Longrightarrow> Suc (length (entries (log (nodes c i)))) < max_len"
  shows "\<exists>c'. exec e c = Some c'"
proof (cases e)
  case (Election i rnd)
  then show ?thesis using startElection_total [OF ranged_node(1) [OF assms(1)], of i rnd] by auto
next
  case (ReplicateTick i p)
  have "\<exists>t. replicate_tick p (nodes c i) = Some t" if i: "i \<in> set (ids c)" "p \<in> set (peers (nodes c i))"
  proof (cases "state (nodes c i) = Leader")
    case True
    obtain a where "build_args p (currentTerm (nodes c i)) (commitIndex (nodes c i)) (nodes c i) = Some a"
      using leader_request [OF assms(1) i(1) True i(2)] .
    then show ?thesis using True by (simp add: replicate_tick_def)
  qed (simp add: replicate_tick_def)
  then show ?thesis using ReplicateTick by auto
next
  case (Deliver k rnd)
  then show ?thesis using deliver_total [OF assms(1) nth_mem, of k rnd] by auto
next
  case (Submit i cmd)
  then show ?thesis using submit_total [OF assms(3) [OF Submit], of cmd] by auto
next
  case (ApplyBegin i)
  then show ?thesis using apply_begin_total [OF ranged_node(1) [OF assms(1)] assms(2), of i] by auto
qed (auto split: option.splits list.splits)

text \<open>C10. No panics: in every run of a cluster every event returns. Whatever was lost, delayed or
  delivered twice, no slice index of a handler is out of range, no conversion to \<open>int\<close> turns
  negative and no loop stops with a panic; the one exception is a command submitted to a leader
  whose log has no room left in a Go slice.\<close>

theorem steps_never_panic:
  assumes "ids_ok is" and "reachable (init_cluster is w) c"
    and "case e of Submit i _ \<Rightarrow> Suc (length (entries (log (nodes c i)))) < max_len | _ \<Rightarrow> True"
  shows "\<exists>c'. exec e c = Some c'"
proof -
  obtain h where h: "safety_inv h c" using safety.reachable_hist [OF assms(2,1)] .
  show ?thesis
  proof (rule exec_total [OF ranges.reachable_inv(1) [OF assms(2,1)] node_ok(3) [OF h]])
    show "Suc (length (entries (log (nodes c i)))) < max_len" if "e = Submit i cmd" for i cmd
      using assms(3) that by simp
  qed
qed

theorem steps_never_panic_witness:
  "\<exists>c c'. reachable three_nodes c \<and> state (nodes c ''a'') = Leader \<and> exec (Submit ''a'' ''x'') c = Some c'"
proof -
  have "after elect_a three_nodes (\<lambda>c. state (nodes c ''a'') = Leader \<and> length (entries (log (nodes c ''a''))) = 1)"
    by code_simp
  then obtain c where c: "reachable three_nodes c" "state (nodes c ''a'') = Leader"
    "length (entries (log (nodes c ''a''))) = 1"
    by (elim afterE conjE)
  have ok: "ids_ok [''a'', ''b'', ''c'']" by (simp add: ids_ok_def)
  have "Suc (length (entries (log (nodes c ''a'')))) < max_len" using c(3) by (simp add: max_len_def)
  then show ?thesis
    using steps_never_panic [OF ok c(1) [unfolded three_nodes_def], of "Submit ''a'' ''x''"] c(1,2) by auto
qed

end
