(* ===== verification/Raft_Progress.thy ===== *)
theory Raft_Progress
  imports Raft_Total
begin

text \<open>
  Progress of replication.  A follower that rejects a request answers with a hint, and the hint
  moves the leader's \<open>nextIndex\<close> strictly down, until the logs meet and the follower takes over
  the leader's log.  A leader whose heartbeats get through therefore brings a follower up to date
  after a number of rounds bounded by \<open>nextIndex\<close>.
\<close>

section \<open>One round\<close>

lemma unat_prev: "in_range x \<Longrightarrow> unat x = Suc (unat (x - 1))"
  using unat_pred [of x] by (simp add: range_words)

lemma built_prev:
  assumes "build_args p t k n = Some a"
  shows "ae_PrevLogIndex a = go_get 0 (nextIndex n) p - 1" "ae_Term a = t"
  using assms by (auto simp: build_args_def Let_def bind_eq_Some_conv)

text \<open>An entry whose term occurs later in another log is in that log at the same place.\<close>

lemma traced_below:
  assumes "traced h es" "traced h fs" "0 < q" "q \<le> j" "j < length es" "q < length fs"
    "le_Term (es ! j) = le_Term (fs ! q)"
  shows "es ! q = fs ! q"
proof -
  obtain m lg where e: "h (le_Term (es ! j)) = Some (m, lg)" "prefix (take (Suc j) es) lg"
    using traced_nth [OF assms(1) _ assms(5)] assms(3,4) by auto
  obtain m' lg' where f: "h (le_Term (fs ! q)) = Some (m', lg')" "prefix (take (Suc q) fs) lg'"
    using traced_nth [OF assms(2,3,6)] .
  have "take (Suc j) es ! q = lg ! q" using prefix_nth [OF e(2), of q] assms(4,5) by simp
  moreover have "take (Suc q) fs ! q = lg ! q" using prefix_nth [OF f(2), of q] assms(6,7) e(1) f(1) by simp
  ultimately show ?thesis using assms(4) by simp
qed

lemma unat_LastIndex_Suc:
  assumes "entries_ok (entries l)"
  shows "unat (LastIndex l + 1) = length (entries l)"
proof -
  have "0 < length (entries l)" "length (entries l) < max_len" using entries_ok_len [OF assms] by simp_all
  moreover have "unat (LastIndex l) = length (entries l) - 1" by (rule unat_LastIndex [OF assms])
  ultimately show ?thesis using unat_Suc_len [of "LastIndex l"] by linarith
qed

text \<open>
  A hint for a rejection at \<open>q\<close>: its index is at most \<open>q\<close>, and the entries of its term in the
  leader's log \<open>es\<close> are all below \<open>q\<close>.
\<close>

definition hint_below :: "LogEntry list \<Rightarrow> nat \<Rightarrow> Term \<Rightarrow> LogIndex \<Rightarrow> bool" where
  "hint_below es q ct ci \<longleftrightarrow> 0 < ci \<and> unat ci \<le> q \<and>
     (0 < ct \<longrightarrow> (\<forall>j. 0 < j \<and> j < length es \<and> le_Term (es ! j) = ct \<longrightarrow> j < q))"

lemma reject_hint:
  assumes tr: "traced h (entries (log n))" "traced h (entries (log m))"
    and a: "build_args p t k n = Some a" and q: "unat (ae_PrevLogIndex a) < max_len"
    and chk: "check_prev a m = Some (Some (ct, ci))"
  shows "hint_below (entries (log n)) (unat (ae_PrevLogIndex a)) ct ci"
proof (cases "unat (ae_PrevLogIndex a) < length (entries (log m))")
  case False
  have "entries_ok (entries (log m))" using tr(2) by (rule traced_ok)
  moreover have "ct = 0" "ci = LastIndex (log m) + 1"
    using chk q False by (auto simp: check_prev_def Contains_small split: if_splits)
  ultimately show ?thesis
    using False unat_LastIndex_Suc entries_ok_len by (simp add: hint_below_def word_less_nat_alt)
next
  case True
  let ?q = "unat (ae_PrevLogIndex a)" and ?es = "entries (log n)" and ?fs = "entries (log m)"
  have pos: "0 < ?q" using chk by (auto simp: check_prev_def word_less_nat_alt split: if_splits)
  have r: "ct = le_Term (?fs ! ?q)" "ci = FindFirstIndexOfTerm (log m) ct" "ct \<noteq> ae_PrevLogTerm a"
    using chk q True by (auto simp: check_prev_def Contains_small split: if_splits)
  have "j < ?q" if j: "0 < j" "j < length ?es" "le_Term (?es ! j) = ct" for j
  proof (rule ccontr)
    assume "\<not> j < ?q"
    then have "?q \<le> j" "?q < length ?es" using j(2) by simp_all
    moreover from this have "?es ! ?q = ?fs ! ?q"
      using traced_below [OF tr pos _ j(2) True] j(3) r(1) by simp
    ultimately show False
      using build_args_from_log(1) [OF a traced_ok [OF tr(1)]] r(1,3) by (auto simp: from_log_def Let_def)
  qed
  then show ?thesis
    using find_first_index [OF traced_ok [OF tr(2)] pos True refl] r(1,2) by (simp add: hint_below_def)
qed

lemma hint_lowers:
  assumes ok: "entries_ok (entries (log n))" and x: "in_range (go_get 0 (nextIndex n) p)"
    and hint: "hint_below (entries (log n)) (unat (go_get 0 (nextIndex n) p) - 1)
      (aer_ConflictTerm r) (aer_ConflictIndex r)"
  obtains y where "handleConflictLocked p r n = Some (set_nextIndex p y n)" "0 < y"
    "y < go_get 0 (nextIndex n) p"
proof -
  let ?x = "go_get 0 (nextIndex n) p" and ?es = "entries (log n)" and ?ct = "aer_ConflictTerm r"
  have pos: "0 < unat ?x" using x by (simp add: range_words)
  have ci: "0 < aer_ConflictIndex r" "aer_ConflictIndex r < ?x"
    using hint pos by (auto simp: hint_below_def word_less_nat_alt)
  have last: "unat (LastIndex (log n)) < length ?es" using unat_LastIndex [OF ok] entries_ok_len [OF ok] by simp
  show thesis
  proof (cases "0 < ?ct")
    case True
    consider j where "0 < j" "j < length ?es" "le_Term (?es ! j) = ?ct"
        "find_last_loop (log n) ?ct (unat (LastIndex (log n))) = Some (of_nat j)"
    | "find_last_loop (log n) ?ct (unat (LastIndex (log n))) = Some 0"
      using find_last_loop_spec [OF ok last, of ?ct] last by fastforce
    then show thesis
    proof cases
      case (1 j)
      then have "j < unat ?x - 1" using hint True by (simp add: hint_below_def)
      moreover have "unat (of_nat j :: LogIndex) = j" "unat (of_nat j + 1 :: LogIndex) = Suc j"
        using 1(2) entries_ok_len [OF ok] unat_Suc_len [of "of_nat j"] by simp_all
      ultimately have "(0 :: LogIndex) < of_nat j" "(0 :: LogIndex) < of_nat j + 1" "of_nat j + 1 < ?x"
        using 1(1) by (simp_all add: word_less_nat_alt)
      then show thesis using that 1(4) True by (simp add: handleConflictLocked_def)
    next
      case 2
      then show thesis using that ci True by (simp add: handleConflictLocked_def)
    qed
  qed (use that ci in \<open>simp add: handleConflictLocked_def\<close>)
qed

text \<open>
  A heartbeat either brings the follower the leader's log or lowers \<open>nextIndex\<close>.  \<open>probed p n n'\<close>: the
  node \<open>n'\<close> differs from \<open>n\<close> in \<open>nextIndex\<close> of \<open>p\<close> and in timers only.
\<close>

definition probed :: "NodeID \<Rightarrow> Node \<Rightarrow> Node \<Rightarrow> bool" where
  "probed p n n' \<longleftrightarrow> state n' = state n \<and> currentTerm n' = currentTerm n \<and> log n' = log n \<and>
     peers n' = peers n \<and> matchIndex n' = matchIndex n \<and> commitIndex n' = commitIndex n \<and>
     (\<forall>q. q \<noteq> p \<longrightarrow> nextIndex n' q = nextIndex n q)"

lemma probed_trans: "probed p n m \<Longrightarrow> probed p m k \<Longrightarrow> probed p n k"
  by (simp add: probed_def)

lemma probed_rearm: "probed p n (rearm_heartbeat n)"
  by (simp add: probed_def)

lemma probed_next: "probed p n m \<Longrightarrow> probed p n (set_nextIndex p y m)"
  by (simp add: probed_def)

text \<open>The leader after a successful round: the entries from \<open>nextIndex\<close> on are acknowledged.\<close>

definition acknowledged :: "NodeID \<Rightarrow> Node \<Rightarrow> Node \<Rightarrow> bool" where
  "acknowledged p n n' \<longleftrightarrow>
     (let es = drop (unat (go_get 0 (nextIndex n) p)) (entries (log n)) in
      if es = [] then n' = n else advanceCommitIndexLocked (record_match p es n) = Some n')"

lemma round_term:
  assumes "currentTerm m \<le> ae_Term a" "HandleAppendEntries rnd a m = Some (m', r)"
  shows "currentTerm m' = ae_Term a" "aer_Term r = ae_Term a"
  using assms(2)
proof (atomize(full), cases rule: HandleAppendEntries_cases)
  case (accept n3 n4)
  then show "currentTerm m' = ae_Term a \<and> aer_Term r = ae_Term a"
    using append_loop_frame(3) [OF accept(4)] assms(1) by (simp add: max_def)
qed (use assms(1) in \<open>auto simp: max_def\<close>)

lemma heartbeat_round:
  assumes tr: "traced h (entries (log n))" "traced h (entries (log m))" and lead: "state n = Leader"
    and x: "in_range (go_get 0 (nextIndex n) p)" and le: "currentTerm m \<le> currentTerm n"
    and a: "build_args p (currentTerm n) k n = Some a" and r: "HandleAppendEntries rnd a m = Some (m', r)"
    and n': "heartbeat_reply rnd' p (currentTerm n) (ae_Entries a) r n = Some n'"
  shows "prefix (entries (log n)) (entries (log m')) \<and> acknowledged p n n' \<or>
     (\<exists>y. n' = set_nextIndex p y n \<and> y < go_get 0 (nextIndex n) p)"
proof -
  have q: "unat (go_get 0 (nextIndex n) p) = Suc (unat (ae_PrevLogIndex a))" "unat (ae_PrevLogIndex a) < max_len"
    using built_prev(1) [OF a] unat_prev [OF x] x by (simp_all add: in_range_def)
  have t: "ae_Term a = currentTerm n" by (rule built_prev(2) [OF a])
  show ?thesis
    using r
  proof (cases rule: HandleAppendEntries_cases)
    case stale
    then show ?thesis using le t by simp
  next
    case (reject ct ci)
    have l: "log m' = log m" using reject(2) by simp
    have "check_prev a m = Some (Some (ct, ci))" using reject(5) unfolding check_prev_def l by simp
    then have "hint_below (entries (log n)) (unat (ae_PrevLogIndex a)) ct ci" by (rule reject_hint [OF tr a q(2)])
    then have "hint_below (entries (log n)) (unat (go_get 0 (nextIndex n) p) - 1) (aer_ConflictTerm r) (aer_ConflictIndex r)"
      using q(1) reject(6,7) by simp
    then obtain y where "handleConflictLocked p r n = Some (set_nextIndex p y n)" "y < go_get 0 (nextIndex n) p"
      by (rule hint_lowers [OF traced_ok [OF tr(1)] x])
    then show ?thesis using n' reject(3,4) lead t by (auto simp: heartbeat_reply_def)
  next
    case (accept n3 n4)
    have "traced h (entries (log n3))" using tr(2) accept(2) by simp
    then have "entries (log n4) = (if prefix (entries (log n)) (entries (log n3)) then entries (log n3) else entries (log n))"
      using accept_log(1) [OF _ tr(1) build_args_from_log(1) [OF a traced_ok [OF tr(1)]] accept(3,4)] by simp
    moreover have "EntriesFrom (log n) (go_get 0 (nextIndex n) p) = Some (ae_Entries a)"
      using a by (auto simp: build_args_def Let_def bind_eq_Some_conv)
    then have "ae_Entries a = drop (unat (go_get 0 (nextIndex n) p)) (entries (log n))"
      using EntriesFrom_eq [OF traced_ok [OF tr(1)]] x by (simp add: in_range_def)
    ultimately show ?thesis
      using n' accept(5-7) lead t by (auto simp: heartbeat_reply_def acknowledged_def Let_def split: if_splits)
  qed
qed

section \<open>Rounds of a cluster\<close>

lemma run_small_trans: "run_small es c = Some c1 \<Longrightarrow> run_small fs c1 = Some c2 \<Longrightarrow> run_small (es @ fs) c = Some c2"
  by (simp add: run_small_append)

lemma deliver_run:
  assumes "m \<in> net_set c" "terms_small c" "deliver m rnd c = Some c'"
  obtains k where "run_small [Deliver k rnd] c = Some c'"
proof -
  obtain k where "k < length (net c)" "net c ! k = m" using assms(1) by (auto simp: in_set_conv_nth)
  then have "run_small [Deliver k rnd] c = Some c'" using assms(2,3) by simp
  then show thesis by (rule that)
qed

text \<open>
  The state between two rounds: \<open>i\<close> leads in term \<open>t\<close> with log \<open>l\<close>, and \<open>p\<close> is not ahead of that term.
\<close>

definition leading :: "cluster \<Rightarrow> NodeID \<Rightarrow> NodeID \<Rightarrow> Term \<Rightarrow> RaftLog \<Rightarrow> bool" where
  "leading c i p t l \<longleftrightarrow> i \<in> set (ids c) \<and> p \<in> set (ids c) \<and> p \<noteq> i \<and> terms_small c \<and>
     state (nodes c i) = Leader \<and> currentTerm (nodes c i) = t \<and> log (nodes c i) = l \<and>
     currentTerm (nodes c p) \<le> t"

text \<open>Sending a heartbeat: the request is in the network and nothing else has happened.\<close>

lemma heartbeat_sent:
  assumes r: "ranged c" and lead: "leading c i p t l"
  obtains es c' a where "run_small es c = Some c'" "length es = 2" "ids c' = ids c"
    "nodes c' = (nodes c)(i := rearm_heartbeat (nodes c i))" "AppendReq i p Heartbeat a \<in> net_set c'"
    "build_args p t (commitIndex (nodes c i)) (nodes c' i) = Some a"
proof -
  note l = lead [unfolded leading_def]
  let ?n = "nodes c i" and ?k = "commitIndex (nodes c i)"
  have p: "p \<in> set (peers ?n)" using l ranged_peers [OF r, of i] by simp
  obtain a where a: "build_args p t ?k ?n = Some a" using leader_request [OF r _ _ p] l by metis
  let ?c1 = "send (map (\<lambda>p. HbTask i p t ?k) (peers ?n)) (put_node i (rearm_heartbeat ?n) c)"
  have 1: "run_small [HeartbeatTick i] c = Some ?c1" using l by (simp add: sendHeartbeats_def)
  have small: "terms_small ?c1" using l by (auto simp: terms_small_def cluster_update)
  have "build_args p t ?k (rearm_heartbeat ?n) = build_args p t ?k ?n" by (simp add: build_args_def)
  then have b: "build_args p t ?k (rearm_heartbeat ?n) = Some a" using a by simp
  then have "deliver (HbTask i p t ?k) 0 ?c1 = Some (send [AppendReq i p Heartbeat a] ?c1)"
    by (simp add: deliver_def heartbeat_build_def cluster_update)
  moreover have "HbTask i p t ?k \<in> net_set ?c1" using p by (simp add: cluster_update)
  ultimately obtain k where "run_small [Deliver k 0] ?c1 = Some (send [AppendReq i p Heartbeat a] ?c1)"
    using deliver_run small by metis
  then have "run_small ([HeartbeatTick i] @ [Deliver k 0]) c = Some (send [AppendReq i p Heartbeat a] ?c1)"
    by (rule run_small_trans [OF 1])
  then show thesis by (rule that) (use b in \<open>simp_all add: cluster_update\<close>)
qed

lemma leading_next:
  assumes "ranged c" "leading c i p t l"
  shows "in_range (go_get 0 (nextIndex (nodes c i)) p)"
  using assms(2) ranged_node(2) [OF assms(1), of i] ranged_peers [OF assms(1), of i]
  by (intro next_in_range) (auto simp: leading_def indices_ok_def)

lemma leading_put:
  assumes "leading c i p t l" "ids c' = ids c" "nodes c' = (nodes c)(i := n, p := m)"
    "state n = Leader" "currentTerm n = t" "log n = l" "currentTerm m = t \<or> m = nodes c p"
  shows "leading c' i p t l"
  using assms by (auto simp: leading_def terms_small_def)

abbreviation next_of :: "cluster \<Rightarrow> NodeID \<Rightarrow> NodeID \<Rightarrow> nat" where
  "next_of c i p \<equiv> unat (go_get 0 (nextIndex (nodes c i)) p)"

lemma acknowledged_frame:
  assumes "acknowledged p n n'"
  shows "state n' = state n" "currentTerm n' = currentTerm n" "log n' = log n" "peers n' = peers n"
proof -
  obtain es where "n' = n \<or> advanceCommitIndexLocked (record_match p es n) = Some n'"
    using assms by (auto simp: acknowledged_def Let_def split: if_splits)
  then show "state n' = state n" "currentTerm n' = currentTerm n" "log n' = log n" "peers n' = peers n"
    using advanceCommit_frame(2,3,5,6) by fastforce+
qed

text \<open>Delivering a heartbeat request and its reply, whatever they do.\<close>

lemma round_delivered:
  assumes r: "ranged c" and lead: "leading c i p t l" and req: "AppendReq i p Heartbeat a \<in> net_set c"
    and t: "ae_Term a = t"
  obtains es c' m' rep n' where "run_small es c = Some c'" "length es = 2" "ids c' = ids c"
    "nodes c' = (nodes c)(i := n', p := m')" "HandleAppendEntries 0 a (nodes c p) = Some (m', rep)"
    "heartbeat_reply 0 p t (ae_Entries a) rep (nodes c i) = Some n'" "currentTerm m' = t"
proof -
  have l: "i \<in> set (ids c)" "p \<in> set (ids c)" "p \<noteq> i" "terms_small c" "currentTerm (nodes c p) \<le> t"
    "currentTerm (nodes c i) = t"
    using lead by (simp_all add: leading_def)
  have "request_range a" using ranged_msg [OF r req] by (simp add: msg_range_def)
  then obtain m' rep where rep: "HandleAppendEntries 0 a (nodes c p) = Some (m', rep)" "hint_ok rep"
    and a: "entries_in_range (ae_Entries a)"
    using HandleAppendEntries_ok ranged_node(1) [OF r l(2)] unfolding request_range_def by metis
  have m': "currentTerm m' = t" using round_term(1) [OF _ rep(1)] l(5) t by simp
  let ?msg = "AppendResp p i Heartbeat (ae_Term a) (ae_Entries a) rep"
  let ?c1 = "send [?msg] (put_node p m' c)"
  have "deliver (AppendReq i p Heartbeat a) 0 c = Some ?c1" using rep(1) by (simp add: deliver_def)
  then obtain k1 where k1: "run_small [Deliver k1 0] c = Some ?c1" using deliver_run [OF req l(4)] by metis
  obtain n' where n': "heartbeat_reply 0 p t (ae_Entries a) rep (nodes c i) = Some n'"
    using reply_total(1) [OF ranged_node [OF r l(1)] a rep(2)] by blast
  have "nodes ?c1 i = nodes c i" "?msg \<in> net_set ?c1" using l(3) by (simp_all add: cluster_update)
  moreover have "terms_small ?c1"
    using l m' by (auto simp: terms_small_def cluster_update)
  ultimately obtain k2 where "run_small [Deliver k2 0] ?c1 = Some (put_node i n' ?c1)"
    using deliver_run [of ?msg ?c1 0 "put_node i n' ?c1"] n' t by (auto simp: deliver_def)
  then have "run_small ([Deliver k1 0] @ [Deliver k2 0]) c = Some (put_node i n' ?c1)"
    by (rule run_small_trans [OF k1])
  then show thesis
    by (rule that [OF _ _ _ _ rep(1) n' m']) (use l(3) in \<open>auto simp: cluster_update\<close>)
qed

lemma leading_round:
  assumes r: "ranged c" "ids_ok (ids c)" and lead: "leading c i p t l"
  obtains es c' n where "run_small es c = Some c'" "length es = 4" "leading c' i p t l"
    "\<forall>q. q \<noteq> i \<and> q \<noteq> p \<longrightarrow> nodes c' q = nodes c q" "probed p (nodes c i) n" "nextIndex n = nextIndex (nodes c i)"
    "prefix (entries l) (entries (log (nodes c' p))) \<and> acknowledged p n (nodes c' i) \<or>
     probed p (nodes c i) (nodes c' i) \<and> next_of c' i p < next_of c i p"
proof -
  note l = lead [unfolded leading_def]
  obtain es c2 a where c2: "run_small es c = Some c2" "length es = 2" "ids c2 = ids c"
    "nodes c2 = (nodes c)(i := rearm_heartbeat (nodes c i))" "AppendReq i p Heartbeat a \<in> net_set c2"
    "build_args p t (commitIndex (nodes c i)) (nodes c2 i) = Some a"
    using heartbeat_sent [OF r(1) lead] .
  let ?n = "nodes c2 i"
  have n: "probed p (nodes c i) ?n" "nextIndex ?n = nextIndex (nodes c i)"
    using probed_rearm c2(4) by simp_all
  have l2: "leading c2 i p t l" by (rule leading_put [OF lead c2(3)]) (use c2(4) l in auto)
  have r2: "ranged c2" using ranges.reachable_from [OF run_small_reachable [OF c2(1)] r] by simp
  obtain fs c' m' rep n' where c': "run_small fs c2 = Some c'" "length fs = 2" "ids c' = ids c2"
    "nodes c' = (nodes c2)(i := n', p := m')" "HandleAppendEntries 0 a (nodes c2 p) = Some (m', rep)"
    "heartbeat_reply 0 p t (ae_Entries a) rep ?n = Some n'" "currentTerm m' = t"
    using round_delivered [OF r2 l2 c2(5) built_prev(2) [OF c2(6)]] .
  obtain h where h: "log_inv h c2" using r2 by (auto simp: ranged_def)
  have tr: "traced h (entries (log ?n))" "traced h (entries (log (nodes c2 p)))"
    using log_invD(2) [OF h] l2 by (auto simp: leading_def node_log_ok_def)
  have f: "state ?n = Leader" "currentTerm ?n = t" "log ?n = l" "currentTerm (nodes c2 p) \<le> t" "p \<noteq> i"
    using l2 by (simp_all add: leading_def)
  have out: "prefix (entries l) (entries (log m')) \<and> acknowledged p ?n n' \<or>
      (\<exists>y. n' = set_nextIndex p y ?n \<and> y < go_get 0 (nextIndex ?n) p)"
    using heartbeat_round [OF tr f(1) leading_next [OF r2 l2] _ _ c'(5)] f c'(6) c2(6) by simp
  then have n': "state n' = Leader" "currentTerm n' = t" "log n' = l"
    using acknowledged_frame f(1-3) by auto
  have "leading c' i p t l"
    by (rule leading_put [OF l2 c'(3,4) n']) (simp add: c'(7))
  moreover have "prefix (entries l) (entries (log (nodes c' p))) \<and> acknowledged p ?n (nodes c' i) \<or>
      probed p (nodes c i) (nodes c' i) \<and> next_of c' i p < next_of c i p"
    using out probed_next [OF n(1)] n(2) f(5) by (auto simp: c'(4) go_get_def word_less_nat_alt)
  moreover have "run_small (es @ fs) c = Some c'" "length (es @ fs) = 4"
    using run_small_trans [OF c2(1) c'(1)] c2(2) c'(2) by simp_all
  moreover have "\<forall>q. q \<noteq> i \<and> q \<noteq> p \<longrightarrow> nodes c' q = nodes c q" using c'(4) c2(4) by simp
  ultimately show thesis using that n by metis
qed

lemma catch_up:
  assumes "ranged c" "ids_ok (ids c)" "leading c i p t l"
  shows "\<exists>es c' n. run_small es c = Some c' \<and> length es \<le> 4 * next_of c i p \<and> leading c' i p t l \<and>
    prefix (entries l) (entries (log (nodes c' p))) \<and> (\<forall>q. q \<noteq> i \<and> q \<noteq> p \<longrightarrow> nodes c' q = nodes c q) \<and>
    probed p (nodes c i) n \<and> unat (go_get 0 (nextIndex n) p) \<le> next_of c i p \<and> acknowledged p n (nodes c' i)"
  using assms
proof (induction "next_of c i p" arbitrary: c rule: less_induct)
  case less
  obtain es c1 n where c1: "run_small es c = Some c1" "length es = 4" "leading c1 i p t l"
    "\<forall>q. q \<noteq> i \<and> q \<noteq> p \<longrightarrow> nodes c1 q = nodes c q" "probed p (nodes c i) n" "nextIndex n = nextIndex (nodes c i)"
    "prefix (entries l) (entries (log (nodes c1 p))) \<and> acknowledged p n (nodes c1 i) \<or>
     probed p (nodes c i) (nodes c1 i) \<and> next_of c1 i p < next_of c i p"
    using leading_round [OF less(2-4)] .
  have pos: "0 < next_of c i p" using leading_next [OF less(2,4)] by (simp add: range_words)
  show ?case
  proof (cases "prefix (entries l) (entries (log (nodes c1 p))) \<and> acknowledged p n (nodes c1 i)")
    case True
    have "length es \<le> 4 * next_of c i p" using c1(2) pos by linarith
    then show ?thesis using c1(1-6) True by (intro exI [of _ es] exI [of _ c1] exI [of _ n]) simp
  next
    case False
    then have lt: "next_of c1 i p < next_of c i p" and pr: "probed p (nodes c i) (nodes c1 i)" using c1(7) by blast+
    have "ranged c1" "ids_ok (ids c1)"
      using ranges.reachable_from [OF run_small_reachable [OF c1(1)] less(2,3)] less(3) by simp_all
    then obtain fs c' n2 where c': "run_small fs c1 = Some c'" "length fs \<le> 4 * next_of c1 i p" "leading c' i p t l"
      "prefix (entries l) (entries (log (nodes c' p)))" "\<forall>q. q \<noteq> i \<and> q \<noteq> p \<longrightarrow> nodes c' q = nodes c1 q"
      "probed p (nodes c1 i) n2" "unat (go_get 0 (nextIndex n2) p) \<le> next_of c1 i p" "acknowledged p n2 (nodes c' i)"
      using less(1) [OF lt _ _ c1(3)] by blast
    have "run_small (es @ fs) c = Some c'" by (rule run_small_trans [OF c1(1) c'(1)])
    moreover have "length (es @ fs) \<le> 4 * next_of c i p" using c1(2) c'(2) lt by simp
    moreover have "probed p (nodes c i) n2" by (rule probed_trans [OF pr c'(6)])
    ultimately show ?thesis
      using c'(3-5,7,8) c1(4) lt by (intro exI [of _ "es @ fs"] exI [of _ c'] exI [of _ n2]) simp
  qed
qed

text \<open>C11. A follower catches up: whenever a node leads and another node is not in a later term,
  a run of at most four events for each step of \<open>nextIndex\<close>, made of the leader's heartbeats and of the
  messages they cause, leads to a state in which the follower's log starts with the whole log of
  the leader, which still leads in its term with the same log.\<close>

theorem follower_catches_up:
  assumes "ids_ok is" and "reachable (init_cluster is w) c" and "terms_small c"
    and "i \<in> set is" and "p \<in> set is" and "p \<noteq> i"
    and "state (nodes c i) = Leader" and "currentTerm (nodes c p) \<le> currentTerm (nodes c i)"
  shows "\<exists>es c'. run_small es c = Some c' \<and> length es \<le> 4 * unat (go_get 0 (nextIndex (nodes c i)) p) \<and>
    prefix (entries (log (nodes c i))) (entries (log (nodes c' p))) \<and>
    state (nodes c' i) = Leader \<and> currentTerm (nodes c' i) = currentTerm (nodes c i) \<and>
    log (nodes c' i) = log (nodes c i)"
proof -
  have ids: "ids c = is" using elections.reachable_inv(2) [OF assms(2,1)] .
  have r: "ranged c" "ids_ok (ids c)" using ranges.reachable_inv(1) [OF assms(2,1)] ids assms(1) by simp_all
  have "leading c i p (currentTerm (nodes c i)) (log (nodes c i))"
    using assms(3-8) ids by (simp add: leading_def)
  then obtain es c' where "run_small es c = Some c'" "length es \<le> 4 * next_of c i p"
    "prefix (entries (log (nodes c i))) (entries (log (nodes c' p)))"
    "leading c' i p (currentTerm (nodes c i)) (log (nodes c i))"
    using catch_up [OF r] by blast
  then show ?thesis by (auto simp: leading_def)
qed


text \<open>A sample run: \<open>a\<close> is elected by \<open>b\<close> and takes two commands that \<open>c\<close> does not hear of.\<close>

definition lagging :: "event list" where
  "lagging = elect_a @ [Submit ''a'' ''x'', ReplicateTick ''a'' ''b'', Deliver 3 5, Submit ''a'' ''y'']"

theorem follower_catches_up_witness:
  "\<exists>c es c'. reachable three_nodes c \<and> log (nodes c ''c'') = NewRaftLog \<and>
     length (entries (log (nodes c ''a''))) = 3 \<and> run_small es c = Some c' \<and> length es \<le> 4 \<and>
     prefix (entries (log (nodes c ''a''))) (entries (log (nodes c' ''c''))) \<and> state (nodes c' ''a'') = Leader"
proof -
  have "after lagging three_nodes (\<lambda>c. terms_small c \<and> log (nodes c ''c'') = NewRaftLog \<and>
      length (entries (log (nodes c ''a''))) = 3 \<and> state (nodes c ''a'') = Leader \<and>
      currentTerm (nodes c ''c'') \<le> currentTerm (nodes c ''a'') \<and> go_get 0 (nextIndex (nodes c ''a'')) ''c'' = 1)"
    by code_simp
  then obtain c where c: "reachable three_nodes c" "terms_small c" "log (nodes c ''c'') = NewRaftLog"
    "length (entries (log (nodes c ''a''))) = 3" "state (nodes c ''a'') = Leader"
    "currentTerm (nodes c ''c'') \<le> currentTerm (nodes c ''a'')" "go_get 0 (nextIndex (nodes c ''a'')) ''c'' = 1"
    by (elim afterE conjE)
  have ok: "ids_ok [''a'', ''b'', ''c'']" by (simp add: ids_ok_def)
  show ?thesis
    using follower_catches_up [OF ok c(1) [unfolded three_nodes_def] c(2) _ _ _ c(5,6)] c by auto
qed

end
