(* ===== verification/Raft_Drain.thy ===== *)
theory Raft_Drain
  imports Raft_Apply Raft_Progress
begin

text \<open>
  Progress of the apply loop.  As long as the loop, the channel of capacity 256 and the consumer
  keep working, a node applies everything it has committed: no entry gets stuck between the log
  and the store.
\<close>

section \<open>Draining the channel\<close>

text \<open>\<open>only_applied i n c c'\<close>: from \<open>c\<close> to \<open>c'\<close> nothing but the apply side of node \<open>i\<close> has changed,
  whose node is now \<open>n\<close>.\<close>

definition only_applied :: "NodeID \<Rightarrow> Node \<Rightarrow> cluster \<Rightarrow> cluster \<Rightarrow> bool" where
  "only_applied i n c c' \<longleftrightarrow> ids c' = ids c \<and> net c' = net c \<and> nodes c' = (nodes c)(i := n)"

lemma only_applied_small:
  "only_applied i n c c' \<Longrightarrow> currentTerm n = currentTerm (nodes c i) \<Longrightarrow> terms_small c \<Longrightarrow> terms_small c'"
  by (auto simp: only_applied_def terms_small_def)

lemma receive_all:
  assumes "i \<in> set (ids c)" "terms_small c"
  shows "\<exists>es c'. run_small es c = Some c' \<and> applying c' = applying c \<and>
    only_applied i ((nodes c i)\<lparr>applyCh := []\<rparr>) c c'"
  using assms
proof (induction "applyCh (nodes c i)" arbitrary: c)
  case Nil
  then have "(nodes c i)\<lparr>applyCh := []\<rparr> = nodes c i" by simp
  then show ?case by (intro exI [of _ "[]"] exI [of _ c]) (simp add: only_applied_def)
next
  case (Cons e es)
  let ?c = "(put_node i ((nodes c i)\<lparr>applyCh := es\<rparr>) c)
    \<lparr>stores := (stores c)(i := consume (le_Command e) (stores c i))\<rparr>"
  have 1: "run_small [ApplyReceive i] c = Some ?c" using Cons(2-4) by (simp flip: Cons(2))
  have 2: "only_applied i ((nodes c i)\<lparr>applyCh := es\<rparr>) c ?c" by (simp add: only_applied_def put_node_def)
  then have "i \<in> set (ids ?c)" "terms_small ?c" "es = applyCh (nodes ?c i)" "nodes ?c i = (nodes c i)\<lparr>applyCh := es\<rparr>"
    using Cons(3) only_applied_small [OF 2 _ Cons(4)] by (simp_all add: put_node_def)
  from Cons(1) [OF this(3,1,2)] obtain fs c' where "run_small fs ?c = Some c'" "applying c' = applying ?c"
    "only_applied i ((nodes ?c i)\<lparr>applyCh := []\<rparr>) ?c c'" by blast
  then have "run_small ([ApplyReceive i] @ fs) c = Some c'" "applying c' = applying c"
    "only_applied i ((nodes c i)\<lparr>applyCh := []\<rparr>) c c'"
    using run_small_trans [OF 1] by (simp_all add: only_applied_def put_node_def)
  then show ?case by blast
qed

text \<open>A batch that the loop has taken is sent, received and recorded.\<close>

lemma finish_batch:
  assumes "i \<in> set (ids c)" "terms_small c" "applyCh (nodes c i) = []" "applying c i = Some (b, k)"
  shows "\<exists>es c'. run_small es c = Some c' \<and> applying c' i = None \<and>
    only_applied i ((nodes c i)\<lparr>lastApplied := k\<rparr>) c c'"
  using assms
proof (induction b arbitrary: c)
  case Nil
  let ?c = "(put_node i (apply_finish k (nodes c i)) c)\<lparr>applying := (applying c)(i := None)\<rparr>"
  have "run_small [ApplyFinish i] c = Some ?c" using Nil by simp
  then show ?case
    by (intro exI [of _ "[ApplyFinish i]"] exI [of _ ?c]) (simp add: only_applied_def put_node_def apply_finish_def)
next
  case (Cons e b)
  let ?c1 = "(put_node i ((nodes c i)\<lparr>applyCh := [e]\<rparr>) c)\<lparr>applying := (applying c)(i := Some (b, k))\<rparr>"
  let ?c2 = "(put_node i ((nodes c i)\<lparr>applyCh := []\<rparr>) ?c1)\<lparr>stores := (stores c)(i := consume (le_Command e) (stores c i))\<rparr>"
  have s: "apply_send e (nodes c i) = Some ((nodes c i)\<lparr>applyCh := [e]\<rparr>)"
    using Cons(4) by (simp add: apply_send_def applyCh_capacity_def)
  have ch: "(nodes c i)\<lparr>applyCh := [], lastApplied := k\<rparr> = (nodes c i)\<lparr>lastApplied := k\<rparr>" using Cons(4) by simp
  have "terms_small ?c1" using Cons(3) by (auto simp: terms_small_def put_node_def)
  then have 1: "run_small [ApplySend i, ApplyReceive i] c = Some ?c2"
    using Cons(2-5) s by (simp add: put_node_def)
  have "terms_small ?c2" using Cons(3) by (auto simp: terms_small_def put_node_def)
  then obtain es c' where "run_small es ?c2 = Some c'" "applying c' i = None"
    "only_applied i ((nodes ?c2 i)\<lparr>lastApplied := k\<rparr>) ?c2 c'"
    using Cons(1) [of ?c2] Cons(2,4) by (auto simp: put_node_def)
  then have "run_small ([ApplySend i, ApplyReceive i] @ es) c = Some c'" "applying c' i = None"
    "only_applied i ((nodes c i)\<lparr>applyCh := [], lastApplied := k\<rparr>) c c'"
    using run_small_trans [OF 1] by (simp_all add: only_applied_def put_node_def)
  then show ?case unfolding ch by blast
qed

lemma only_applied_trans:
  "only_applied i n c c1 \<Longrightarrow> only_applied i m c1 c2 \<Longrightarrow> only_applied i m c c2"
  by (simp add: only_applied_def)

lemma drain_channel:
  assumes "i \<in> set (ids c)" "terms_small c"
  obtains es c' k where "run_small es c = Some c'" "applying c' i = None"
    "only_applied i ((nodes c i)\<lparr>applyCh := [], lastApplied := k\<rparr>) c c'"
proof -
  let ?n = "(nodes c i)\<lparr>applyCh := []\<rparr>"
  obtain es c1 where c1: "run_small es c = Some c1" "applying c1 = applying c" "only_applied i ?n c c1"
    using receive_all [OF assms] by blast
  have n: "nodes c1 i = ?n" "i \<in> set (ids c1)" using c1(3) assms(1) by (simp_all add: only_applied_def)
  have small: "terms_small c1" using only_applied_small [OF c1(3) _ assms(2)] by simp
  show thesis
  proof (cases "applying c1 i")
    case None
    have "?n = (nodes c i)\<lparr>applyCh := [], lastApplied := lastApplied (nodes c i)\<rparr>" by simp
    then show thesis using that c1(1,3) None by metis
  next
    case (Some bk)
    obtain b k where bk: "applying c1 i = Some (b, k)" using Some by (cases bk) simp
    obtain fs c' where "run_small fs c1 = Some c'" "applying c' i = None"
      "only_applied i ((nodes c1 i)\<lparr>lastApplied := k\<rparr>) c1 c'"
      using finish_batch [OF n(2) small _ bk] n(1) by auto
    moreover from this have "only_applied i ((nodes c i)\<lparr>applyCh := [], lastApplied := k\<rparr>) c c'"
      using only_applied_trans [OF c1(3)] n(1) by simp
    ultimately show thesis using that [OF run_small_trans [OF c1(1)]] by blast
  qed
qed

text \<open>The state after everything has been applied.\<close>

lemma drain:
  assumes "i \<in> set (ids c)" "terms_small c" "entries_ok (entries (log (nodes c i)))"
    "unat (commitIndex (nodes c i)) < length (entries (log (nodes c i)))"
    "\<And>c'. reachable c c' \<Longrightarrow> lastApplied (nodes c' i) \<le> commitIndex (nodes c' i)"
  obtains es c' where "run_small es c = Some c'" "quiet c' i"
    "only_applied i ((nodes c i)\<lparr>applyCh := [], lastApplied := commitIndex (nodes c i)\<rparr>) c c'"
proof -
  obtain es c1 k where c1: "run_small es c = Some c1" "applying c1 i = None"
    "only_applied i ((nodes c i)\<lparr>applyCh := [], lastApplied := k\<rparr>) c c1"
    using drain_channel [OF assms(1,2)] .
  let ?n = "nodes c1 i"
  have n: "?n = (nodes c i)\<lparr>applyCh := [], lastApplied := k\<rparr>" "i \<in> set (ids c1)" "terms_small c1"
    using c1(3) assms(1) only_applied_small [OF c1(3) _ assms(2)] by (simp_all add: only_applied_def)
  have le: "k \<le> commitIndex (nodes c i)" using assms(5) [OF run_small_reachable [OF c1(1)]] n(1) by simp
  show thesis
  proof (cases "k = commitIndex (nodes c i)")
    case True
    then show thesis using that [OF c1(1)] c1(2,3) n(1) by (simp add: quiet_def)
  next
    case False
    then have lt: "\<not> commitIndex ?n \<le> lastApplied ?n" using le n(1) by simp
    obtain r where r: "apply_begin ?n = Some r" using apply_begin_total [of ?n] assms(3,4) n(1) by auto
    then obtain b where b: "r = Some (b, commitIndex ?n)"
      using lt by (auto simp: apply_begin_def bind_eq_Some_conv)
    let ?c2 = "c1\<lparr>applying := (applying c1)(i := r)\<rparr>"
    have c2: "run_small [ApplyBegin i] c1 = Some ?c2" using n c1(2) r by simp
    have o2: "only_applied i ?n c1 ?c2" by (simp add: only_applied_def)
    then have "i \<in> set (ids ?c2)" "terms_small ?c2" "applyCh (nodes ?c2 i) = []" "applying ?c2 i = Some (b, commitIndex ?n)"
      using n only_applied_small [OF o2] b by simp_all
    from finish_batch [OF this] obtain fs c' where c': "run_small fs ?c2 = Some c'" "applying c' i = None"
      "only_applied i ((nodes ?c2 i)\<lparr>lastApplied := commitIndex ?n\<rparr>) ?c2 c'" by blast
    have "only_applied i ((nodes c i)\<lparr>applyCh := [], lastApplied := commitIndex (nodes c i)\<rparr>) c c'"
      using only_applied_trans [OF only_applied_trans [OF c1(3) o2] c'(3)] n(1) by simp
    moreover from this have "quiet c' i" using c'(2) by (simp add: quiet_def only_applied_def)
    ultimately show thesis
      using that [OF run_small_trans [OF run_small_trans [OF c1(1) c2] c'(1)]] by simp
  qed
qed

lemma drain_store:
  assumes "ids_ok is" "reachable (init_cluster is w) c" "i \<in> set is" "terms_small c"
  obtains es c' where "run_small es c = Some c'" "quiet c' i"
    "only_applied i ((nodes c i)\<lparr>applyCh := [], lastApplied := commitIndex (nodes c i)\<rparr>) c c'"
    "stores c' i = run_store (take (unat (commitIndex (nodes c i))) (commands (nodes c i)))"
proof -
  obtain h where h: "safety_inv h c" using safety.reachable_hist [OF assms(2,1)] .
  have i: "i \<in> set (ids c)" using elections.reachable_inv(2) [OF assms(2,1)] assms(3) by simp
  have "lastApplied (nodes c' i) \<le> commitIndex (nodes c' i)" if "reachable c c'" for c'
    using reachable_applied [OF assms(1) reachable_trans [OF that assms(2)] assms(3)] applied_bounds(2)
    by (metis word_le_nat_alt)
  then obtain es c' where c': "run_small es c = Some c'" "quiet c' i"
    "only_applied i ((nodes c i)\<lparr>applyCh := [], lastApplied := commitIndex (nodes c i)\<rparr>) c c'"
    by (rule drain [OF i assms(4) node_ok(1,3) [OF h i]])
  have "reachable (init_cluster is w) c'"
    by (rule reachable_trans [OF run_small_reachable [OF c'(1)] assms(2)])
  from quiet_store [OF assms(1) this assms(3) c'(2)]
  have "stores c' i = run_store (take (unat (commitIndex (nodes c i))) (commands (nodes c i)))"
    using c'(3) by (simp add: only_applied_def commands_def)
  with c' show thesis by (rule that)
qed

text \<open>C15. A store catches up: from every state of a run, the apply loop of a node and its consumer
  alone can reach a state in which everything the node has committed is in its store, in order
  and once; no other node and no message is involved.\<close>

theorem store_catches_up:
  assumes "ids_ok is" and "reachable (init_cluster is w) c" and "i \<in> set is" and "terms_small c"
  shows "\<exists>es c'. run_small es c = Some c' \<and> quiet c' i \<and> net c' = net c \<and> (\<forall>j. j \<noteq> i \<longrightarrow> nodes c' j = nodes c j) \<and>
    nodes c' i = (nodes c i)\<lparr>applyCh := [], lastApplied := commitIndex (nodes c i)\<rparr> \<and>
    stores c' i = run_store (take (unat (commitIndex (nodes c i))) (commands (nodes c i)))"
proof -
  obtain es c' where c': "run_small es c = Some c'" "quiet c' i"
    "only_applied i ((nodes c i)\<lparr>applyCh := [], lastApplied := commitIndex (nodes c i)\<rparr>) c c'"
    "stores c' i = run_store (take (unat (commitIndex (nodes c i))) (commands (nodes c i)))"
    using drain_store [OF assms] .
  then show ?thesis by (intro exI [of _ es] exI [of _ c']) (simp add: only_applied_def)
qed

theorem store_catches_up_witness:
  "\<exists>c c'. reachable three_nodes c \<and> reachable c c' \<and> commitIndex (nodes c ''a'') = 1 \<and>
     Get (stores c ''a'') ''k'' = ([], False) \<and> stores c' ''a'' = run_store [SerializePut ''k'' ''v'']"
proof -
  let ?es = "elect_a @ [Submit ''a'' (SerializePut ''k'' ''v''), ReplicateTick ''a'' ''b'', Deliver 3 5, Deliver 4 6]"
  have "after ?es three_nodes (\<lambda>c. terms_small c \<and> commitIndex (nodes c ''a'') = 1 \<and>
      Get (stores c ''a'') ''k'' = ([], False) \<and> take 1 (commands (nodes c ''a'')) = [SerializePut ''k'' ''v''])"
    by code_simp
  then obtain c where c: "reachable three_nodes c" "terms_small c" "commitIndex (nodes c ''a'') = 1"
    "Get (stores c ''a'') ''k'' = ([], False)" "take 1 (commands (nodes c ''a'')) = [SerializePut ''k'' ''v'']"
    by (elim afterE conjE)
  have ok: "ids_ok [''a'', ''b'', ''c'']" by (simp add: ids_ok_def)
  obtain es c' where "run_small es c = Some c'"
    "stores c' ''a'' = run_store (take (unat (commitIndex (nodes c ''a''))) (commands (nodes c ''a'')))"
    using store_catches_up [OF ok c(1) [unfolded three_nodes_def] _ c(2), of "''a''"] by auto
  then have "reachable c c'" "stores c' ''a'' = run_store [SerializePut ''k'' ''v'']"
    using run_small_reachable c(3,5) by simp_all
  then show ?thesis using c(1,3,4) by blast
qed

end
