(* ===== verification/Raft_Electable.thy ===== *)
theory Raft_Electable
  imports Raft_Drain
begin

text \<open>
  Elections can always succeed: whatever happened before, a node with a most up-to-date log wins
  an election when its vote requests and their replies are delivered, provided the cluster has at
  least two nodes.  A cluster of one node never has a leader.
\<close>

section \<open>Up-to-date logs\<close>

text \<open>The log of \<open>m\<close> is at least as up to date as that of \<open>n\<close>.\<close>

definition behind :: "Node \<Rightarrow> Node \<Rightarrow> bool" where
  "behind n m \<longleftrightarrow>
     (let t = le_Term (last (entries (log n))); u = le_Term (last (entries (log m)))
      in t < u \<or> t = u \<and> length (entries (log n)) \<le> length (entries (log m)))"

lemma behind_refl: "behind n n"
  by (simp add: behind_def)

lemma behind_trans: "behind n m \<Longrightarrow> behind m k \<Longrightarrow> behind n k"
  by (auto simp: behind_def Let_def)

lemma behind_total: "behind n m \<or> behind m n"
  by (auto simp: behind_def Let_def)

lemma most_up_to_date: "xs \<noteq> [] \<Longrightarrow> \<exists>i \<in> set xs. \<forall>j \<in> set xs. behind (f j) (f i)"
proof (induction xs rule: list_nonempty_induct)
  case (single x)
  then show ?case by (simp add: behind_refl)
next
  case (cons x xs)
  then obtain i where i: "i \<in> set xs" "\<forall>j \<in> set xs. behind (f j) (f i)" by blast
  show ?case
  proof (cases "behind (f x) (f i)")
    case True
    then show ?thesis using i by auto
  next
    case False
    then have "behind (f i) (f x)" using behind_total by blast
    then show ?thesis using i(2) behind_trans behind_refl by (intro bexI [of _ x]) auto
  qed
qed

lemma vote_granted:
  assumes "entries_ok (entries (log m))" "entries_ok (entries (log n))" "behind m n" "currentTerm m < rv_Term a"
    "rv_LastLogIndex a = LastIndex (log n)" "rv_LastLogTerm a = le_Term (last (entries (log n)))"
  obtains m' r where "HandleRequestVote rnd a m = Some (m', r)" "rvr_VoteGranted r" "rvr_Term r = rv_Term a"
    "currentTerm m' = rv_Term a" "log m' = log m"
proof -
  obtain m' r where h: "HandleRequestVote rnd a m = Some (m', r)"
    using HandleRequestVote_total [OF assms(1)] by blast
  have "unat (LastIndex (log m)) \<le> unat (LastIndex (log n))" if "length (entries (log m)) \<le> length (entries (log n))"
    using that unat_LastIndex [OF assms(1)] unat_LastIndex [OF assms(2)] by simp
  then have "isLogUpToDate m (rv_LastLogTerm a) (rv_LastLogIndex a) = Some True"
    using assms(3,5,6) LastTerm_ok [OF assms(1)]
    by (auto simp: isLogUpToDate_def behind_def Let_def word_le_nat_alt)
  then have "rvr_VoteGranted r"
    using h assms(4) by (auto simp: HandleRequestVote_def isLogUpToDate_def Let_def max_def bind_eq_Some_conv
        split: if_splits)
  then show thesis
    using HandleRequestVote_frame [OF h] assms(4) by (intro that [OF h]) (simp_all add: max.absorb1)
qed

section \<open>Counting votes\<close>

text \<open>The vote of \<open>p\<close> for \<open>i\<close> in term \<open>T\<close> has been asked for, and \<open>p\<close> will give it.\<close>

definition voter :: "cluster \<Rightarrow> NodeID \<Rightarrow> Term \<Rightarrow> NodeID \<Rightarrow> bool" where
  "voter c i T p \<longleftrightarrow> p \<noteq> i \<and> p \<in> set (ids c) \<and> votesReceived (nodes c i) p = None \<and>
     currentTerm (nodes c p) < T \<and> behind (nodes c p) (nodes c i) \<and>
     (\<exists>a. VoteReq i p a \<in> net_set c \<and> rv_Term a = T \<and> rv_LastLogIndex a = LastIndex (log (nodes c i)) \<and>
        rv_LastLogTerm a = le_Term (last (entries (log (nodes c i)))))"

text \<open>An election of \<open>i\<close> in term \<open>T\<close> is under way and the votes of \<open>ps\<close> suffice to win it.\<close>

definition awaiting :: "cluster \<Rightarrow> NodeID \<Rightarrow> Term \<Rightarrow> NodeID list \<Rightarrow> bool" where
  "awaiting c i T ps \<longleftrightarrow> i \<in> set (ids c) \<and> terms_small c \<and> state (nodes c i) = Candidate \<and>
     currentTerm (nodes c i) = T \<and> votes (nodes c i) < vote_majority (peers (nodes c i)) \<and>
     vote_majority (peers (nodes c i)) \<le> votes (nodes c i) + int (length ps) \<and> distinct ps \<and>
     (\<forall>q \<in> set (ids c). currentTerm (nodes c q) \<le> T) \<and> (\<forall>p \<in> set ps. voter c i T p)"

lemma voter_keep:
  assumes "voter c i T q" "ids c' = ids c" "nodes c' q = nodes c q" "log (nodes c' i) = log (nodes c i)"
    "votesReceived (nodes c' i) q = None" "net_set c \<subseteq> net_set c'"
  shows "voter c' i T q"
  using assms unfolding voter_def behind_def by auto

definition elected :: "cluster \<Rightarrow> cluster \<Rightarrow> NodeID \<Rightarrow> Term \<Rightarrow> bool" where
  "elected c c' i T \<longleftrightarrow> ids c' = ids c \<and> terms_small c' \<and> state (nodes c' i) = Leader \<and>
     currentTerm (nodes c' i) = T \<and> (\<forall>q. log (nodes c' q) = log (nodes c q)) \<and>
     (\<forall>q \<in> set (ids c). currentTerm (nodes c' q) \<le> T) \<and>
     (\<forall>p \<in> set (peers (nodes c' i)). nextIndex (nodes c' i) p = Some (LastIndex (log (nodes c' i)) + 1) \<and>
        matchIndex (nodes c' i) p = Some 0)"

text \<open>One vote is asked for, granted and counted.\<close>

lemma vote_delivered:
  assumes r: "ranged c" and aw: "awaiting c i T (p # ps)"
  obtains es c' m' r where "run_small es c = Some c'" "ids c' = ids c"
    "nodes c' = (nodes c)(p := m', i := handleVoteReply 0 p T r (nodes c i))" "net_set c \<subseteq> net_set c'"
    "rvr_VoteGranted r" "rvr_Term r = T" "currentTerm m' = T" "log m' = log (nodes c p)"
proof -
  have i: "i \<in> set (ids c)" "terms_small c" "currentTerm (nodes c i) = T"
    and p: "p \<noteq> i" "p \<in> set (ids c)" "currentTerm (nodes c p) < T" "behind (nodes c p) (nodes c i)"
    using aw by (auto simp: awaiting_def voter_def)
  obtain a where a: "VoteReq i p a \<in> net_set c" "rv_Term a = T" "rv_LastLogIndex a = LastIndex (log (nodes c i))"
    "rv_LastLogTerm a = le_Term (last (entries (log (nodes c i))))"
    using aw by (auto simp: awaiting_def voter_def)
  obtain m' rep where m: "HandleRequestVote 0 a (nodes c p) = Some (m', rep)" "rvr_VoteGranted rep" "rvr_Term rep = T"
    "currentTerm m' = T" "log m' = log (nodes c p)"
    using vote_granted [OF ranged_node(1) [OF r p(2)] ranged_node(1) [OF r i(1)] p(4) _ a(3,4)] p(3) a(2) by metis
  let ?msg = "VoteResp p i T rep"
  let ?c1 = "send [?msg] (put_node p m' c)"
  let ?c2 = "put_node i (handleVoteReply 0 p T rep (nodes c i)) ?c1"
  have "deliver (VoteReq i p a) 0 c = Some ?c1" using m(1) a(2) by (simp add: deliver_def)
  then obtain k1 where k1: "run_small [Deliver k1 0] c = Some ?c1" using deliver_run [OF a(1) i(2)] by metis
  have "terms_small ?c1" using i m(4) by (auto simp: terms_small_def cluster_update)
  moreover have "?msg \<in> net_set ?c1" by (simp add: send_def)
  moreover have "deliver ?msg 0 ?c1 = Some ?c2" using p(1) by (simp add: deliver_def cluster_update)
  ultimately obtain k2 where "run_small [Deliver k2 0] ?c1 = Some ?c2" using deliver_run by metis
  then have "run_small ([Deliver k1 0] @ [Deliver k2 0]) c = Some ?c2" by (rule run_small_trans [OF k1])
  then show thesis
    by (rule that [OF _ _ _ _ m(2-5)]) (auto simp: cluster_update)
qed

lemma elected_trans:
  "elected c1 c' i T \<Longrightarrow> ids c1 = ids c \<Longrightarrow> (\<And>q. log (nodes c1 q) = log (nodes c q)) \<Longrightarrow> elected c c' i T"
  by (simp add: elected_def)

lemma win_votes:
  assumes "ranged c" "ids_ok (ids c)" "awaiting c i T ps"
  shows "\<exists>es c'. run_small es c = Some c' \<and> elected c c' i T"
  using assms
proof (induction ps arbitrary: c)
  case Nil
  then show ?case by (auto simp: awaiting_def)
next
  case (Cons p ps)
  note aw = Cons(4) [unfolded awaiting_def]
  obtain es c1 m' r where c1: "run_small es c = Some c1" "ids c1 = ids c"
    "nodes c1 = (nodes c)(p := m', i := handleVoteReply 0 p T r (nodes c i))" "net_set c \<subseteq> net_set c1"
    "rvr_VoteGranted r" "rvr_Term r = T" "currentTerm m' = T" "log m' = log (nodes c p)"
    using vote_delivered [OF Cons(2,4)] .
  let ?n = "nodes c i"
  let ?n1 = "?n\<lparr>votesReceived := (votesReceived ?n)(p \<mapsto> True), votes := votes ?n + 1\<rparr>"
  have reply: "handleVoteReply 0 p T r ?n =
      (if votes ?n + 1 \<ge> vote_majority (peers ?n) then becomeLeaderLocked ?n1 else ?n1)"
    using aw c1(5,6) by (simp add: handleVoteReply_def Let_def go_get_def voter_def)
  have logs: "log (nodes c1 q) = log (nodes c q)" for q using c1(3,8) reply by simp
  have "currentTerm (nodes c1 q) \<le> T \<and> currentTerm (nodes c1 q) < - 1" if "q \<in> set (ids c)" for q
    using aw c1(3,7) reply that by (auto simp: terms_small_def)
  then have terms: "\<forall>q \<in> set (ids c1). currentTerm (nodes c1 q) \<le> T" "terms_small c1"
    using c1(2) by (simp_all add: terms_small_def)
  show ?case
  proof (cases "votes ?n + 1 \<ge> vote_majority (peers ?n)")
    case True
    then have "nodes c1 i = becomeLeaderLocked ?n1" using c1(3) reply by simp
    then have "elected c c1 i T"
      using aw c1(2) logs terms by (simp add: elected_def becomeLeader_index)
    then show ?thesis using c1(1) by blast
  next
    case False
    then have n1: "nodes c1 i = ?n1" using c1(3) reply by simp
    have "voter c1 i T q" if q: "q \<in> set ps" for q
    proof (rule voter_keep [OF _ c1(2) _ logs _ c1(4)])
      show "voter c i T q" using aw q by simp
      then show "nodes c1 q = nodes c q" "votesReceived (nodes c1 i) q = None"
        using aw q n1 c1(3) by (auto simp: voter_def)
    qed
    then have "awaiting c1 i T ps"
      using aw False n1 terms c1(2) by (simp add: awaiting_def)
    moreover have "ranged c1" "ids_ok (ids c1)"
      using ranges.reachable_from [OF run_small_reachable [OF c1(1)] Cons(2,3)] Cons(3) by simp_all
    ultimately obtain fs c' where "run_small fs c1 = Some c'" "elected c1 c' i T" using Cons(1) by blast
    then show ?thesis using run_small_trans [OF c1(1)] elected_trans [OF _ c1(2) logs] by blast
  qed
qed

section \<open>Starting elections\<close>

text \<open>Node \<open>i\<close> of \<open>c'\<close> has just become a candidate in term \<open>T\<close>; nothing else has changed since \<open>c\<close>.\<close>

definition campaigning :: "cluster \<Rightarrow> cluster \<Rightarrow> NodeID \<Rightarrow> Term \<Rightarrow> bool" where
  "campaigning c c' i T \<longleftrightarrow> ids c' = ids c \<and> (\<forall>q. q \<noteq> i \<longrightarrow> nodes c' q = nodes c q) \<and>
     state (nodes c' i) = Candidate \<and> currentTerm (nodes c' i) = T \<and> log (nodes c' i) = log (nodes c i) \<and>
     peers (nodes c' i) = peers (nodes c i) \<and> votes (nodes c' i) = 1 \<and>
     votesReceived (nodes c' i) = [node_id (nodes c i) \<mapsto> True] \<and> node_id (nodes c' i) = node_id (nodes c i) \<and>
     (\<exists>a. rv_Term a = T \<and> rv_LastLogIndex a = LastIndex (log (nodes c i)) \<and>
        rv_LastLogTerm a = le_Term (last (entries (log (nodes c i)))) \<and>
        (\<forall>p \<in> set (peers (nodes c i)). VoteReq i p a \<in> net_set c'))"

lemma campaign_once:
  assumes "i \<in> set (ids c)" "entries_ok (entries (log (nodes c i)))" "terms_small c"
  obtains c' where "run_small [Election i 0] c = Some c'" "campaigning c c' i (currentTerm (nodes c i) + 1)"
proof -
  let ?n = "nodes c i"
  obtain n' a where e: "startElection 0 ?n = Some (n', a)" using startElection_total [OF assms(2)] by blast
  note f = startElection_Some [OF e]
  let ?c = "send (map (\<lambda>p. VoteReq i p a) (peers n')) (put_node i n' c)"
  have "rv_LastLogTerm a = le_Term (last (entries (log ?n)))" using f(18) LastTerm_ok [OF assms(2)] by simp
  then have "campaigning c ?c i (currentTerm ?n + 1)"
    using f by (auto simp: campaigning_def cluster_update intro!: exI [of _ a])
  moreover have "run_small [Election i 0] c = Some ?c" using assms(1,3) e by simp
  ultimately show thesis using that by blast
qed

lemma campaign:
  assumes "i \<in> set (ids c)" "entries_ok (entries (log (nodes c i)))" "terms_small c"
    "currentTerm (nodes c i) < T" "T < - 1"
  shows "\<exists>es c'. run_small es c = Some c' \<and> campaigning c c' i T"
  using assms
proof (induction "unat T - unat (currentTerm (nodes c i))" arbitrary: c rule: less_induct)
  case less
  let ?t = "currentTerm (nodes c i)"
  obtain c1 where c1: "run_small [Election i 0] c = Some c1" "campaigning c c1 i (?t + 1)"
    using campaign_once [OF less(2-4)] .
  have lt: "unat ?t < unat T" using less(5) by (simp add: word_less_nat_alt)
  have t1: "unat (?t + 1) = Suc (unat ?t)" using lt unat_u64_lt [of T] by (intro unat_Suc) linarith
  show ?case
  proof (cases "?t + 1 = T")
    case True
    then show ?thesis using c1 by blast
  next
    case False
    then have "unat (?t + 1) \<noteq> unat T" by (simp add: word_unat_eq_iff)
    then have less_T: "?t + 1 < T" using lt t1 by (simp add: word_less_nat_alt)
    have n1: "currentTerm (nodes c1 i) = ?t + 1" "log (nodes c1 i) = log (nodes c i)" "ids c1 = ids c"
      using c1(2) by (simp_all add: campaigning_def)
    have "currentTerm (nodes c1 q) < - 1" if "q \<in> set (ids c)" for q
      using less(4,6) less_T c1(2) n1(1) that by (cases "q = i") (auto simp: terms_small_def campaigning_def)
    then have "terms_small c1" using n1(3) by (simp add: terms_small_def)
    moreover have "unat T - unat (currentTerm (nodes c1 i)) < unat T - unat ?t" using lt t1 n1(1) by simp
    ultimately obtain es c' where c': "run_small es c1 = Some c'" "campaigning c1 c' i T"
      using less(1) [of c1] n1 less(2,3,6) less_T by auto
    have "campaigning c c' i T" using c'(2) c1(2) unfolding campaigning_def by auto
    then show ?thesis using run_small_trans [OF c1(1) c'(1)] by blast
  qed
qed

lemma peers_nonempty:
  assumes "ranged c" "ids_ok (ids c)" "2 \<le> length (ids c)"
  shows "peers (nodes c i) \<noteq> []"
proof -
  have "distinct (ids c)" using assms(2) by (simp add: ids_ok_def)
  then have "\<not> set (ids c) \<subseteq> {i}"
    using assms(3) card_mono [of "{i}" "set (ids c)"] distinct_card [of "ids c"] by auto
  then show ?thesis unfolding ranged_peers [OF assms(1)] filter_empty_conv by blast
qed

lemma campaign_awaiting:
  assumes r: "ranged c" "ids_ok (ids c)" "2 \<le> length (ids c)" and i: "i \<in> set (ids c)"
    and best: "\<forall>j \<in> set (ids c). behind (nodes c j) (nodes c i)"
    and T: "\<forall>q \<in> set (ids c). currentTerm (nodes c q) < T" "T < - 1" and cam: "campaigning c c' i T"
  shows "awaiting c' i T (peers (nodes c i))"
proof -
  note f = cam [unfolded campaigning_def]
  have ps: "peers (nodes c i) = filter (\<lambda>j. j \<noteq> i) (ids c)" "node_id (nodes c i) = i"
    using ranged_peers [OF r(1)] r(1) by (simp_all add: ranged_def election_inv_def topology_inv_def)
  have "peers (nodes c i) \<noteq> []" by (rule peers_nonempty [OF r])
  then have "1 \<le> length (peers (nodes c i))" by (simp add: Suc_le_eq)
  then have maj: "1 < vote_majority (peers (nodes c i))" "vote_majority (peers (nodes c i)) \<le> 1 + int (length (peers (nodes c i)))"
    by (simp_all add: vote_majority_def go_len_def)
  have terms: "currentTerm (nodes c' q) \<le> T \<and> currentTerm (nodes c' q) < - 1" if "q \<in> set (ids c)" for q
    using T f that by (cases "q = i") (auto intro: less_imp_le less_trans)
  have "voter c' i T p" if "p \<in> set (peers (nodes c i))" for p
  proof -
    have p: "p \<noteq> i" "p \<in> set (ids c)" "nodes c' p = nodes c p" using that f ps(1) by auto
    have "behind (nodes c' p) (nodes c' i)" using best p f by (simp add: behind_def)
    then show ?thesis using f p T(1) that ps(2) by (auto simp: voter_def)
  qed
  then show ?thesis
    using f i maj terms ps(1) r(2) by (simp add: awaiting_def terms_small_def ids_ok_def)
qed

lemma electable:
  assumes r: "ranged c" "ids_ok (ids c)" "2 \<le> length (ids c)"
    and T: "\<forall>q \<in> set (ids c). currentTerm (nodes c q) < T" "T < - 1"
  obtains es c' i where "run_small es c = Some c'" "i \<in> set (ids c)" "elected c c' i T"
proof -
  have "ids c \<noteq> []" using r(3) by auto
  then obtain i where i: "i \<in> set (ids c)" "\<forall>j \<in> set (ids c). behind (nodes c j) (nodes c i)"
    using most_up_to_date [of "ids c" "nodes c"] by blast
  have "terms_small c" using T by (auto simp: terms_small_def intro: less_trans)
  then obtain es c1 where c1: "run_small es c = Some c1" "campaigning c c1 i T"
    using campaign [OF i(1) ranged_node(1) [OF r(1) i(1)]] T i(1) by blast
  have "ranged c1" "ids_ok (ids c1)" and ids: "ids c1 = ids c"
    using ranges.reachable_from [OF run_small_reachable [OF c1(1)] r(1,2)] r(2) by simp_all
  then obtain fs c' where c': "run_small fs c1 = Some c'" "elected c1 c' i T"
    using win_votes campaign_awaiting [OF r i T c1(2)] by blast
  have "log (nodes c1 q) = log (nodes c q)" for q using c1(2) by (cases "q = i") (simp_all add: campaigning_def)
  then have "elected c c' i T" by (rule elected_trans [OF c'(2) ids])
  then show thesis using that run_small_trans [OF c1(1) c'(1)] i(1) by blast
qed

section \<open>Clusters of one node\<close>

lemma single_inv:
  assumes "reachable (init_cluster [i] w) c" "i \<noteq> []"
  shows "net c = [] \<and> state (nodes c i) \<noteq> Leader"
  using assms(1)
proof (induction rule: reachable.induct)
  case start
  then show ?case by (simp add: init_cluster_def NewNode_def)
next
  case (step c e c')
  have ok: "ids_ok [i]" using assms(2) by (simp add: ids_ok_def)
  have inv: "election_inv c" "ids c = [i]" using elections.reachable_inv [OF step(1) ok] by simp_all
  then have peers: "peers (nodes c i) = []" by (simp add: election_inv_def topology_inv_def)
  show ?case
    using exec_cstep [OF step(3)]
  proof
    assume "cstep c c'"
    then show ?thesis
      by (cases rule: cstep.cases)
        (use step(4) inv(2) peers startElection_Some(2,6) in
          \<open>auto simp: submit_append_def cluster_update sendHeartbeats_def apply_finish_def apply_send_def split: if_splits\<close>)
  qed (use step(4) in simp)
qed

text \<open>C18. A cluster of one node never has a leader and refuses every command, however long it runs:
  the votes are only counted when a reply arrives, and nobody replies to the only node.\<close>

theorem single_node_never_leads:
  assumes "i \<noteq> []" and "reachable (init_cluster [i] w) c"
  shows "\<not> IsLeader (nodes c i) \<and>
    SubmitCommand cmd (nodes c i) polls = Some (nodes c i, Inl (SubmitRaft ErrNotLeader))"
  using single_inv [OF assms(2,1)] by (simp add: IsLeader_def SubmitCommand_def submit_append_def)

theorem single_node_never_leads_witness:
  "\<exists>c. reachable (init_cluster [''a''] (\<lambda>_. None)) c \<and> currentTerm (nodes c ''a'') = 2 \<and> \<not> IsLeader (nodes c ''a'') \<and>
     SubmitCommand ''x'' (nodes c ''a'') [] = Some (nodes c ''a'', Inl (SubmitRaft ErrNotLeader))"
proof -
  have "after [Election ''a'' 3, Election ''a'' 4] (init_cluster [''a''] (\<lambda>_. None)) (\<lambda>c. currentTerm (nodes c ''a'') = 2)"
    by code_simp
  then obtain c where c: "reachable (init_cluster [''a''] (\<lambda>_. None)) c" "currentTerm (nodes c ''a'') = 2" by (elim afterE)
  have "''a'' \<noteq> []" by simp
  from single_node_never_leads [OF this c(1)] show ?thesis using c by blast
qed

end
