(* ===== verification/Raft_Availability.thy ===== *)
theory Raft_Availability
  imports Raft_Electable
begin

text \<open>
  Availability: from every state of a run of a cluster with at least two nodes, a continuation
  elects a leader that takes a given command, replicates it to all nodes, commits, applies and
  acknowledges it.  No history of crashes of messages, lost leaders or conflicting logs can bring
  the cluster into a state from which this is impossible.
\<close>

section \<open>Completing a command\<close>

text \<open>The leader's bookkeeping after it took a command: nothing is acknowledged beyond the log, the
  peers in \<open>S\<close> have acknowledged all of it, and for the others \<open>nextIndex\<close> is within the log.\<close>

definition spreading :: "Node \<Rightarrow> NodeID set \<Rightarrow> bool" where
  "spreading n S \<longleftrightarrow> le_Term (last (entries (log n))) = currentTerm n \<and> commitIndex n \<le> LastIndex (log n) \<and>
     (\<forall>p \<in> set (peers n). go_get 0 (matchIndex n) p \<le> LastIndex (log n) \<and>
        (p \<in> S \<longrightarrow> go_get 0 (matchIndex n) p = LastIndex (log n)) \<and>
        (p \<notin> S \<longrightarrow> unat (go_get 0 (nextIndex n) p) < length (entries (log n))))"

lemma spreading_probed:
  assumes "spreading n S" "probed p n n'" "unat (go_get 0 (nextIndex n') p) \<le> unat (go_get 0 (nextIndex n) p)"
  shows "spreading n' S"
proof -
  have "unat (go_get 0 (nextIndex n') q) \<le> unat (go_get 0 (nextIndex n) q)" for q
    using assms(2,3) by (cases "q = p") (simp_all add: probed_def go_get_def)
  then show ?thesis
    using assms(1,2) le_less_trans unfolding spreading_def probed_def by metis
qed

lemma last_index:
  assumes "entries_ok es"
  shows "le_Index (last es) = of_nat (length es - 1)"
  using entries_ok_len [OF assms] entries_ok_index [OF assms, of "length es - 1"] by (simp add: last_conv_nth)

lemma LastIndex_last:
  assumes "entries_ok (entries l)"
  shows "le_Index (last (entries l)) = LastIndex l" "entries l ! unat (LastIndex l) = last (entries l)"
proof -
  note u = unat_LastIndex [OF assms]
  have "LastIndex l = of_nat (unat (LastIndex l))" by simp
  then show "le_Index (last (entries l)) = LastIndex l" using last_index [OF assms] unfolding u by simp
  show "entries l ! unat (LastIndex l) = last (entries l)"
    using entries_ok_len [OF assms] unfolding u by (simp add: last_conv_nth)
qed

text \<open>Recording the acknowledgement of the whole log.\<close>

lemma record_last:
  assumes "entries_ok (entries (log n))" "x < length (entries (log n))" "go_get 0 (matchIndex n) p \<le> LastIndex (log n)"
  defines "m \<equiv> record_match p (drop x (entries (log n))) n"
  shows "go_get 0 (matchIndex m) p = LastIndex (log n)" "q \<noteq> p \<Longrightarrow> go_get 0 (matchIndex m) q = go_get 0 (matchIndex n) q"
    "q \<noteq> p \<Longrightarrow> go_get 0 (nextIndex m) q = go_get 0 (nextIndex n) q"
  using assms(2,3) LastIndex_last(1) [OF assms(1)] unfolding m_def
  by (auto simp: record_match_def Let_def go_get_def last_drop)

lemma advance_all:
  assumes ok: "entries_ok (entries (log n))" and t: "le_Term (last (entries (log n))) = currentTerm n"
    and le: "commitIndex n \<le> LastIndex (log n)" "\<forall>p \<in> set (peers n). go_get 0 (matchIndex n) p \<le> LastIndex (log n)"
    and adv: "advanceCommitIndexLocked n = Some n'"
  shows "commitIndex n' \<le> LastIndex (log n)"
    "\<forall>p \<in> set (peers n). go_get 0 (matchIndex n) p = LastIndex (log n) \<Longrightarrow> commitIndex n' = LastIndex (log n)"
proof -
  have k: "candidate_commit n \<le> LastIndex (log n)" by (rule matches_bound [OF le(2)])
  show "commitIndex n' \<le> LastIndex (log n)"
    using adv by (cases rule: advance_cases) (use k le(1) in simp_all)
  assume all: "\<forall>p \<in> set (peers n). go_get 0 (matchIndex n) p = LastIndex (log n)"
  have "filter (\<lambda>m. LastIndex (log n) \<le> m) (commit_matches n) = commit_matches n"
    using all by (auto simp: commit_matches_def intro!: filter_True)
  then have "replicated n (LastIndex (log n))"
    using majority_in_range(2) [of n] by (simp add: replicated_def go_len_def)
  then have eq: "candidate_commit n = LastIndex (log n)" using k by (simp add: replicated_iff)
  have len: "unat (LastIndex (log n)) < length (entries (log n))"
    using unat_LastIndex [OF ok] entries_ok_len [OF ok] by simp
  then have "Contains (log n) (LastIndex (log n))" by (simp add: Contains_iff)
  then show "commitIndex n' = LastIndex (log n)"
    using adv eq le(1) t len LastIndex_last(2) [OF ok] by (auto simp: advance_eq split: if_splits)
qed

text \<open>When all have acknowledged, the last acknowledgement commits the log.\<close>

lemma spreading_acknowledged:
  assumes ok: "entries_ok (entries (log n))" and s: "spreading n S" and p: "p \<in> set (peers n)" "p \<notin> S"
    and a: "acknowledged p n n'"
  shows "spreading n' (insert p S)" "set (peers n) \<subseteq> insert p S \<Longrightarrow> commitIndex n' = LastIndex (log n)"
proof -
  let ?x = "unat (go_get 0 (nextIndex n) p)"
  let ?m = "record_match p (drop ?x (entries (log n))) n"
  have x: "?x < length (entries (log n))" "go_get 0 (matchIndex n) p \<le> LastIndex (log n)"
    using s p by (auto simp: spreading_def)
  then have adv: "advanceCommitIndexLocked ?m = Some n'" using a by (simp add: acknowledged_def Let_def)
  note f = advanceCommit_frame [OF adv] and m = record_last [OF ok x]
  have le: "\<forall>q \<in> set (peers ?m). go_get 0 (matchIndex ?m) q \<le> LastIndex (log ?m)"
  proof
    fix q assume "q \<in> set (peers ?m)"
    then show "go_get 0 (matchIndex ?m) q \<le> LastIndex (log ?m)"
      using s m(1,2) by (cases "q = p") (auto simp: spreading_def)
  qed
  have all: "commitIndex n' \<le> LastIndex (log n)" "le_Term (last (entries (log n))) = currentTerm n"
    using advance_all(1) [OF _ _ _ le adv] ok s by (simp_all add: spreading_def)
  have "(q \<in> insert p S \<longrightarrow> go_get 0 (matchIndex ?m) q = LastIndex (log n)) \<and>
      (q \<notin> insert p S \<longrightarrow> unat (go_get 0 (nextIndex ?m) q) < length (entries (log n)))" if "q \<in> set (peers n)" for q
    using s m that by (cases "q = p") (auto simp: spreading_def)
  then have peers: "\<forall>q \<in> set (peers n). (q \<in> insert p S \<longrightarrow> go_get 0 (matchIndex ?m) q = LastIndex (log n)) \<and>
      (q \<notin> insert p S \<longrightarrow> unat (go_get 0 (nextIndex ?m) q) < length (entries (log n)))" by blast
  then show "spreading n' (insert p S)"
    using all le f unfolding spreading_def by simp
  show "commitIndex n' = LastIndex (log n)" if "set (peers n) \<subseteq> insert p S"
    using advance_all(2) [OF _ _ _ le adv] ok s peers that by (auto simp: spreading_def)
qed

section \<open>Replicating to everyone\<close>

definition ruling :: "cluster \<Rightarrow> NodeID \<Rightarrow> Term \<Rightarrow> RaftLog \<Rightarrow> bool" where
  "ruling c i T l \<longleftrightarrow> i \<in> set (ids c) \<and> terms_small c \<and> state (nodes c i) = Leader \<and>
     currentTerm (nodes c i) = T \<and> log (nodes c i) = l \<and> (\<forall>q \<in> set (ids c). currentTerm (nodes c q) \<le> T)"

lemma ruling_leading: "ruling c i T l \<Longrightarrow> p \<in> set (ids c) \<Longrightarrow> p \<noteq> i \<Longrightarrow> leading c i p T l"
  by (simp add: ruling_def leading_def)

lemma leading_ruling:
  assumes "ruling c i T l" "leading c' i p T l" "ids c' = ids c" "\<forall>q. q \<noteq> i \<and> q \<noteq> p \<longrightarrow> nodes c' q = nodes c q"
  shows "ruling c' i T l"
proof -
  have "currentTerm (nodes c' q) \<le> T" if "q \<in> set (ids c)" for q
    using assms that by (cases "q = i \<or> q = p") (auto simp: ruling_def leading_def)
  then show ?thesis using assms(2,3) by (simp add: ruling_def leading_def)
qed

lemma spread:
  assumes "ranged c" "ids_ok (ids c)" "ruling c i T l" "spreading (nodes c i) S" "ps \<noteq> []" "distinct ps"
    "set ps \<inter> S = {}" "set (peers (nodes c i)) = S \<union> set ps"
  shows "\<exists>es c'. run_small es c = Some c' \<and> ruling c' i T l \<and> commitIndex (nodes c' i) = LastIndex l"
  using assms
proof (induction ps arbitrary: c S)
  case (Cons p ps)
  note r = Cons(2,3) and rule = Cons(4)
  have l: "log (nodes c i) = l" "i \<in> set (ids c)" using rule by (simp_all add: ruling_def)
  have p: "p \<in> set (peers (nodes c i))" "p \<notin> S" "p \<in> set (ids c)" "p \<noteq> i"
    using Cons(8,9) ranged_peers [OF r(1), of i] by auto
  obtain es c1 n where c1: "run_small es c = Some c1" "leading c1 i p T l"
    "\<forall>q. q \<noteq> i \<and> q \<noteq> p \<longrightarrow> nodes c1 q = nodes c q" "probed p (nodes c i) n"
    "unat (go_get 0 (nextIndex n) p) \<le> next_of c i p" "acknowledged p n (nodes c1 i)"
    using catch_up [OF r ruling_leading [OF rule p(3,4)]] by blast
  have r1: "ranged c1" "ids_ok (ids c1)" "ids c1 = ids c"
    using ranges.reachable_from [OF run_small_reachable [OF c1(1)] r] r(2) by simp_all
  have rule1: "ruling c1 i T l" by (rule leading_ruling [OF rule c1(2) r1(3) c1(3)])
  have n: "log n = l" "peers n = peers (nodes c i)" using c1(4) l(1) by (simp_all add: probed_def)
  have ok: "entries_ok (entries (log n))" using ranged_node(1) [OF r(1) l(2)] l(1) n(1) by simp
  have sn: "spreading n S" by (rule spreading_probed [OF Cons(5) c1(4,5)])
  have pn: "p \<in> set (peers n)" using p(1) n(2) by simp
  note s1 = spreading_acknowledged [OF ok sn pn p(2) c1(6)]
  have peers1: "peers (nodes c1 i) = peers (nodes c i)" using acknowledged_frame(4) [OF c1(6)] n(2) by simp
  show ?case
  proof (cases "ps = []")
    case True
    then have "commitIndex (nodes c1 i) = LastIndex l" using s1(2) Cons(9) n by auto
    then show ?thesis using c1(1) rule1 by blast
  next
    case False
    have "\<exists>es c'. run_small es c1 = Some c' \<and> ruling c' i T l \<and> commitIndex (nodes c' i) = LastIndex l"
      by (rule Cons(1) [OF r1(1,2) rule1 s1(1) False]) (use Cons(7-9) peers1 in auto)
    then show ?thesis using run_small_trans [OF c1(1)] by blast
  qed
qed simp

section \<open>Commands complete\<close>

lemma submit_leader:
  assumes "state n = Leader" "Suc (length (entries (log n))) < max_len"
  obtains n' r where "submit_append cmd n = Some (n', r)"
    "r = Inr (LastIndex (log n) + 1, currentTerm n) \<or> (\<exists>e. r = Inl (SubmitWal e))"
    "entries (log n') = entries (log n) @ [\<lparr>le_Term = currentTerm n, le_Index = LastIndex (log n) + 1, le_Command = cmd\<rparr>]"
    "state n' = Leader" "currentTerm n' = currentTerm n" "commitIndex n' = commitIndex n" "peers n' = peers n"
    "nextIndex n' = nextIndex n" "matchIndex n' = matchIndex n"
proof -
  let ?e = "\<lparr>le_Term = currentTerm n, le_Index = LastIndex (log n) + 1, le_Command = cmd\<rparr>"
  let ?n = "n\<lparr>log := (log n)\<lparr>entries := entries (log n) @ [?e]\<rparr>\<rparr>"
  have ap: "Append (log n) [?e] = Some ((log n)\<lparr>entries := entries (log n) @ [?e]\<rparr>)"
    using assms(2) by (simp add: Append_def go_append_def)
  show thesis
  proof (cases "wal n")
    case None
    then have "submit_append cmd n = Some (?n, Inr (LastIndex (log n) + 1, currentTerm n))"
      using assms(1) ap by (simp add: submit_append_def Let_def)
    then show thesis by (rule that) (simp_all add: assms(1))
  next
    case (Some w)
    obtain e w1 where w: "PersistEntry (LastIndex (log n) + 1) (currentTerm n) cmd w = (e, w1)" by fastforce
    have "submit_append cmd n = Some (?n\<lparr>wal := Some w1\<rparr>,
        case e of None \<Rightarrow> Inr (LastIndex (log n) + 1, currentTerm n) | Some x \<Rightarrow> Inl (SubmitWal x))"
      using assms(1) ap Some w by (simp add: submit_append_def Let_def split: option.split)
    then show thesis by (rule that) (simp_all add: assms(1) split: option.split)
  qed
qed

text \<open>A freshly elected leader takes a command: it leads with the longer log and has to spread it.\<close>

lemma submit_spreading:
  assumes r: "ranged c1" "i \<in> set (ids c1)" and e: "elected c c1 i T"
    and room: "Suc (length (entries (log (nodes c1 i)))) < max_len"
    and ci: "unat (commitIndex (nodes c1 i)) < length (entries (log (nodes c1 i)))"
    and n: "entries (log n) = entries (log (nodes c1 i)) @ [\<lparr>le_Term = currentTerm (nodes c1 i),
        le_Index = LastIndex (log (nodes c1 i)) + 1, le_Command = cmd\<rparr>]"
      "state n = Leader" "currentTerm n = currentTerm (nodes c1 i)" "commitIndex n = commitIndex (nodes c1 i)"
      "peers n = peers (nodes c1 i)" "nextIndex n = nextIndex (nodes c1 i)" "matchIndex n = matchIndex (nodes c1 i)"
  shows "ruling (put_node i n c1) i T (log n)" "spreading n {}"
    "unat (LastIndex (log n)) = length (entries (log (nodes c1 i)))"
proof -
  note f = e [unfolded elected_def]
  have ok: "entries_ok (entries (log (nodes c1 i)))" by (rule ranged_node(1) [OF r])
  have "currentTerm (nodes (put_node i n c1) q) = currentTerm (nodes c1 q)" for q using n(3) by (simp add: put_node_def)
  then have "terms_small (put_node i n c1)" using f by (simp add: terms_small_def put_node_def)
  then show "ruling (put_node i n c1) i T (log n)" using f n r(2) by (simp add: ruling_def put_node_def)
  have "LastIndex (log n) = of_nat (length (entries (log (nodes c1 i))))"
    unfolding LastIndex_def using n(1) by (simp add: go_len_def)
  then show last: "unat (LastIndex (log n)) = length (entries (log (nodes c1 i)))"
    using room by simp
  have "unat (LastIndex (log (nodes c1 i)) + 1) = length (entries (log (nodes c1 i)))"
    by (rule unat_LastIndex_Suc [OF ok])
  then show "spreading n {}"
    using f n ci last by (auto simp: spreading_def go_get_def word_le_nat_alt)
qed

lemma ruling_completes:
  assumes "ids_ok is" "2 \<le> length is" "reachable (init_cluster is w) c" "ruling c i T l" "spreading (nodes c i) {}"
  obtains c' where "reachable c c'" "state (nodes c' i) = Leader" "currentTerm (nodes c' i) = T"
    "lastApplied (nodes c' i) = LastIndex l" "stores c' i = run_store (map le_Command (drop 1 (entries l)))"
proof -
  have r: "ranged c" "ids c = is" using ranges.reachable_inv [OF assms(3,1)] by simp_all
  have peers: "peers (nodes c i) \<noteq> []" "distinct (peers (nodes c i))"
    using peers_nonempty [OF r(1)] ranged_peers [OF r(1)] r(2) assms(1,2) by (simp_all add: ids_ok_def)
  obtain es c1 where c1: "run_small es c = Some c1" "ruling c1 i T l" "commitIndex (nodes c1 i) = LastIndex l"
    using spread [OF r(1) _ assms(4,5) peers] assms(1) r(2) by auto
  have reach: "reachable (init_cluster is w) c1" by (rule reachable_trans [OF run_small_reachable [OF c1(1)] assms(3)])
  have i: "i \<in> set is" "terms_small c1" "log (nodes c1 i) = l"
    using c1(2) ranges.reachable_inv(2) [OF reach assms(1)] by (simp_all add: ruling_def)
  have ok: "entries_ok (entries l)"
    using ranged_node(1) [OF ranges.reachable_inv(1) [OF reach assms(1)], of i] c1(2) by (simp add: ruling_def)
  obtain fs c' where c': "run_small fs c1 = Some c'"
    "only_applied i ((nodes c1 i)\<lparr>applyCh := [], lastApplied := commitIndex (nodes c1 i)\<rparr>) c1 c'"
    "stores c' i = run_store (take (unat (commitIndex (nodes c1 i))) (commands (nodes c1 i)))"
    using drain_store [OF assms(1) reach i(1,2)] .
  have "take (unat (LastIndex l)) (commands (nodes c1 i)) = map le_Command (drop 1 (entries l))"
    using unat_LastIndex [OF ok] i(3) by (simp add: commands_def)
  then show thesis
    using c' c1 that [OF run_small_reachable [OF run_small_trans [OF c1(1) c'(1)]]]
    by (simp add: only_applied_def ruling_def)
qed




end
