(* ===== verification/Raft_Goroutines.thy ===== *)
theory Raft_Goroutines
  imports Raft_Cluster Raft_Election
begin

text \<open>
  The goroutines of a node: the event loop \<open>run\<close> and the apply loop, started by \<open>Start\<close>, and one
  replication loop for each peer, started when the node becomes leader and ended through a
  context.  What one iteration of each loop does first is modelled here, on the node as it is
  when the iteration starts and as it is after the iteration has waited; \<open>None\<close> for the latter
  means that the wait was ended by \<open>stopCh\<close> or by the context.
\<close>

section \<open>The loops\<close>

datatype run_step = RunReturn | RunSleep | RunAct run_action

definition run_iteration :: "Node \<Rightarrow> Node option \<Rightarrow> run_step" where
  "run_iteration n woken =
     (if stopped n then RunReturn
      else case run_timer n of
        None \<Rightarrow> RunSleep
      | Some _ \<Rightarrow> (case woken of None \<Rightarrow> RunReturn | Some n' \<Rightarrow> RunAct (run_dispatch (state n'))))"

definition replicate_iteration :: "nat \<Rightarrow> NodeID \<Rightarrow> Node \<Rightarrow> Node option \<Rightarrow> tick option" where
  "replicate_iteration ctx p n woken =
     (if ctx \<in> set (cancelled n) then Some TickStop
      else case woken of None \<Rightarrow> Some TickStop | Some n' \<Rightarrow> replicate_tick p n')"

text \<open>\<open>None\<close> is the return of the loop.\<close>

definition apply_iteration :: "Node \<Rightarrow> Node option \<Rightarrow> (LogEntry list \<times> LogIndex) option option option" where
  "apply_iteration n woken =
     (if stopped n then None else case woken of None \<Rightarrow> None | Some n' \<Rightarrow> Some (apply_begin n'))"

section \<open>Live replication loops\<close>

text \<open>The replication loops whose context is not cancelled.\<close>

definition live :: "Node \<Rightarrow> (nat \<times> NodeID) list" where
  "live n = filter (\<lambda>(x, p). x \<notin> set (cancelled n)) (replicators n)"

definition contexts_ok :: "Node \<Rightarrow> bool" where
  "contexts_ok n \<longleftrightarrow> \<not> stopped n \<and>
     (\<forall>(x, p) \<in> set (replicators n). x < next_ctx n) \<and> (\<forall>x \<in> set (cancelled n). x < next_ctx n) \<and>
     (state n = Leader \<longrightarrow>
        (\<exists>x. replicateCancel n = Some x \<and> x < next_ctx n \<and> live n = map (Pair x) (peers n))) \<and>
     (state n \<noteq> Leader \<longrightarrow> replicateCancel n = None \<and> live n = [])"

text \<open>\<open>n'\<close> has the role and the contexts of \<open>n\<close>.\<close>

definition same_loops :: "Node \<Rightarrow> Node \<Rightarrow> bool" where
  "same_loops n n' \<longleftrightarrow> (state n' = Leader \<longleftrightarrow> state n = Leader) \<and> peers n' = peers n \<and> stopped n' = stopped n \<and>
     replicators n' = replicators n \<and> cancelled n' = cancelled n \<and> next_ctx n' = next_ctx n \<and>
     replicateCancel n' = replicateCancel n"

lemma same_loops_ok: "same_loops n n' \<Longrightarrow> contexts_ok n \<Longrightarrow> contexts_ok n'"
  by (simp add: same_loops_def contexts_ok_def live_def)

lemma same_loops_refl [simp]: "same_loops n n"
  by (simp add: same_loops_def)

lemma same_loops_trans: "same_loops n m \<Longrightarrow> same_loops m k \<Longrightarrow> same_loops n k"
  by (simp add: same_loops_def)

text \<open>Stepping down cancels the context of the loops; becoming leader opens a fresh one.\<close>

lemma step_down_ok:
  assumes "contexts_ok n" "replicators m = replicators n" "next_ctx m = next_ctx n" "stopped m = stopped n"
    "cancelled m = cancelled n" "replicateCancel m = replicateCancel n" "state m \<noteq> Leader"
  shows "contexts_ok (cancel_replication m)"
proof (cases "replicateCancel n")
  case None
  then have "state n \<noteq> Leader" using assms(1) by (auto simp: contexts_ok_def)
  then show ?thesis
    using assms None by (simp add: cancel_replication_def contexts_ok_def live_def)
next
  case (Some x)
  then have lead: "live n = map (Pair x) (peers n)" "x < next_ctx n"
    using assms(1) by (cases "state n = Leader"; simp add: contexts_ok_def)+
  have "live (cancel_replication m) = filter (\<lambda>(y, p). y \<noteq> x) (live n)"
    using assms(2,5,6) Some by (auto simp: live_def cancel_replication_def intro!: filter_cong)
  then have "live (cancel_replication m) = []" using lead(1) by (simp add: filter_empty_conv)
  then show ?thesis
    using assms Some lead(2) by (auto simp: cancel_replication_def contexts_ok_def)
qed

lemma becomeLeader_ok:
  assumes "contexts_ok n" "state n \<noteq> Leader"
  shows "contexts_ok (becomeLeaderLocked n)"
proof -
  have f: "replicators (fold (init_peer_index k) ps m) = replicators m" "cancelled (fold (init_peer_index k) ps m) = cancelled m"
    "next_ctx (fold (init_peer_index k) ps m) = next_ctx m" "stopped (fold (init_peer_index k) ps m) = stopped m" for k ps m
    by (induction ps arbitrary: m) (simp_all add: init_peer_index_def)
  have b: "replicators (becomeLeaderLocked n) = replicators n @ map (Pair (next_ctx n)) (peers n)"
    "cancelled (becomeLeaderLocked n) = cancelled n" "next_ctx (becomeLeaderLocked n) = Suc (next_ctx n)"
    "replicateCancel (becomeLeaderLocked n) = Some (next_ctx n)" "stopped (becomeLeaderLocked n) = stopped n"
    by (simp_all add: becomeLeaderLocked_def Let_def f)
  have "next_ctx n \<notin> set (cancelled n)" using assms(1) by (auto simp: contexts_ok_def)
  then have "live (becomeLeaderLocked n) = live n @ map (Pair (next_ctx n)) (peers n)"
    by (simp add: live_def b)
  then show ?thesis using assms b by (auto simp: contexts_ok_def less_Suc_eq)
qed

lemma persist_loops [simp]: "same_loops n (persist f n)"
  by (simp add: persist_def same_loops_def split: option.split)

lemma persist_entries_loops [simp]: "same_loops n (persist_entries es n)"
proof (induction es arbitrary: n)
  case (Cons e es)
  show ?case using same_loops_trans [OF persist_loops Cons.IH] by simp
qed simp

lemma becomeFollower_ok:
  assumes "contexts_ok n"
  shows "contexts_ok (becomeFollowerLocked rnd t n)"
proof -
  let ?n1 = "if t > currentTerm n then persist (PersistTerm t) (n\<lparr>currentTerm := t, votedFor := []\<rparr>) else n"
  let ?n2 = "?n1\<lparr>state := Follower, votes := 0, votesReceived := Map.empty\<rparr>"
  have "same_loops n ?n1"
    using same_loops_trans [OF _ persist_loops, of n "n\<lparr>currentTerm := t, votedFor := []\<rparr>"]
    by (simp add: same_loops_def)
  then have 1: "contexts_ok ?n1" by (rule same_loops_ok [OF _ assms])
  have "contexts_ok (cancel_replication (?n2\<lparr>heartbeatTimer := stop_timer (heartbeatTimer ?n2)\<rparr>))"
    by (rule step_down_ok [OF 1]) simp_all
  moreover have "contexts_ok ?n2" if "state ?n1 \<noteq> Leader"
    by (rule same_loops_ok [OF _ 1]) (use that in \<open>simp add: same_loops_def\<close>)
  moreover have "contexts_ok m \<Longrightarrow> contexts_ok (resetElectionTimerLocked rnd m)" for m
    by (rule same_loops_ok) (simp_all add: same_loops_def resetElectionTimerLocked_def)
  ultimately show ?thesis by (simp add: becomeFollowerLocked_def Let_def)
qed

section \<open>The handlers\<close>

lemma reset_loops [simp]: "same_loops n (resetElectionTimerLocked rnd n)"
  by (simp add: same_loops_def resetElectionTimerLocked_def)

lemma startElection_loops:
  assumes "startElection rnd n = Some (n', a)" "state n \<noteq> Leader"
  shows "same_loops n n'"
proof -
  let ?n1 = "n\<lparr>currentTerm := currentTerm n + 1, state := Candidate, votedFor := node_id n,
    leaderID := [], votes := 1, votesReceived := [node_id n \<mapsto> True]\<rparr>"
  have 1: "same_loops n ?n1" using assms(2) by (simp add: same_loops_def)
  obtain f g where n': "n' = resetElectionTimerLocked rnd (persist g (persist f ?n1))"
    using assms(1) unfolding startElection_def Let_def bind_eq_Some_conv by fast
  show ?thesis
    unfolding n' by (rule same_loops_trans [OF same_loops_trans [OF same_loops_trans [OF 1 persist_loops] persist_loops] reset_loops])
qed

lemma handleVoteReply_ok:
  assumes "contexts_ok n"
  shows "contexts_ok (handleVoteReply rnd p t r n)"
proof (cases rule: handleVoteReply_cases [of rnd p t r n])
  case win
  have "contexts_ok (n\<lparr>votesReceived := (votesReceived n)(p \<mapsto> True), votes := votes n + 1\<rparr>)"
    by (rule same_loops_ok [OF _ assms]) (simp add: same_loops_def)
  then show ?thesis using becomeLeader_ok win by simp
next
  case count
  show ?thesis unfolding count(1) by (rule same_loops_ok [OF _ assms]) (simp add: same_loops_def)
qed (use assms becomeFollower_ok in simp_all)

lemma HandleRequestVote_ok:
  assumes "contexts_ok n" "HandleRequestVote rnd a n = Some (n', r)"
  shows "contexts_ok n'"
proof -
  let ?n1 = "if rv_Term a > currentTerm n then becomeFollowerLocked rnd (rv_Term a) n else n"
  have 1: "contexts_ok ?n1" using assms(1) becomeFollower_ok by simp
  have "n' = ?n1 \<or> (\<exists>f. n' = persist f (resetElectionTimerLocked rnd (?n1\<lparr>votedFor := rv_CandidateID a\<rparr>)))"
    using assms(2) by (auto simp: HandleRequestVote_def Let_def bind_eq_Some_conv split: if_splits)
  moreover have "same_loops ?n1 (persist f (resetElectionTimerLocked rnd (?n1\<lparr>votedFor := v\<rparr>)))" for f v
  proof -
    have "same_loops ?n1 (?n1\<lparr>votedFor := v\<rparr>)" by (simp add: same_loops_def)
    from same_loops_trans [OF same_loops_trans [OF this reset_loops] persist_loops] show ?thesis .
  qed
  ultimately show ?thesis using 1 by (elim disjE exE) (simp, rule same_loops_ok, auto)
qed

lemma append_loop_loops:
  assumes "append_entries_loop idx es n = Some n'"
  shows "same_loops n n'"
proof -
  have log: "same_loops n (n\<lparr>log := l\<rparr>)" for l by (simp add: same_loops_def)
  have pe: "same_loops n (persist_entries fs (n\<lparr>log := l\<rparr>))" for fs l
    by (rule same_loops_trans [OF log persist_entries_loops])
  show ?thesis
    using assms
  proof (induction es arbitrary: idx)
    case (Cons e es)
    then obtain fs l where "n' = persist_entries fs (n\<lparr>log := l\<rparr>) \<or> append_entries_loop (idx + 1) es n = Some n'"
      by (auto simp: bind_eq_Some_conv split: if_splits simp del: persist_entries.simps)
    then show ?case using pe Cons.IH by blast
  qed simp
qed

lemma accept_leader_ok:
  assumes "contexts_ok n"
  shows "contexts_ok (accept_leader rnd a n)"
proof -
  let ?n1 = "if ae_Term a > currentTerm n then becomeFollowerLocked rnd (ae_Term a) n else n"
  have 1: "contexts_ok ?n1" using assms becomeFollower_ok by simp
  have "contexts_ok (cancel_replication (?n1\<lparr>state := Follower, heartbeatTimer := stop_timer (heartbeatTimer ?n1)\<rparr>))"
    by (rule step_down_ok [OF 1]) simp_all
  then have 2: "contexts_ok (step_down_same_term ?n1)" using 1 by (simp add: step_down_same_term_def)
  have "same_loops (step_down_same_term ?n1) ((step_down_same_term ?n1)\<lparr>leaderID := ae_LeaderID a\<rparr>)"
    by (simp add: same_loops_def)
  then show ?thesis
    unfolding accept_leader_def Let_def by (rule same_loops_ok [OF same_loops_trans [OF _ reset_loops] 2])
qed

lemma HandleAppendEntries_loops_ok:
  assumes "contexts_ok n" "HandleAppendEntries rnd a n = Some (n', r)"
  shows "contexts_ok n'"
  using assms(2)
proof (cases rule: HandleAppendEntries_cases)
  case (accept n3 n4)
  have "contexts_ok n4" using same_loops_ok [OF append_loop_loops [OF accept(4)]] accept_leader_ok [OF assms(1)] accept(2) by simp
  moreover have "same_loops n4 n'" unfolding accept(5) by (simp add: update_commit_def same_loops_def)
  ultimately show ?thesis using same_loops_ok by blast
qed (use assms(1) accept_leader_ok in auto)

lemma append_reply_ok:
  assumes "contexts_ok n" "heartbeat_reply rnd p t es r n = Some n' \<or> replicate_reply rnd p t es r n = Some n'"
  shows "contexts_ok n'"
  using assms(2)
proof (cases rule: append_reply_cases)
  case match
  have "same_loops n (record_match p es n)" by (simp add: record_match_def Let_def same_loops_def set_nextIndex_def)
  moreover have "same_loops (record_match p es n) n'"
    using match(6) by (auto simp: advanceCommitIndexLocked_def Let_def bind_eq_Some_conv same_loops_def split: if_splits)
  ultimately show ?thesis using same_loops_ok [OF same_loops_trans] assms(1) by blast
next
  case conflict
  have "same_loops n (set_nextIndex q x n)" for q x by (simp add: set_nextIndex_def same_loops_def)
  then have "same_loops n n'"
    using conflict(5) by (auto simp: handleConflictLocked_def bind_eq_Some_conv split: if_splits)
  then show ?thesis using same_loops_ok assms(1) by blast
qed (use assms(1) becomeFollower_ok in simp_all)

section \<open>Runs in which no leader starts an election\<close>

text \<open>
  \<open>run\<close> reads the role, releases the lock and then calls \<open>startElection\<close>, which does not look at
  the role again.  A node that becomes leader in between goes on as a candidate without ending
  its replication loops.  An orderly run is one in which this does not happen.
\<close>

inductive orderly :: "cluster \<Rightarrow> cluster \<Rightarrow> bool" for c0 where
  start: "orderly c0 c0"
| step: "orderly c0 c \<Longrightarrow> terms_small c \<Longrightarrow> exec e c = Some c' \<Longrightarrow>
    \<forall>i \<in> set (ids c). state (nodes c i) = Leader \<longrightarrow> state (nodes c' i) \<noteq> Candidate \<Longrightarrow> orderly c0 c'"

text \<open>The run of a list of events, if it is orderly.\<close>

fun run_orderly :: "event list \<Rightarrow> cluster \<Rightarrow> cluster option" where
  "run_orderly [] c = Some c"
| "run_orderly (e # es) c =
     (if terms_small c
      then do {
        c' \<leftarrow> exec e c;
        if list_all (\<lambda>i. state (nodes c i) = Leader \<longrightarrow> state (nodes c' i) \<noteq> Candidate) (ids c)
        then run_orderly es c' else None }
      else None)"

lemma run_orderly_orderly:
  assumes "run_orderly es c = Some c'" "orderly c0 c"
  shows "orderly c0 c'"
  using assms
proof (induction es arbitrary: c)
  case (Cons e es)
  then show ?case
    by (auto split: if_splits simp: bind_eq_Some_conv list_all_iff intro: orderly.step)
qed simp

lemma orderly_reachable: "orderly c0 c \<Longrightarrow> reachable c0 c"
  by (induction rule: orderly.induct) (auto intro: reachable.intros)

lemma cstep_contexts:
  assumes ok: "\<forall>i. contexts_ok (nodes c i)" and st: "cstep c c'"
    and race: "\<forall>i \<in> set (ids c). state (nodes c i) = Leader \<longrightarrow> state (nodes c' i) \<noteq> Candidate"
  shows "\<forall>i. contexts_ok (nodes c' i)"
proof -
  have put: "\<forall>j. contexts_ok (((nodes c)(i := n)) j)" if "contexts_ok n" for i n using ok that by simp
  have same: "contexts_ok n" if "same_loops (nodes c i) n" for i n using same_loops_ok [OF that] ok by blast
  show ?thesis
    using st
  proof cases
    case (election i rnd n' args)
    then have "state (nodes c i) \<noteq> Leader"
      using race startElection_Some(6) [OF election(3)] by (auto simp: cluster_update)
    then have "contexts_ok n'" using same startElection_loops [OF election(3)] by blast
    then show ?thesis using put election(1) by (simp add: cluster_update)
  next
    case (heartbeat i t k)
    have "contexts_ok (rearm_heartbeat (nodes c i))"
      by (rule same [of i]) (simp add: rearm_heartbeat_def same_loops_def split: option.split)
    then show ?thesis using put heartbeat(1) by (simp add: cluster_update)
  next
    case (vote_request src dst args rnd n' reply)
    then show ?thesis using put HandleRequestVote_ok [OF spec [OF ok]] by (simp add: cluster_update)
  next
    case (vote_reply src dst t reply rnd)
    then show ?thesis using put handleVoteReply_ok ok by (simp add: put_node_def)
  next
    case (append_request src dst k args rnd n' reply)
    then show ?thesis using put HandleAppendEntries_loops_ok [OF spec [OF ok]] by (simp add: cluster_update)
  next
    case (append_reply src dst k t es reply rnd n')
    then show ?thesis using put append_reply_ok [OF spec [OF ok]] by (simp add: put_node_def)
  next
    case (submit i cmd n' r)
    have "same_loops (nodes c i) n'"
      using submit(3) by (cases rule: submit_append_cases) (auto simp: same_loops_def)
    then show ?thesis using put same submit(1) by (simp add: put_node_def)
  next
    case (apply_send i e es k n')
    have "same_loops (nodes c i) n'"
      using apply_send(4) by (auto simp: apply_send_def same_loops_def split: if_splits)
    then show ?thesis using put same apply_send(1) by (simp add: put_node_def)
  next
    case (apply_finish i k)
    have "contexts_ok (apply_finish k (nodes c i))" by (rule same [of i]) (simp add: apply_finish_def same_loops_def)
    then show ?thesis using put apply_finish(1) by (simp add: put_node_def)
  next
    case (apply_receive i e es)
    have "contexts_ok ((nodes c i)\<lparr>applyCh := es\<rparr>)" by (rule same [of i]) (simp add: same_loops_def)
    then show ?thesis using put apply_receive(1) by (simp add: put_node_def)
  qed (use ok in \<open>simp_all add: send_def\<close>)
qed

lemma orderly_contexts:
  assumes "orderly (init_cluster is w) c"
  shows "contexts_ok (nodes c i)"
proof -
  have "\<forall>i. contexts_ok (nodes c i)"
    using assms
  proof (induction rule: orderly.induct)
    case start
    then show ?case by (simp add: init_cluster_def NewNode_def contexts_ok_def live_def)
  next
    case (step c e c')
    then show ?case using exec_cstep [OF step(3)] cstep_contexts by blast
  qed
  then show ?thesis by blast
qed

text \<open>C16. In an orderly run a leader has exactly one live replication loop for each peer and any
  other node has none; \<open>Stop\<close> does not panic, and after it every loop of the node returns at
  the start of its next iteration.\<close>

theorem stop_ends_loops:
  assumes "orderly (init_cluster is w) c"
  shows "\<exists>n'. map snd (live (nodes c i)) = (if state (nodes c i) = Leader then peers (nodes c i) else []) \<and>
    Stop (nodes c i) = Some n' \<and> (\<forall>woken. run_iteration n' woken = RunReturn \<and> apply_iteration n' woken = None \<and>
      list_all (\<lambda>(x, p). replicate_iteration x p n' woken = Some TickStop) (replicators n'))"
proof -
  let ?n = "nodes c i"
  have ok: "contexts_ok ?n" by (rule orderly_contexts [OF assms])
  then obtain n' where n': "Stop ?n = Some n'" by (simp add: Stop_def contexts_ok_def)
  have f: "stopped n'" "replicators n' = replicators ?n"
    "set (cancelled n') = set (cancelled ?n) \<union> set_option (replicateCancel ?n)"
    using n' by (auto simp: Stop_def split: if_splits option.splits)
  have roles: "map snd (live ?n) = (if state ?n = Leader then peers ?n else [])"
    using ok by (auto simp: contexts_ok_def comp_def)
  have live: "x \<in> set (cancelled n')" if "(x, p) \<in> set (replicators n')" for x p
  proof (rule ccontr)
    assume no: "x \<notin> set (cancelled n')"
    then have "(x, p) \<in> set (live ?n)" using that f(2,3) by (simp add: live_def)
    then have "replicateCancel ?n = Some x" using ok by (cases "state ?n = Leader") (auto simp: contexts_ok_def)
    then show False using no f(3) by simp
  qed
  then have "list_all (\<lambda>(x, p). replicate_iteration x p n' woken = Some TickStop) (replicators n')" for woken
    by (auto simp: list_all_iff replicate_iteration_def)
  then show ?thesis using roles n' f(1) by (auto simp: run_iteration_def apply_iteration_def)
qed

theorem stop_ends_loops_witness:
  "\<exists>c n'. orderly three_nodes c \<and> state (nodes c ''a'') = Leader \<and>
     map snd (live (nodes c ''a'')) = [''b'', ''c''] \<and> Stop (nodes c ''a'') = Some n' \<and>
     run_iteration n' (Some n') = RunReturn \<and> apply_iteration n' (Some n') = None \<and>
     list_all (\<lambda>(x, p). replicate_iteration x p n' (Some n') = Some TickStop) (replicators n')"
proof -
  have "case run_orderly elect_a three_nodes of None \<Rightarrow> False
    | Some c \<Rightarrow> state (nodes c ''a'') = Leader \<and> peers (nodes c ''a'') = [''b'', ''c'']"
    by code_simp
  then obtain c where r: "run_orderly elect_a three_nodes = Some c" and l: "state (nodes c ''a'') = Leader"
    and ps: "peers (nodes c ''a'') = [''b'', ''c'']"
    by (auto split: option.splits)
  have o: "orderly three_nodes c" by (rule run_orderly_orderly [OF r orderly.start])
  show ?thesis
    by (rule exI [of _ c]) (use stop_ends_loops [OF o [unfolded three_nodes_def], of "''a''"] o l ps in auto)
qed


end
