(* ===== verification/Go_Json_Fuel.thy ===== *)
theory Go_Json_Fuel
  imports Go_Json_Laws
begin

text \<open>
  The recursion of the JSON parser is bounded by fuel. Every successful call consumes input, and
  needs no more fuel than the bytes it consumes, so the bound of \<open>json_parse\<close> never changes a
  result.
\<close>

section \<open>Consumption\<close>

lemma skip_ws_length: "length (skip_ws bs) \<le> length bs"
  by (induction bs) auto

lemma unquote_esc:
  assumes "byte c = 92" "unquote (c # e # cs) = Some (s, t)"
  shows "\<exists>s' cs'. unquote cs' = Some (s', t) \<and> length cs' \<le> length cs"
proof (cases "e = CHR ''u''")
  case True
  show ?thesis
  proof (cases "hex4 cs")
    case None
    with assms True show ?thesis by (simp add: unquote.simps(2))
  next
    case (Some x)
    obtain r rest where x: "x = (r, rest)" by (cases x)
    have "map_option (\<lambda>(s, t). (fst (unicode_escape r rest) @ s, t))
        (unquote (snd (unicode_escape r rest))) = Some (s, t)"
      using assms True Some x by (simp add: unquote.simps(2))
    then obtain s' where "unquote (snd (unicode_escape r rest)) = Some (s', t)" by auto
    moreover have "length (snd (unicode_escape r rest)) \<le> length cs"
      using unicode_escape_length [of r rest] hex4_length [of cs r rest] Some x by simp
    ultimately show ?thesis by blast
  qed
next
  case False
  show ?thesis
  proof (cases "simple_escape e")
    case None
    with assms False show ?thesis by (simp add: unquote.simps(2))
  next
    case (Some d)
    have "map_option (\<lambda>(s, t). (d # s, t)) (unquote cs) = Some (s, t)"
      using assms False Some by (simp add: unquote.simps(2))
    then show ?thesis by auto
  qed
qed

lemma unquote_branches:
  assumes "unquote (c # cs) = Some (s, t)" "byte c \<noteq> 34"
  shows "\<exists>s' cs'. unquote cs' = Some (s', t) \<and> length cs' \<le> length cs"
proof (cases "byte c = 92")
  case True
  show ?thesis
  proof (cases cs)
    case Nil
    with assms True show ?thesis by (simp add: unquote.simps(2))
  next
    case (Cons e cs')
    show ?thesis using unquote_esc [OF True assms(1) [unfolded Cons]] Cons le_SucI by fastforce
  qed
next
  case False
  let ?k = "rune_len (c # cs)"
  consider "byte c < 32" | "32 \<le> byte c" "byte c < 128" | "128 \<le> byte c" "?k = 0"
    | "128 \<le> byte c" "?k \<noteq> 0" by linarith
  then show ?thesis
  proof cases
    case 4
    then have "map_option (\<lambda>(s, t). (take ?k (c # cs) @ s, t)) (unquote (drop (?k - 1) cs)) = Some (s, t)"
      using assms False by (simp add: unquote.simps(2) Let_def)
    then obtain s' where "unquote (drop (?k - 1) cs) = Some (s', t)" by auto
    then show ?thesis by (metis diff_le_self length_drop)
  qed (use assms False in \<open>auto simp: unquote.simps(2)\<close>)
qed

lemma unquote_length: "unquote bs = Some (s, t) \<Longrightarrow> length t < length bs"
proof (induction "length bs" arbitrary: bs s rule: less_induct)
  case less
  then obtain c cs where bs: "bs = c # cs" by (cases bs) auto
  show ?case
  proof (cases "byte c = 34")
    case True
    with less(2) bs show ?thesis by (simp add: unquote.simps(2))
  next
    case False
    then obtain s' cs' where "unquote cs' = Some (s', t)" "length cs' \<le> length cs"
      using unquote_branches less(2) bs by blast
    with less(1) [of cs' s'] bs show ?thesis by simp
  qed
qed

lemma expect_length: "expect w v bs = Some (v', r) \<Longrightarrow> w \<noteq> [] \<Longrightarrow> bs \<noteq> [] \<Longrightarrow> length r < length bs"
  by (auto simp: expect_def split: if_splits)

lemma scan_digits_length: "scan_digits bs = (ds, r) \<Longrightarrow> length ds + length r = length bs"
  by (auto simp: scan_digits_def) (metis length_append takeWhile_dropWhile_id)

lemma scan_int_length: "scan_int bs = Some (i, r) \<Longrightarrow> length r < length bs"
  using scan_digits_length [of bs i r]
  by (auto simp: scan_int_def scan_digits_def split: list.splits if_splits)

lemma scan_frac_length: "scan_frac bs = Some (f, r) \<Longrightarrow> length r \<le> length bs"
  by (auto simp: scan_frac_def scan_digits_def split: list.splits if_splits)
    (meson length_dropWhile_le le_SucI)

lemma scan_exp_length: "scan_exp bs = Some (e, r) \<Longrightarrow> length r \<le> length bs"
  by (auto simp: scan_exp_def scan_digits_def Let_def split: list.splits if_splits)
    (meson length_dropWhile_le le_SucI)+

lemma scan_number_length:
  assumes "scan_number bs = Some (n, r)"
  shows "length r < length bs"
proof -
  obtain sg bs1 where b: "(case bs of c # r \<Rightarrow> if c = CHR ''-'' then ([c], r) else ([], bs)
      | [] \<Rightarrow> ([], [])) = (sg, bs1)" by (rule prod.exhaust)
  have l: "length bs1 \<le> length bs" using b by (cases bs) (auto split: if_splits)
  obtain i bs2 f bs3 e where
    "scan_int bs1 = Some (i, bs2)" "scan_frac bs2 = Some (f, bs3)" "scan_exp bs3 = Some (e, r)"
    using assms unfolding scan_number_def b by (auto simp: bind_eq_Some_conv)
  from this(1) [THEN scan_int_length] this(2) [THEN scan_frac_length] this(3) [THEN scan_exp_length] l
  show ?thesis by linarith
qed

text \<open>A successful parse needs no more fuel than the number of bytes it consumes.\<close>

definition fuel_ok :: "(nat \<Rightarrow> bytes \<Rightarrow> ('a \<times> bytes) option) \<Rightarrow> nat \<Rightarrow> bool" where
  "fuel_ok parse f \<longleftrightarrow>
     (\<forall>bs v r. parse f bs = Some (v, r) \<longrightarrow> length r < length bs \<and>
        (\<forall>g. length bs \<le> g + length r \<longrightarrow> parse g bs = Some (v, r)))"

lemma fuel_okI:
  assumes "\<And>bs v r. parse (Suc f) bs = Some (v, r) \<Longrightarrow> length r < length bs \<and>
    (\<forall>g. length bs \<le> Suc g + length r \<longrightarrow> parse (Suc g) bs = Some (v, r))"
  shows "fuel_ok parse (Suc f)"
  unfolding fuel_ok_def
proof (intro allI impI)
  fix bs v r assume "parse (Suc f) bs = Some (v, r)"
  note a = assms [OF this]
  have "parse g bs = Some (v, r)" if "length bs \<le> g + length r" for g
    using a that by (cases g) auto
  with a show "length r < length bs \<and> (\<forall>g. length bs \<le> g + length r \<longrightarrow> parse g bs = Some (v, r))"
    by blast
qed

lemma fuel_okD:
  assumes "fuel_ok parse f" "parse f bs = Some (v, r)"
  shows "length r < length bs" "length bs \<le> g + length r \<Longrightarrow> parse g bs = Some (v, r)"
  using assms unfolding fuel_ok_def by blast+

lemma fuel_elems:
  assumes v: "fuel_ok (\<lambda>f. parse_value f d) f" and e: "fuel_ok (\<lambda>f. parse_elems f d) f"
  shows "fuel_ok (\<lambda>f. parse_elems f d) (Suc f)"
proof (rule fuel_okI)
  fix bs vs r assume p: "parse_elems (Suc f) d bs = Some (vs, r)"
  then obtain w r1 where w: "parse_value f d bs = Some (w, r1)" by (auto simp: bind_eq_Some_conv)
  note w1 = fuel_okD [OF v w]
  from p w obtain c r2 where c: "skip_ws r1 = c # r2" by (cases "skip_ws r1") auto
  have l: "length r2 < length r1" using skip_ws_length [of r1] c by simp
  show "length r < length bs \<and>
    (\<forall>g. length bs \<le> Suc g + length r \<longrightarrow> parse_elems (Suc g) d bs = Some (vs, r))"
  proof (cases "c = CHR '',''")
    case True
    with p w c obtain ws where ws: "parse_elems f d r2 = Some (ws, r)" "vs = w # ws" by auto
    note e1 = fuel_okD [OF e ws(1)]
    have "parse_elems (Suc g) d bs = Some (vs, r)" if "length bs \<le> Suc g + length r" for g
      using w1(2) [of g] e1(2) [of g] that l w1(1) e1(1) c ws(2) True by simp
    then show ?thesis using w1(1) e1(1) l by simp
  next
    case False
    with p w c have r: "c = CHR '']''" "vs = [w]" "r = r2" by (auto split: if_splits)
    have "parse_elems (Suc g) d bs = Some (vs, r)" if "length bs \<le> Suc g + length r" for g
      using w1(2) [of g] that l w1(1) c r False by simp
    then show ?thesis using w1(1) l r(3) by simp
  qed
qed

lemma fuel_members:
  assumes v: "fuel_ok (\<lambda>f. parse_value f d) f" and m: "fuel_ok (\<lambda>f. parse_members f d) f"
  shows "fuel_ok (\<lambda>f. parse_members f d) (Suc f)"
proof (rule fuel_okI)
  fix bs ms r assume p: "parse_members (Suc f) d bs = Some (ms, r)"
  then obtain q cs where q: "skip_ws bs = q # cs" "byte q = 34"
    by (auto split: list.splits if_splits)
  from p q obtain k r0 where k: "unquote cs = Some (k, r0)" by (auto simp: bind_eq_Some_conv)
  from p q k obtain r1 where r1: "skip_ws r0 = CHR '':'' # r1"
    by (auto split: list.splits if_splits)
  from p q k r1 obtain w r2 where w: "parse_value f d r1 = Some (w, r2)" by (auto simp: bind_eq_Some_conv)
  note w1 = fuel_okD [OF v w]
  from p q k r1 w obtain c r3 where c: "skip_ws r2 = c # r3" by (cases "skip_ws r2") auto
  have l: "length cs < length bs" "length r0 < length cs" "length r1 < length r0" "length r3 < length r2"
    using skip_ws_length [of bs] skip_ws_length [of r0] skip_ws_length [of r2] unquote_length [OF k] q r1 c
    by simp_all
  show "length r < length bs \<and>
    (\<forall>g. length bs \<le> Suc g + length r \<longrightarrow> parse_members (Suc g) d bs = Some (ms, r))"
  proof (cases "c = CHR '',''")
    case True
    with p q k r1 w c obtain ws where ws: "parse_members f d r3 = Some (ws, r)" "ms = (k, w) # ws" by auto
    note e1 = fuel_okD [OF m ws(1)]
    have "parse_members (Suc g) d bs = Some (ms, r)" if "length bs \<le> Suc g + length r" for g
      using w1(2) [of g] e1(2) [of g] that l w1(1) e1(1) q k r1 c ws(2) True by simp
    then show ?thesis using w1(1) e1(1) l by simp
  next
    case False
    with p q k r1 w c have r: "c = CHR ''}''" "ms = [(k, w)]" "r = r3" by (auto split: if_splits)
    have "parse_members (Suc g) d bs = Some (ms, r)" if "length bs \<le> Suc g + length r" for g
      using w1(2) [of g] that l w1(1) q k r1 c r False by simp
    then show ?thesis using w1(1) l r(3) by simp
  qed
qed

text \<open>The values that are not composed of other values, which need no fuel for their parts.\<close>

definition parse_scalar :: "char \<Rightarrow> bytes \<Rightarrow> (jval \<times> bytes) option" where
  "parse_scalar c cs =
     (if byte c = 34 then map_option (apfst JStr) (unquote cs)
      else if c = CHR ''t'' then expect ''true'' (JBool True) (c # cs)
      else if c = CHR ''f'' then expect ''false'' (JBool False) (c # cs)
      else if c = CHR ''n'' then expect ''null'' JNull (c # cs)
      else map_option (apfst JNum) (scan_number (c # cs)))"

lemma parse_scalar_length:
  assumes "parse_scalar c cs = Some (v, r)"
  shows "length r < Suc (length cs)"
proof -
  have "expect w u (c # cs) = Some (v, r) \<Longrightarrow> w \<noteq> [] \<Longrightarrow> length r < Suc (length cs)" for w u
    using expect_length [of w u "c # cs" v r] by simp
  note len = this [of "''true''" "JBool True"] this [of "''false''" "JBool False"] this [of "''null''" JNull]
  consider (str) s where "unquote cs = Some (s, r)" | (num) n where "scan_number (c # cs) = Some (n, r)"
    | (word) "expect ''true'' (JBool True) (c # cs) = Some (v, r) \<or>
        expect ''false'' (JBool False) (c # cs) = Some (v, r) \<or> expect ''null'' JNull (c # cs) = Some (v, r)"
    using assms unfolding parse_scalar_def by (auto split: if_splits)
  then show ?thesis
  proof cases
    case str
    then show ?thesis using unquote_length by fastforce
  next
    case num
    then show ?thesis using scan_number_length by fastforce
  next
    case word
    then show ?thesis using len by blast
  qed
qed

lemma fuel_value:
  assumes e: "fuel_ok (\<lambda>f. parse_elems f (Suc d)) f" and m: "fuel_ok (\<lambda>f. parse_members f (Suc d)) f"
  shows "fuel_ok (\<lambda>f. parse_value f d) (Suc f)"
proof (rule fuel_okI)
  fix bs v r assume p: "parse_value (Suc f) d bs = Some (v, r)"
  then obtain c cs where c: "skip_ws bs = c # cs" by (cases "skip_ws bs") auto
  have l: "length cs < length bs" using skip_ws_length [of bs] c by simp
  consider (obj) "c = CHR ''{''" | (arr) "c = CHR ''[''" | (scalar) "c \<noteq> CHR ''{''" "c \<noteq> CHR ''[''" by blast
  then show "length r < length bs \<and>
    (\<forall>g. length bs \<le> Suc g + length r \<longrightarrow> parse_value (Suc g) d bs = Some (v, r))"
  proof cases
    case obj
    with p c have d: "\<not> max_depth \<le> d" by (auto split: if_splits)
    with p c obj obtain q r1 where q: "skip_ws cs = q # r1" by (cases "skip_ws cs") auto
    have l1: "length (q # r1) < length bs" using skip_ws_length [of cs] q l by simp
    show ?thesis
    proof (cases "q = CHR ''}''")
      case True
      with p c obj d q l1 show ?thesis by auto
    next
      case False
      with p c obj d q obtain ms where ms: "parse_members f (Suc d) (q # r1) = Some (ms, r)" "v = JObj ms"
        by auto
      note m1 = fuel_okD [OF m ms(1)]
      have "parse_value (Suc g) d bs = Some (v, r)" if "length bs \<le> Suc g + length r" for g
        using m1(2) [of g] that l1 c obj d q ms(2) False by simp
      then show ?thesis using m1(1) l1 by simp
    qed
  next
    case arr
    with p c have d: "\<not> max_depth \<le> d" by (auto split: if_splits)
    with p c arr obtain q r1 where q: "skip_ws cs = q # r1" by (cases "skip_ws cs") auto
    have l1: "length (q # r1) < length bs" using skip_ws_length [of cs] q l by simp
    show ?thesis
    proof (cases "q = CHR '']''")
      case True
      with p c arr d q l1 show ?thesis by auto
    next
      case False
      with p c arr d q obtain ms where ms: "parse_elems f (Suc d) (q # r1) = Some (ms, r)" "v = JArr ms"
        by auto
      note m1 = fuel_okD [OF e ms(1)]
      have "parse_value (Suc g) d bs = Some (v, r)" if "length bs \<le> Suc g + length r" for g
        using m1(2) [of g] that l1 c arr d q ms(2) False by simp
      then show ?thesis using m1(1) l1 by simp
    qed
  next
    case scalar
    then have eq: "parse_value (Suc g) d bs = parse_scalar c cs" for g
      using c by (simp add: parse_scalar_def)
    then have ps: "parse_scalar c cs = Some (v, r)" using p by metis
    then show ?thesis using parse_scalar_length [OF ps] l eq by (simp del: parse_value.simps)
  qed
qed

lemma parse_fuel:
  "(\<forall>d. fuel_ok (\<lambda>f. parse_value f d) f) \<and> (\<forall>d. fuel_ok (\<lambda>f. parse_elems f d) f) \<and>
   (\<forall>d. fuel_ok (\<lambda>f. parse_members f d) f)"
proof (induction f)
  case 0
  show ?case by (simp add: fuel_ok_def)
next
  case (Suc f)
  then show ?case using fuel_value fuel_elems fuel_members by blast
qed

text \<open>
  Parser fuel. The parser, started with the length of the document as fuel, accepts
  every document that it accepts with any amount of fuel, with the same value, and a value is
  never read without consuming input.
\<close>

theorem json_fuel_enough:
  "(\<exists>f. parse_value f d bs = Some (v, r)) \<longleftrightarrow>
   parse_value (Suc (length bs)) d bs = Some (v, r) \<and> length r < length bs"
proof
  assume "\<exists>f. parse_value f d bs = Some (v, r)"
  then obtain f where f: "parse_value f d bs = Some (v, r)" by blast
  have "fuel_ok (\<lambda>f. parse_value f d) f" using parse_fuel by blast
  from fuel_okD [OF this f] show "parse_value (Suc (length bs)) d bs = Some (v, r) \<and> length r < length bs"
    by (simp del: parse_value.simps)
qed blast

end
