(* ===== verification/Storage_Wal_Laws.thy ===== *)
theory Storage_Wal_Laws
  imports Storage_Wal Go_Json_Laws
begin

text \<open>
  Correctness of the write-ahead log at the level of one file: records are read back as they
  were written, a torn tail loses nothing but the torn record, and the checksum detects every
  change of a single byte.
\<close>

section \<open>Little-endian words\<close>

lemma put_u32_length [simp]: "length (put_u32 w) = 4"
  by (simp add: put_u32_def)

lemma le_digits:
  "x mod 256 + (x div 256 mod 256 * 256 + (x div 65536 mod 256 * 65536 + x div 16777216 * 16777216)) =
    (x::nat)"
proof -
  have "x div 65536 = x div 16777216 * 256 + x div 65536 mod 256"
    using div_mult_mod_eq [of "x div 65536" 256] by (simp add: div_mult2_eq [symmetric])
  moreover have "x div 256 = x div 65536 * 256 + x div 256 mod 256"
    using div_mult_mod_eq [of "x div 256" 256] by (simp add: div_mult2_eq [symmetric])
  moreover have "x = x div 256 * 256 + x mod 256" by simp
  ultimately show ?thesis by linarith
qed

lemma unat_u32_lt: "unat (w::u32) < 2 ^ 32"
  using unsigned_less [of w] by simp

lemma get_put_u32 [simp]: "get_u32 (put_u32 w) = w"
proof -
  have "unat w div 16777216 < 256" using unat_u32_lt [of w] by (simp add: less_mult_imp_div_less)
  then have "(\<Sum>i \<leftarrow> [0, 1, 2, 3]. of_char (put_u32 w ! i) * 256 ^ i) = unat w"
    using le_digits [of "unat w"] by (simp add: put_u32_def of_char_of)
  then show ?thesis by (simp add: get_u32_def)
qed

section \<open>Records\<close>

lemma encode_record_length [simp]: "length (encode_record ty data) = length data + 12"
  by (simp add: encode_record_def Let_def)

lemma encode_record_payload: "i < length data \<Longrightarrow> encode_record ty data ! (8 + i) = data ! i"
  by (simp add: encode_record_def Let_def nth_append)

lemma unat_len32: "n < 2 ^ 32 \<Longrightarrow> unat (of_nat n :: u32) = n"
  by (simp add: unat_of_nat)

text \<open>The size of a payload that the 32-bit arithmetic of the reader handles.\<close>

definition payload_ok :: "bytes \<Rightarrow> bool" where
  "payload_ok data \<longleftrightarrow> length data + 12 < 2 ^ 32"

lemma payload_words:
  assumes "payload_ok data"
  shows "unat (of_nat (length data) :: u32) = length data"
    "unat (of_nat (length data) + 4 :: u32) = length data + 4"
    "uint (8 + of_nat (length data) + 4 :: u32) = int (length data + 12)"
proof -
  have n: "length data < 2 ^ 32" "length data + 4 < 2 ^ 32" "length data + 12 < 2 ^ 32"
    using assms by (auto simp: payload_ok_def)
  show "unat (of_nat (length data) :: u32) = length data" by (rule unat_len32 [OF n(1)])
  have "(of_nat (length data) + 4 :: u32) = of_nat (length data + 4)" by simp
  then show "unat (of_nat (length data) + 4 :: u32) = length data + 4" using unat_len32 [OF n(2)] by metis
  have "(8 + of_nat (length data) + 4 :: u32) = of_nat (length data + 12)" by simp
  then show "uint (8 + of_nat (length data) + 4 :: u32) = int (length data + 12)"
    using unat_len32 [OF n(3)] by (metis uint_nat)
qed

text \<open>Reading one whole record.\<close>

lemma replay_record:
  assumes "payload_ok data"
  shows "replay_loop bad (encode_record ty data @ rest) off s =
    replay_loop bad rest (off + int (length data + 12)) (apply_record ty data s)"
proof -
  let ?h = "put_u32 ty @ put_u32 (of_nat (length data))"
  let ?crc = "put_u32 (ChecksumIEEE (?h @ data))"
  have bs: "encode_record ty data @ rest = ?h @ data @ ?crc @ rest"
    by (simp add: encode_record_def Let_def)
  have len: "\<not> length (?h @ data @ ?crc @ rest) < 8"
    "take 8 (?h @ data @ ?crc @ rest) = ?h" "drop 8 (?h @ data @ ?crc @ rest) = data @ ?crc @ rest"
    "take 4 ?h = put_u32 ty" "drop 4 ?h = put_u32 (of_nat (length data))"
    by simp_all
  show ?thesis
    unfolding bs
    by (subst replay_loop.simps) (simp only: len if_False Let_def get_put_u32 payload_words [OF assms], simp)
qed

text \<open>A file of whole records.\<close>

definition encode_all :: "(u32 \<times> bytes) list \<Rightarrow> bytes" where
  "encode_all rs = concat (map (\<lambda>(ty, data). encode_record ty data) rs)"

definition records_ok :: "(u32 \<times> bytes) list \<Rightarrow> bool" where
  "records_ok rs \<longleftrightarrow> list_all (\<lambda>(ty, data). payload_ok data) rs"

definition apply_records :: "(u32 \<times> bytes) list \<Rightarrow> replay_state \<Rightarrow> replay_state" where
  "apply_records rs s = fold (\<lambda>(ty, data). apply_record ty data) rs s"

lemma encode_all_simps [simp]:
  "encode_all [] = []" "encode_all ((ty, data) # rs) = encode_record ty data @ encode_all rs"
  "encode_all (rs @ rs') = encode_all rs @ encode_all rs'"
  by (simp_all add: encode_all_def)

lemma apply_records_simps [simp]:
  "apply_records [] s = s" "apply_records ((ty, data) # rs) s = apply_records rs (apply_record ty data s)"
  "apply_records (rs @ rs') s = apply_records rs' (apply_records rs s)"
  by (simp_all add: apply_records_def)

lemma records_ok_simps [simp]:
  "records_ok []" "records_ok ((ty, data) # rs) \<longleftrightarrow> payload_ok data \<and> records_ok rs"
  "records_ok (rs @ rs') \<longleftrightarrow> records_ok rs \<and> records_ok rs'"
  by (simp_all add: records_ok_def)

lemma replay_records:
  "records_ok rs \<Longrightarrow> replay_loop bad (encode_all rs @ rest) off s =
     replay_loop bad rest (off + int (length (encode_all rs))) (apply_records rs s)"
proof (induction rs arbitrary: off s)
  case (Cons r rs)
  then show ?case by (cases r) (simp add: replay_record add.assoc)
qed simp

lemma replay_end: "replay_loop bad [] off s = (s, if bad then ReadError else AtEof)"
  by (simp add: replay_loop.simps)

section \<open>Torn writes\<close>

lemma replay_torn:
  assumes "payload_ok data" "k < length (encode_record ty data)"
  shows "replay_loop False (take k (encode_record ty data)) off s =
    (s, if k < 8 then AtEof else TruncateAt off)"
proof (cases "k < 8")
  case True
  then show ?thesis by (simp add: replay_loop.simps)
next
  case False
  let ?h = "put_u32 ty @ put_u32 (of_nat (length data))"
  let ?crc = "put_u32 (ChecksumIEEE (?h @ data))"
  have bs: "take k (encode_record ty data) = ?h @ take (k - 8) (data @ ?crc)"
    using False by (simp add: encode_record_def Let_def)
  let ?t = "take (k - 8) (data @ ?crc)"
  have len: "length ?t < length data + 4" "\<not> length (?h @ ?t) < 8" "take 8 (?h @ ?t) = ?h"
    "drop 8 (?h @ ?t) = ?t" "take 4 ?h = put_u32 ty" "drop 4 ?h = put_u32 (of_nat (length data))"
    using assms(2) False by auto
  show ?thesis
    unfolding bs using len(1) False
    by (subst replay_loop.simps)
      (simp only: len if_False if_True Let_def get_put_u32 payload_words [OF assms(1)])
qed

text \<open>
  C19. Crash during a write. Replaying a file that holds whole records followed by any strict
  prefix of one more record recovers exactly the whole records. The torn tail is found and cut
  off at the end of the last whole record when at least its eight header bytes were written; a
  shorter tail ends the replay without a truncation.
\<close>

theorem replay_torn_tail:
  assumes "records_ok rs" and "payload_ok data" and "k < length (encode_record ty data)"
  shows "replay_loop False (encode_all rs @ take k (encode_record ty data)) 0 replay_zero =
    (apply_records rs replay_zero,
     if k < 8 then AtEof else TruncateAt (int (length (encode_all rs))))"
  by (simp add: replay_records [OF assms(1)] replay_torn [OF assms(2,3)])

definition term_payload :: bytes where
  "term_payload = marshal_TermRecord \<lparr>tr_Term = 7\<rparr>"

theorem replay_torn_tail_witness:
  "records_ok [(RecordTerm, term_payload)] \<and> payload_ok term_payload \<and>
   fst (replay_loop False (encode_all [(RecordTerm, term_payload)] @
     take 20 (encode_record RecordTerm term_payload)) 0 replay_zero) =
   apply_records [(RecordTerm, term_payload)] replay_zero"
proof -
  have "length term_payload = 10" by code_simp
  then have ok: "records_ok [(RecordTerm, term_payload)]" "payload_ok term_payload"
    "20 < length (encode_record RecordTerm term_payload)" by (simp_all add: payload_ok_def)
  show ?thesis using ok(1,2) replay_torn_tail [OF ok] by simp
qed

section \<open>Checksums\<close>

lemma xor_cancel:
  assumes "a XOR c = b XOR (c::u32)" shows "a = b"
proof -
  have "(a XOR c) XOR c = (b XOR c) XOR c" using assms by simp
  then show ?thesis by (simp add: xor.assoc)
qed

lemma crc_bit_top: "bit (crc_bit c) 31 \<longleftrightarrow> bit c 0"
proof -
  have "bit (0xEDB88320 :: u32) 31" by simp
  then show ?thesis by (auto simp: crc_bit_def bit_xor_iff bit_drop_bit_eq dest: bit_imp_le_length)
qed

lemma crc_bit_inj: "crc_bit c = crc_bit d \<Longrightarrow> c = d"
proof -
  assume eq: "crc_bit c = crc_bit d"
  then have b: "bit c 0 = bit d 0" using crc_bit_top by metis
  have "drop_bit 1 c = drop_bit 1 d"
  proof (cases "bit c 0")
    case True
    then have "drop_bit 1 c XOR 0xEDB88320 = drop_bit 1 d XOR 0xEDB88320" using eq b by (simp add: crc_bit_def)
    then show ?thesis by (rule xor_cancel)
  next
    case False
    then show ?thesis using eq b by (simp add: crc_bit_def)
  qed
  then have "bit c (Suc n) = bit d (Suc n)" for n
    using bit_drop_bit_eq [of 1 c] bit_drop_bit_eq [of 1 d] by (metis comp_apply plus_1_eq_Suc)
  then have "bit c n = bit d n" for n using b by (cases n) simp_all
  then show "c = d" by (simp add: bit_eq_iff)
qed

lemma crc_bits_inj: "(crc_bit ^^ n) c = (crc_bit ^^ n) d \<Longrightarrow> c = d"
  using injD [OF inj_fn [OF injI [OF crc_bit_inj]]] by blast

lemma crc_byte_inj:
  "crc_byte c b = crc_byte d b \<Longrightarrow> c = d" "crc_byte c b = crc_byte c b' \<Longrightarrow> b = b'"
proof -
  show "c = d" if "crc_byte c b = crc_byte d b"
    using crc_bits_inj [OF that [unfolded crc_byte_def]] by (rule xor_cancel)
  assume "crc_byte c b = crc_byte c b'"
  then have "c XOR of_char b = c XOR (of_char b' :: u32)"
    unfolding crc_byte_def by (rule crc_bits_inj)
  then have "(of_char b :: u32) = of_char b'" by (metis xor.commute xor_cancel)
  then have "(of_nat (of_char b) :: u32) = of_nat (of_char b')" by (simp only: of_nat_of_char)
  moreover have "of_char b < (2::nat) ^ 32" "of_char b' < (2::nat) ^ 32"
    by (rule less_le_trans [OF byte_less]; simp)+
  ultimately have "(of_char b :: nat) = of_char b'" by (metis unat_len32)
  then show "b = b'" by simp
qed

lemma foldl_crc_inj: "foldl crc_byte c xs = foldl crc_byte d xs \<Longrightarrow> c = d"
  by (induction xs arbitrary: c d) (auto dest: crc_byte_inj(1))

lemma checksum_detects:
  assumes "i < length bs" "c \<noteq> bs ! i"
  shows "ChecksumIEEE (bs[i := c]) \<noteq> ChecksumIEEE bs"
proof
  assume eq: "ChecksumIEEE (bs[i := c]) = ChecksumIEEE bs"
  let ?s = "foldl crc_byte (NOT 0) (take i bs)"
  have split: "bs[i := c] = take i bs @ c # drop (Suc i) bs" "bs = take i bs @ bs ! i # drop (Suc i) bs"
    using assms(1) by (simp_all add: upd_conv_take_nth_drop id_take_nth_drop)
  have "foldl crc_byte (NOT 0) (bs[i := c]) = foldl crc_byte (NOT 0) bs"
    using arg_cong [OF eq, of "NOT"] by (simp add: ChecksumIEEE_def)
  then have "foldl crc_byte (NOT 0) (take i bs @ c # drop (Suc i) bs) =
      foldl crc_byte (NOT 0) (take i bs @ bs ! i # drop (Suc i) bs)"
    using split by metis
  then have "foldl crc_byte (crc_byte ?s c) (drop (Suc i) bs) =
      foldl crc_byte (crc_byte ?s (bs ! i)) (drop (Suc i) bs)" by simp
  then have "c = bs ! i" using foldl_crc_inj crc_byte_inj(2) by metis
  with assms(2) show False ..
qed

lemma digit_inj:
  assumes "x < (256::nat)" "x' < 256" "x + 256 * y = x' + 256 * y'"
  shows "x = x' \<and> y = y'"
proof -
  have "(x + 256 * y) mod 256 = (x' + 256 * y') mod 256" using assms(3) by simp
  then have "x = x'" using assms(1,2) by (simp only: mod_mult_self2 mod_less)
  with assms(3) show ?thesis by simp
qed

lemma get_u32_inj:
  assumes "length as = 4" "length bs = 4" "get_u32 as = get_u32 bs"
  shows "as = bs"
proof -
  have four: "\<exists>a b c d. xs = [a, b, c, d]" if "length xs = 4" for xs :: bytes
    using that by (auto simp: length_Suc_conv eval_nat_numeral)
  obtain a b c d where as: "as = [a, b, c, d]" using four [OF assms(1)] by blast
  obtain a' b' c' d' where bs: "bs = [a', b', c', d']" using four [OF assms(2)] by blast
  let ?v = "\<lambda>a b c d. byte a + 256 * (byte b + 256 * (byte c + 256 * byte d))"
  have "get_u32 [a, b, c, d] = of_nat (?v a b c d)" for a b c d
    by (simp add: get_u32_def algebra_simps)
  moreover have le: "byte x \<le> 255" for x using byte_less [of x] by linarith
  have "?v a b c d < 4294967296" for a b c d
    using le [of a] le [of b] le [of c] le [of d] unfolding distrib_left by linarith
  then have "?v a b c d < 2 ^ 32" for a b c d by simp
  ultimately have "?v a b c d = ?v a' b' c' d'" using assms(3) as bs by (metis unat_len32)
  note 1 = digit_inj [OF byte_less byte_less this]
  note 2 = digit_inj [OF byte_less byte_less conjunct2 [OF 1]]
  note 3 = digit_inj [OF byte_less byte_less conjunct2 [OF 2]]
  from 1 2 3 show ?thesis by (simp add: as bs)
qed

text \<open>A record whose parts are the right size but whose checksum is wrong.\<close>

lemma replay_bad_crc:
  assumes "payload_ok data" "length ty = 4" "length crc = 4"
    "get_u32 crc \<noteq> ChecksumIEEE (ty @ put_u32 (of_nat (length data)) @ data)"
  shows "replay_loop bad (ty @ put_u32 (of_nat (length data)) @ data @ crc @ rest) off s =
    (s, TruncateAt off)"
proof -
  let ?h = "ty @ put_u32 (of_nat (length data))"
  have bs: "ty @ put_u32 (of_nat (length data)) @ data @ crc @ rest = ?h @ data @ crc @ rest" by simp
  have len: "\<not> length (?h @ data @ crc @ rest) < 8" "take 8 (?h @ data @ crc @ rest) = ?h"
    "drop 8 (?h @ data @ crc @ rest) = data @ crc @ rest"
    "take 4 ?h = ty" "drop 4 ?h = put_u32 (of_nat (length data))"
    using assms(2) by simp_all
  have crc: "get_u32 crc \<noteq> ChecksumIEEE (?h @ data)" using assms(4) by simp
  show ?thesis
    unfolding bs using assms(3) crc
    by (subst replay_loop.simps)
      (simp only: len if_False Let_def get_put_u32 payload_words [OF assms(1)], simp)
qed

text \<open>
  C20. Corruption is detected. If one byte of a record is changed, anywhere but in its length
  field, replay accepts neither that record nor what follows it, and truncates the file where
  the record starts.
\<close>

theorem replay_detects_corruption:
  assumes "payload_ok data" and "i < length (encode_record ty data)" and "i < 4 \<or> 8 \<le> i"
    and "c \<noteq> encode_record ty data ! i"
  shows "replay_loop bad ((encode_record ty data)[i := c] @ rest) off s = (s, TruncateAt off)"
proof -
  let ?len = "put_u32 (of_nat (length data))" and ?n = "length data"
  let ?crc = "put_u32 (ChecksumIEEE (put_u32 ty @ ?len @ data))"
  have rec: "encode_record ty data = put_u32 ty @ ?len @ data @ ?crc"
    by (simp add: encode_record_def Let_def)
  consider (type) "i < 4" | (payload) "8 \<le> i" "i < 8 + ?n" | (crc) "8 + ?n \<le> i" using assms(3) by linarith
  then show ?thesis
  proof cases
    case type
    then have eq: "(encode_record ty data)[i := c] = (put_u32 ty)[i := c] @ ?len @ data @ ?crc"
      by (simp add: rec list_update_append)
    have "ChecksumIEEE ((put_u32 ty @ ?len @ data)[i := c]) \<noteq> ChecksumIEEE (put_u32 ty @ ?len @ data)"
      by (rule checksum_detects) (use type assms(4) in \<open>simp_all add: rec nth_append\<close>)
    then have "get_u32 ?crc \<noteq> ChecksumIEEE ((put_u32 ty)[i := c] @ ?len @ data)"
      using type by (simp add: list_update_append)
    from replay_bad_crc [OF assms(1) _ _ this] show ?thesis by (simp add: eq)
  next
    case payload
    let ?d = "data[i - 8 := c]"
    have i: "\<not> i < 4" "\<not> i - 4 < 4" "i - 4 - 4 = i - 8" "i - 8 < ?n" using payload by auto
    have eq: "(encode_record ty data)[i := c] = put_u32 ty @ ?len @ ?d @ ?crc"
      by (simp only: rec list_update_append put_u32_length i if_False if_True)
    have at: "encode_record ty data ! i = (put_u32 ty @ ?len @ data) ! i"
      by (simp only: rec nth_append put_u32_length i if_False if_True)
    have "ChecksumIEEE ((put_u32 ty @ ?len @ data)[i := c]) \<noteq> ChecksumIEEE (put_u32 ty @ ?len @ data)"
      by (rule checksum_detects) (use payload(2) assms(4) at in simp_all)
    then have "get_u32 ?crc \<noteq> ChecksumIEEE (put_u32 ty @ put_u32 (of_nat (length ?d)) @ ?d)"
      by (simp only: list_update_append put_u32_length i if_False if_True length_list_update get_put_u32)
    moreover have "payload_ok ?d" using assms(1) by (simp add: payload_ok_def)
    ultimately show ?thesis using replay_bad_crc [of ?d "put_u32 ty" ?crc] by (simp add: eq)
  next
    case crc
    let ?k = "i - (8 + ?n)"
    have i: "\<not> i < 4" "\<not> i - 4 < 4" "\<not> i - 4 - 4 < ?n" "i - 4 - 4 - ?n = ?k" using crc by auto
    have eq: "(encode_record ty data)[i := c] = put_u32 ty @ ?len @ data @ ?crc[?k := c]"
      by (simp only: rec list_update_append put_u32_length i if_False)
    have "?k < 4" using crc assms(2) by simp
    moreover have "c \<noteq> ?crc ! ?k"
      using assms(4) by (simp only: rec nth_append put_u32_length i if_False not_False_eq_True)
    ultimately have k: "?k < 4" "c \<noteq> ?crc ! ?k" by blast+
    then have "?crc[?k := c] \<noteq> ?crc" by (metis nth_list_update_eq put_u32_length)
    then have "get_u32 (?crc[?k := c]) \<noteq> get_u32 ?crc"
      using get_u32_inj [of "?crc[?k := c]" ?crc] by auto
    then have "get_u32 (?crc[?k := c]) \<noteq> ChecksumIEEE (put_u32 ty @ ?len @ data)" by simp
    from replay_bad_crc [OF assms(1) _ _ this] show ?thesis by (simp add: eq)
  qed
qed

theorem replay_detects_corruption_witness:
  "payload_ok term_payload \<and> encode_record RecordTerm term_payload ! 16 = CHR ''7'' \<and>
   replay_loop False ((encode_record RecordTerm term_payload)[16 := CHR ''9'']) 0 replay_zero =
     (replay_zero, TruncateAt 0)"
proof -
  have tp: "length term_payload = 10" "term_payload ! 8 = CHR ''7''" by code_simp+
  have ok: "payload_ok term_payload" "16 < length (encode_record RecordTerm term_payload)"
    "encode_record RecordTerm term_payload ! 16 = CHR ''7''"
    using encode_record_payload [of 8 term_payload RecordTerm] tp by (simp_all add: payload_ok_def)
  have "replay_loop False ((encode_record RecordTerm term_payload)[16 := CHR ''9''] @ []) 0 replay_zero =
      (replay_zero, TruncateAt 0)"
    by (rule replay_detects_corruption [OF ok(1,2)]) (simp_all add: ok(3))
  then show ?thesis using ok(1,3) by simp
qed

end
