(* ===== verification/Storage_Wal_Dir.thy ===== *)
theory Storage_Wal_Dir
  imports Storage_Wal_Laws
begin

text \<open>
  The write-ahead log as a directory of files. An open WAL without failing system calls
  implements an append-only list of records: \<open>Append\<close> adds one record, in the current file or,
  when that is full, in the next one; opening the directory again and replaying it gives back
  the last term, the last vote and all entries.
\<close>

section \<open>File names\<close>

lemma digits_val_zeros: "digits_val (replicate n (CHR ''0'') @ s) = digits_val s"
  by (induction n) (simp_all add: digits_val_def)

lemma show_nat_length: "n < 10 ^ Suc k \<Longrightarrow> length (show_nat n) \<le> Suc k"
proof (induction k arbitrary: n)
  case 0
  then show ?case by (subst show_nat.simps) simp
next
  case (Suc k)
  show ?case
  proof (cases "n < 10")
    case True
    then show ?thesis by (subst show_nat.simps) simp
  next
    case False
    have "n div 10 < 10 ^ Suc k" using Suc.prems by (simp add: less_mult_imp_div_less)
    with Suc.IH [of "n div 10"] False show ?thesis by (subst show_nat.simps) simp
  qed
qed

lemma padded_number:
  assumes "n < 1000000"
  shows "length (pad_zero 6 (show_nat n)) = 6" "list_all is_digit (pad_zero 6 (show_nat n))"
    "digits_val (pad_zero 6 (show_nat n)) = n"
proof -
  have "length (show_nat n) \<le> 6" using show_nat_length [of n 5] assms by simp
  then show "length (pad_zero 6 (show_nat n)) = 6" by (simp add: pad_zero_def)
  show "list_all is_digit (pad_zero 6 (show_nat n))"
    using show_nat_digits [of n] by (auto simp: pad_zero_def list_all_iff is_digit_def)
  show "digits_val (pad_zero 6 (show_nat n)) = n"
    by (simp add: pad_zero_def digits_val_zeros digits_val_show_nat)
qed

lemma scan_wal_name:
  assumes "n < 1000000"
  shows "scan_wal_name (wal_name (int n)) = Some (int n)"
proof -
  let ?p = "pad_zero 6 (show_nat n)"
  note p = padded_number [OF assms]
  obtain c cs where c: "?p = c # cs" using p(1) by (cases ?p) auto
  then have "is_digit c" using p(2) by simp
  then have d: "c \<noteq> CHR ''-''" "c \<noteq> CHR ''+''" by (auto simp: is_digit_def)
  have "wal_name (int n) = ''wal_'' @ ?p @ ''.log''" by (simp add: wal_name_def)
  then have body: "drop 4 (wal_name (int n)) = ?p @ ''.log''" by simp
  have w: "take 6 (?p @ ''.log'') = ?p" "drop 6 (?p @ ''.log'') = ''.log''" using p(1) by simp_all
  have t: "takeWhile is_digit ?p = ?p" using p(2) by (simp add: list_all_iff)
  have "(case ?p of c # _ \<Rightarrow> if c = CHR ''-'' then (True, 1) else if c = CHR ''+'' then (False, 1)
      else (False, 0::nat) | [] \<Rightarrow> (False, 0)) = (False, 0)" using c d by simp
  moreover have "?p \<noteq> []" using c by simp
  ultimately show ?thesis
    unfolding scan_wal_name_def body w Let_def by (simp add: t p w)
qed

text \<open>The name of the file with a given number.\<close>

definition file_name :: "nat \<Rightarrow> string" where
  "file_name n = wal_name (int n)"

lemma scan_file_name: "n < 1000000 \<Longrightarrow> scan_wal_name (file_name n) = Some (int n)"
  unfolding file_name_def by (rule scan_wal_name)

lemma file_name_inj: "n < 1000000 \<Longrightarrow> m < 1000000 \<Longrightarrow> file_name n = file_name m \<Longrightarrow> n = m"
  by (metis of_nat_eq_iff option.inject scan_file_name)

lemma file_name_prefix: "take 4 (file_name n) = ''wal_''"
  by (simp add: file_name_def wal_name_def)

section \<open>The directory\<close>

text \<open>The files of a WAL with the given contents, numbered from 1.\<close>

definition wal_file :: "nat \<Rightarrow> bytes \<Rightarrow> dirent" where
  "wal_file n data = \<lparr>de_name = file_name n, de_isdir = False, de_data = data\<rparr>"

definition wal_dir :: "bytes list \<Rightarrow> dirent list" where
  "wal_dir fs = map (\<lambda>i. wal_file (Suc i) (fs ! i)) [0..<length fs]"

lemma wal_dir_snoc: "wal_dir (fs @ [f]) = wal_dir fs @ [wal_file (Suc (length fs)) f]"
  unfolding wal_dir_def by (simp add: nth_append)

lemma wal_dir_names: "d \<in> set (wal_dir fs) \<Longrightarrow> \<exists>n. de_name d = file_name n \<and> n \<le> length fs"
  by (auto simp: wal_dir_def wal_file_def intro: Suc_leI)

lemma next_name_free:
  assumes "Suc (length fs) < 1000000" "d \<in> set (wal_dir fs)"
  shows "de_name d \<noteq> file_name (Suc (length fs))"
proof -
  obtain n where n: "de_name d = file_name n" "n \<le> length fs" using wal_dir_names [OF assms(2)] by blast
  then have "n < 1000000" "n \<noteq> Suc (length fs)" using assms(1) by auto
  then show ?thesis using file_name_inj [OF _ assms(1)] n(1) by metis
qed

lemma find_append: "find P (xs @ ys) = (case find P xs of None \<Rightarrow> find P ys | Some x \<Rightarrow> Some x)"
  by (induction xs) auto

lemma find_next_file:
  assumes "Suc (length fs) < 1000000"
  shows "find_file (wal_dir fs) (file_name (Suc (length fs))) = None"
  unfolding find_file_def find_None_iff using next_name_free [OF assms] by blast

lemma find_last_file:
  assumes "Suc (length fs) < 1000000"
  shows "find_file (wal_dir (fs @ [f])) (file_name (Suc (length fs))) = Some (wal_file (Suc (length fs)) f)"
  using find_next_file [OF assms]
  by (simp add: find_file_def wal_dir_snoc find_append wal_file_def)

lemma update_last_file:
  assumes "Suc (length fs) < 1000000"
  shows "update_file (file_name (Suc (length fs))) g (wal_dir (fs @ [f])) = wal_dir (fs @ [g f])"
proof -
  have "map (\<lambda>d. if de_name d = file_name (Suc (length fs)) then d\<lparr>de_data := g (de_data d)\<rparr> else d) (wal_dir fs) =
      wal_dir fs"
    using next_name_free [OF assms] by (intro map_idI) simp
  then show ?thesis by (simp add: update_file_def wal_dir_snoc wal_file_def)
qed

lemma find_nth_file:
  assumes "i < length fs" "length fs < 1000000"
  shows "find_file (wal_dir fs) (file_name (Suc i)) = Some (wal_file (Suc i) (fs ! i))"
  using assms
proof (induction fs rule: rev_induct)
  case (snoc f fs)
  show ?case
  proof (cases "i < length fs")
    case True
    with snoc show ?thesis
      by (simp add: find_file_def wal_dir_snoc find_append nth_append)
  next
    case False
    then have "i = length fs" using snoc by simp
    with find_last_file [of fs f] snoc show ?thesis by simp
  qed
qed simp

lemma collect_dir:
  assumes "length fs < 1000000"
  shows "collect_wal_files (wal_dir fs) =
    map (\<lambda>i. \<lparr>wf_id = int (Suc i), wf_name = file_name (Suc i)\<rparr>) [0..<length fs]"
proof -
  have app: "collect_wal_files (ds @ es) = collect_wal_files ds @ collect_wal_files es" for ds es
    by (induction ds) (auto split: option.splits)
  show ?thesis
    using assms
  proof (induction fs rule: rev_induct)
    case (snoc f fs)
    then show ?case
      using scan_file_name [of "Suc (length fs)"]
      by (simp add: wal_dir_snoc app wal_file_def file_name_prefix)
  qed (simp add: wal_dir_def)
qed

lemma list_dir:
  assumes "length (fs :: bytes list) < 1000000" "io w = []" "disk w = wal_dir fs"
  shows "listWALFiles w =
    (Inr (map (\<lambda>i. \<lparr>wf_id = int (Suc i), wf_name = file_name (Suc i)\<rparr>) [0..<length fs]), w)"
proof -
  let ?l = "map (\<lambda>i. \<lparr>wf_id = int (Suc i), wf_name = file_name (Suc i)\<rparr>) [0..<length fs]"
  have "sorted (map wf_id ?l)" by (simp add: comp_def sorted_map)
  then have "sort_key wf_id ?l = ?l" by (rule sort_key_id_if_sorted)
  then show ?thesis
    using assms(2,3) collect_dir [OF assms(1)] by (simp add: listWALFiles_def io_next_def)
qed

section \<open>Opening and appending\<close>

lemma open_next:
  assumes "disk w = wal_dir fs" "fileID w = int (Suc (length fs))" "io w = []"
    "Suc (length fs) < 1000000"
  shows "openCurrentFile w =
    (None, w\<lparr>disk := wal_dir (fs @ [[]]), cur_file := Some (file_name (Suc (length fs))), closed := False,
             fileSize := 0\<rparr>)"
proof -
  have n: "wal_name (fileID w) = file_name (Suc (length fs))" using assms(2) by (simp only: file_name_def)
  note f = find_next_file [OF assms(4)] find_last_file [OF assms(4), of "[]"]
  show ?thesis
    unfolding openCurrentFile_def n
    using f assms(1,3) by (simp add: Let_def io_next_def wal_dir_snoc wal_file_def go_len_def)
qed

lemma open_last:
  assumes "disk w = wal_dir (fs @ [f])" "fileID w = int (Suc (length fs))" "io w = []"
    "Suc (length fs) < 1000000"
  shows "openCurrentFile w =
    (None, w\<lparr>cur_file := Some (file_name (Suc (length fs))), closed := False, fileSize := int (length f)\<rparr>)"
proof -
  have n: "wal_name (fileID w) = file_name (Suc (length fs))" using assms(2) by (simp only: file_name_def)
  show ?thesis
    unfolding openCurrentFile_def n
    using find_last_file [OF assms(4), of f] assms(1,3)
    by (simp add: Let_def io_next_def wal_file_def go_len_def)
qed

text \<open>
  An open WAL whose directory holds the given records: those of the files before the current
  one, and those of the current one. No system call fails.
\<close>

definition wal_holds :: "WAL \<Rightarrow> (u32 \<times> bytes) list list \<Rightarrow> (u32 \<times> bytes) list \<Rightarrow> bool" where
  "wal_holds w old cur \<longleftrightarrow>
     disk w = wal_dir (map encode_all old @ [encode_all cur]) \<and>
     fileID w = int (Suc (length old)) \<and> cur_file w = Some (file_name (Suc (length old))) \<and>
     \<not> closed w \<and> fileSize w = int (length (encode_all cur)) \<and> io w = [] \<and>
     Suc (length old) < 1000000 \<and> list_all records_ok old \<and> records_ok cur"

text \<open>Reopening a directory, whose current file may end in bytes that are not a record.\<close>

lemma reopen:
  assumes "length (fs :: bytes list) < 999999"
  shows "\<exists>w. NewWAL (wal_dir (fs @ [f])) [] = (Inr w, wal_dir (fs @ [f])) \<and>
    disk w = wal_dir (fs @ [f]) \<and> fileID w = int (Suc (length fs)) \<and>
    cur_file w = Some (file_name (Suc (length fs))) \<and> \<not> closed w \<and> fileSize w = int (length f) \<and> io w = []"
proof -
  let ?w = "\<lparr>disk = wal_dir (fs @ [f]), cur_file = None, closed = False, fileID = 0, fileSize = 0, io = []\<rparr>"
  have io: "io_next ?w = (IoOk, ?w)" by (simp add: io_next_def)
  have "listWALFiles ?w = (Inr (map (\<lambda>i. \<lparr>wf_id = int (Suc i), wf_name = file_name (Suc i)\<rparr>)
      [0..<length (fs @ [f])]), ?w)"
    by (rule list_dir) (use assms in simp_all)
  then obtain l where l: "listWALFiles ?w = (Inr l, ?w)" "l \<noteq> []" "wf_id (last l) = int (Suc (length fs))"
    by simp
  let ?w3 = "?w\<lparr>fileID := int (Suc (length fs))\<rparr>"
  have "openCurrentFile ?w3 = (None, ?w3\<lparr>cur_file := Some (file_name (Suc (length fs))), closed := False,
      fileSize := int (length f)\<rparr>)"
    by (rule open_last) (use assms in simp_all)
  then show ?thesis
    unfolding NewWAL_def Let_def io using l by (simp del: of_nat_Suc)
qed

lemma open_empty: "\<exists>w. NewWAL [] [] = (Inr w, wal_dir [[]]) \<and> wal_holds w [] []"
proof -
  let ?w = "\<lparr>disk = [], cur_file = None, closed = False, fileID = 0, fileSize = 0, io = []\<rparr>"
  have "io_next ?w = (IoOk, ?w)" "listWALFiles ?w = (Inr [], ?w)"
    by (simp_all add: io_next_def listWALFiles_def)
  moreover have "openCurrentFile (?w\<lparr>fileID := 1\<rparr>) = (None, ?w\<lparr>fileID := 1, disk := wal_dir ([] @ [[]]),
      cur_file := Some (file_name (Suc (length ([] :: bytes list)))), closed := False, fileSize := 0\<rparr>)"
    by (rule open_next) (simp_all add: wal_dir_def)
  ultimately show ?thesis by (simp add: NewWAL_def Let_def wal_holds_def)
qed

lemma append_record:
  assumes h: "wal_holds w old cur" and ok: "payload_ok data" and room: "Suc (Suc (length old)) < 1000000"
  shows "\<exists>w'. wal_Append ty data w = (None, w') \<and>
    (wal_holds w' old (cur @ [(ty, data)]) \<or> wal_holds w' (old @ [cur]) [(ty, data)])"
proof (cases "fileSize w + int (4 + 4 + length data + 4) > maxWALSize")
  case False
  let ?n = "file_name (Suc (length old))"
  have "update_file ?n (\<lambda>d. d @ encode_record ty data) (disk w) =
      wal_dir (map encode_all old @ [encode_all (cur @ [(ty, data)])])"
    using update_last_file [of "map encode_all old" "\<lambda>d. d @ encode_record ty data" "encode_all cur"] h
    by (simp add: wal_holds_def)
  then show ?thesis
    using h ok False
    by (simp add: wal_Append_def write_file_def io_next_def wal_holds_def go_len_def Let_def)
next
  case True
  let ?fs = "map encode_all (old @ [cur])"
  let ?w1 = "w\<lparr>closed := True, fileID := int (Suc (length ?fs))\<rparr>"
  let ?w2 = "?w1\<lparr>disk := wal_dir (?fs @ [[]]), cur_file := Some (file_name (Suc (length ?fs))),
    closed := False, fileSize := 0\<rparr>"
  have "openCurrentFile ?w1 = (None, ?w2)"
    by (rule open_next) (use h room in \<open>simp_all add: wal_holds_def\<close>)
  moreover have "fileID w + 1 = int (Suc (length ?fs))" using h by (simp add: wal_holds_def)
  ultimately have rot: "rotate w = (None, ?w2)"
    using h by (simp add: rotate_def close_file_def io_next_def wal_holds_def)
  have "update_file (file_name (Suc (length ?fs))) (\<lambda>d. d @ encode_record ty data) (wal_dir (?fs @ [[]])) =
      wal_dir (?fs @ [encode_all [(ty, data)]])"
    using update_last_file [of ?fs "\<lambda>d. d @ encode_record ty data" "[]"] room by simp
  then show ?thesis
    using h ok room True rot
    by (simp add: wal_Append_def write_file_def io_next_def wal_holds_def go_len_def Let_def)
qed

end
