(* ===== verification/Storage_Wal_Recovery.thy ===== *)
theory Storage_Wal_Recovery
  imports Storage_Wal_Dir
begin

text \<open>
  Recovery from the write-ahead log. The records that a node persists are typed here; what
  they mean is a fold over them. Persisting a sequence of records, crashing in the middle of
  one more, opening the directory again and replaying it yields what the fold says.
\<close>

section \<open>Typed records\<close>

datatype wal_rec = WTerm u64 | WVote string u64 | WEntry u64 u64 bytes

fun rec_data :: "wal_rec \<Rightarrow> u32 \<times> bytes" where
  "rec_data (WTerm t) = (RecordTerm, marshal_TermRecord \<lparr>tr_Term = t\<rparr>)"
| "rec_data (WVote v t) = (RecordVote, marshal_VoteRecord \<lparr>vr_VotedFor = v, vr_Term = t\<rparr>)"
| "rec_data (WEntry i t c) =
     (RecordEntry, marshal_EntryRecord \<lparr>er_Index = i, er_Term = t, er_Command = c\<rparr>)"

fun persist_rec :: "wal_rec \<Rightarrow> WAL \<Rightarrow> wal_error option \<times> WAL" where
  "persist_rec (WTerm t) w = PersistTerm t w"
| "persist_rec (WVote v t) w = PersistVote v t w"
| "persist_rec (WEntry i t c) w = PersistEntry i t c w"

lemma persist_rec_Append: "persist_rec r w = wal_Append (fst (rec_data r)) (snd (rec_data r)) w"
  by (cases r) (simp_all add: PersistTerm_def PersistVote_def PersistEntry_def)

lemma record_names:
  "coerce_utf8 ''term'' = ''term''" "coerce_utf8 ''voted_for'' = ''voted_for''"
  "coerce_utf8 ''index'' = ''index''" "coerce_utf8 ''command'' = ''command''"
  by code_simp+

lemma record_fields:
  "field_match ''term'' ''term''" "field_match ''voted_for'' ''voted_for''"
  "\<not> field_match ''voted_for'' ''term''" "field_match ''index'' ''index''"
  "\<not> field_match ''index'' ''term''" "\<not> field_match ''index'' ''command''"
  "\<not> field_match ''term'' ''command''" "field_match ''command'' ''command''"
  by code_simp+

lemma unmarshal_marshal_records:
  "unmarshal_TermRecord (marshal_TermRecord r1) = Some r1"
  "unmarshal_VoteRecord (marshal_VoteRecord r2) = Some (r2\<lparr>vr_VotedFor := coerce_utf8 (vr_VotedFor r2)\<rparr>)"
  "unmarshal_EntryRecord (marshal_EntryRecord r3) = Some r3"
proof -
  have "json_parse (marshal_TermRecord r1) = Some (JObj [(''term'', JNum (show_nat (unat (tr_Term r1))))])"
    unfolding marshal_TermRecord_def
    by (rule json_parse_object) (simp_all add: record_names reads_json_uint64)
  then show "unmarshal_TermRecord (marshal_TermRecord r1) = Some r1"
    by (simp add: unmarshal_TermRecord_def Unmarshal_def set_TermRecord_def record_fields set_back)
  have "json_parse (marshal_VoteRecord r2) =
      Some (JObj [(''voted_for'', JStr (coerce_utf8 (vr_VotedFor r2))),
        (''term'', JNum (show_nat (unat (vr_Term r2))))])"
    unfolding marshal_VoteRecord_def
    by (rule json_parse_object) (simp_all add: record_names reads_json_uint64 reads_json_string)
  then show "unmarshal_VoteRecord (marshal_VoteRecord r2) =
      Some (r2\<lparr>vr_VotedFor := coerce_utf8 (vr_VotedFor r2)\<rparr>)"
    by (simp add: unmarshal_VoteRecord_def Unmarshal_def set_VoteRecord_def record_fields set_back)
  have "json_parse (marshal_EntryRecord r3) =
      Some (JObj [(''index'', JNum (show_nat (unat (er_Index r3)))),
        (''term'', JNum (show_nat (unat (er_Term r3)))),
        (''command'', if er_Command r3 = [] then JNull else JStr (b64_encode (er_Command r3)))])"
    unfolding marshal_EntryRecord_def
    by (rule json_parse_object) (simp_all add: record_names reads_json_uint64 reads_json_bytes)
  then show "unmarshal_EntryRecord (marshal_EntryRecord r3) = Some r3"
    by (simp add: unmarshal_EntryRecord_def Unmarshal_def set_EntryRecord_def record_fields set_back)
qed

section \<open>What the records mean\<close>

fun rec_step :: "wal_rec \<Rightarrow> replay_state \<Rightarrow> replay_state" where
  "rec_step (WTerm t) s = s\<lparr>rs_term := t\<rparr>"
| "rec_step (WVote v t) s = s\<lparr>rs_vote := v, rs_term := t\<rparr>"
| "rec_step (WEntry i t c) s =
     s\<lparr>rs_entries := rs_entries s @ [\<lparr>er_Index = i, er_Term = t, er_Command = c\<rparr>]\<rparr>"

definition recovered :: "wal_rec list \<Rightarrow> replay_state" where
  "recovered rs = fold rec_step rs replay_zero"

text \<open>
  Records as a node writes them: terms are positive and never decrease, votes name a node, and
  every payload fits the length field.
\<close>

fun recs_from :: "u64 \<Rightarrow> wal_rec list \<Rightarrow> bool" where
  "recs_from t [] = True"
| "recs_from t (WTerm u # rs) = (0 < u \<and> t \<le> u \<and> recs_from u rs)"
| "recs_from t (WVote v u # rs) = (0 < u \<and> t \<le> u \<and> v \<noteq> [] \<and> valid_utf8 v \<and> recs_from u rs)"
| "recs_from t (WEntry i u c # rs) = recs_from t rs"

definition recs_ok :: "wal_rec list \<Rightarrow> bool" where
  "recs_ok rs \<longleftrightarrow> recs_from 0 rs \<and> records_ok (map rec_data rs)"

lemma record_types: "RecordVote \<noteq> RecordTerm" "RecordEntry \<noteq> RecordTerm" "RecordEntry \<noteq> RecordVote"
  by (simp_all add: RecordTerm_def RecordVote_def RecordEntry_def)

lemma apply_rec:
  "apply_record RecordTerm (marshal_TermRecord \<lparr>tr_Term = t\<rparr>) s = s\<lparr>rs_term := t\<rparr>"
  "apply_record RecordVote (marshal_VoteRecord \<lparr>vr_VotedFor = v, vr_Term = t\<rparr>) s =
     s\<lparr>rs_vote := coerce_utf8 v, rs_term := (if t > rs_term s then t else rs_term s)\<rparr>"
  "apply_record RecordEntry (marshal_EntryRecord \<lparr>er_Index = i, er_Term = t, er_Command = c\<rparr>) s =
     s\<lparr>rs_entries := rs_entries s @ [\<lparr>er_Index = i, er_Term = t, er_Command = c\<rparr>]\<rparr>"
  by (simp_all add: apply_record_def record_types unmarshal_marshal_records)

lemma apply_recs:
  "recs_from (rs_term s) rs \<Longrightarrow> apply_records (map rec_data rs) s = fold rec_step rs s"
proof (induction rs arbitrary: s)
  case (Cons r rs)
  then show ?case
    by (cases r) (auto simp: apply_rec valid_utf8_def)
qed simp

lemma recs_from_weaken: "recs_from t rs \<Longrightarrow> u \<le> t \<Longrightarrow> recs_from u rs"
proof (induction rs)
  case (Cons r rs)
  then show ?case by (cases r) (auto intro: order_trans)
qed simp

lemma recs_from_append:
  "recs_from t (rs @ rs') \<Longrightarrow> recs_from t rs \<and> recs_from 0 rs'"
proof (induction t rs rule: recs_from.induct)
  case (1 t)
  then show ?case using recs_from_weaken [of t rs' 0] by simp
qed simp_all

text \<open>
  \<open>Replay\<close> folds every file from the zero state and merges the results; on such records this is
  the fold over all of them.
\<close>

definition merge_state :: "replay_state \<Rightarrow> replay_state \<Rightarrow> replay_state" where
  "merge_state acc s =
     \<lparr>rs_term = (if rs_term s > 0 then rs_term s else rs_term acc),
      rs_vote = (if rs_vote s \<noteq> [] then rs_vote s else rs_vote acc),
      rs_entries = rs_entries acc @ rs_entries s\<rparr>"

lemma merge_step:
  assumes "recs_from t [r]"
  shows "rec_step r (merge_state acc s) = merge_state acc (rec_step r s)"
  using assms by (cases r) (auto simp: merge_state_def)

lemma recs_from_Cons: "recs_from t (r # rs) \<Longrightarrow> recs_from t [r] \<and> (\<exists>u. recs_from u rs)"
  by (cases r) auto

lemma merge_fold:
  "recs_from t rs \<Longrightarrow> fold rec_step rs (merge_state acc s) = merge_state acc (fold rec_step rs s)"
proof (induction rs arbitrary: t s)
  case (Cons r rs)
  then show ?case using recs_from_Cons [OF Cons.prems] merge_step [of t r acc s] by auto
qed simp

lemma merge_recovered:
  "recs_from t rs \<Longrightarrow> merge_state acc (recovered rs) = fold rec_step rs acc"
proof -
  assume "recs_from t rs"
  then have "fold rec_step rs (merge_state acc replay_zero) = merge_state acc (fold rec_step rs replay_zero)"
    by (rule merge_fold)
  moreover have "merge_state acc replay_zero = acc" by (simp add: merge_state_def replay_zero_def)
  ultimately show ?thesis by (simp add: recovered_def)
qed

section \<open>Replay of a directory\<close>

lemma replay_one:
  assumes "disk w = wal_dir fs" "length fs < 1000000" "io w = []" "i < length fs"
    "fs ! i = encode_all (map rec_data rs)" "recs_from 0 rs" "records_ok (map rec_data rs)"
  shows "replayFile (file_name (Suc i)) w = Some (Inr (recovered rs), w)"
proof -
  have "replay_loop False (encode_all (map rec_data rs) @ []) 0 replay_zero = (recovered rs, AtEof)"
    unfolding replay_records [OF assms(7)] replay_end
    using apply_recs [of replay_zero rs] assms(6) by (simp add: recovered_def replay_zero_def)
  then show ?thesis
    using assms(1,3,5) find_nth_file [OF assms(4,2)]
    by (simp add: replayFile_def io_next_def wal_file_def)
qed

lemma replay_old_files:
  assumes "disk w = wal_dir fs" "length fs < 1000000" "io w = []" "n \<le> length fs" "length rss = n"
    "\<forall>i < n. fs ! i = encode_all (map rec_data (rss ! i))" "recs_from 0 (concat rss)"
    "list_all (\<lambda>rs. records_ok (map rec_data rs)) rss"
  shows "replay_files (map (\<lambda>i. \<lparr>wf_id = int (Suc i), wf_name = file_name (Suc i)\<rparr>) [0..<n] @ rest) replay_zero w =
    replay_files rest (recovered (concat rss)) w"
  using assms(4-8)
proof (induction n arbitrary: rss rest)
  case 0
  then show ?case by (simp add: recovered_def)
next
  case (Suc n)
  then obtain rss' rs where rss: "rss = rss' @ [rs]" "length rss' = n"
    by (metis append_butlast_last_id length_append_singleton length_greater_0_conv old.nat.inject zero_less_Suc)
  have from': "recs_from 0 (concat rss')" "recs_from 0 rs"
    using Suc.prems(4) rss recs_from_append [of 0 "concat rss'" rs] by auto
  have old: "\<forall>i < n. fs ! i = encode_all (map rec_data (rss' ! i))"
    using Suc.prems(3) rss by (auto simp: nth_append less_Suc_eq)
  have cur: "fs ! n = encode_all (map rec_data rs)" using Suc.prems(3) rss by (simp add: nth_append)
  have one: "replayFile (file_name (Suc n)) w = Some (Inr (recovered rs), w)"
    using replay_one [OF assms(1-3) _ cur from'(2)] Suc.prems(1,5) rss by simp
  have "merge_state (recovered (concat rss')) (recovered rs) = recovered (concat rss)"
    using merge_recovered [OF from'(2), of "recovered (concat rss')"] rss by (simp add: recovered_def)
  then show ?case
    using Suc.IH [of rss'] Suc.prems(1,5) rss(2) from'(1) old one rss(1)
    by (simp add: merge_state_def)
qed

text \<open>The files of a directory that holds typed records.\<close>

definition rec_files :: "wal_rec list list \<Rightarrow> bytes list" where
  "rec_files rss = map (\<lambda>rs. encode_all (map rec_data rs)) rss"

text \<open>
  A directory whose last file ends in the first \<open>k\<close> bytes of one more record: the replay, and
  the directory it leaves.
\<close>

lemma replay_directory:
  assumes w: "disk w = wal_dir (rec_files old @ [encode_all (map rec_data cur) @ take k (encode_record ty data)])"
    "io w = []" and room: "Suc (length old) < 1000000"
    and ok: "recs_from 0 (concat old @ cur)" "list_all (\<lambda>rs. records_ok (map rec_data rs)) (old @ [cur])"
    and torn: "payload_ok data" "k < length (encode_record ty data)"
  shows "\<exists>w'. wal_Replay w = Some (Inr (recovered (concat old @ cur)), w') \<and>
    disk w' = (if k < 8 then disk w else wal_dir (rec_files old @ [encode_all (map rec_data cur)]))"
proof -
  let ?tail = "take k (encode_record ty data)" and ?cur = "encode_all (map rec_data cur)"
  let ?fs = "rec_files old @ [?cur @ ?tail]" and ?n = "length old" and ?file = "file_name (Suc (length old))"
  have len: "length ?fs = Suc ?n" by (simp add: rec_files_def)
  let ?l = "map (\<lambda>i. \<lparr>wf_id = int (Suc i), wf_name = file_name (Suc i)\<rparr>) [0..<?n]"
  have "listWALFiles w = (Inr (?l @ [\<lparr>wf_id = int (Suc ?n), wf_name = ?file\<rparr>]), w)"
    using list_dir [of ?fs w] w room len by simp
  moreover have from': "recs_from 0 (concat old)" "recs_from 0 cur"
    using recs_from_append [OF ok(1)] by auto
  have "replay_files (?l @ [\<lparr>wf_id = int (Suc ?n), wf_name = ?file\<rparr>]) replay_zero w =
      replay_files [\<lparr>wf_id = int (Suc ?n), wf_name = ?file\<rparr>] (recovered (concat old)) w"
    by (rule replay_old_files [OF w(1) _ w(2)])
      (use len room from' ok(2) in \<open>simp_all add: rec_files_def nth_append\<close>)
  moreover have loop: "replay_loop False (?cur @ ?tail) 0 replay_zero =
      (recovered cur, if k < 8 then AtEof else TruncateAt (int (length ?cur)))"
  proof -
    have "records_ok (map rec_data cur)" using ok(2) by simp
    then show ?thesis
      using apply_recs [of replay_zero cur] from'(2)
      by (simp add: replay_records replay_torn [OF torn] recovered_def replay_zero_def)
  qed
  moreover have "find_file (disk w) ?file = Some (wal_file (Suc ?n) (?cur @ ?tail))"
    using find_last_file [of "rec_files old" "?cur @ ?tail"] w(1) room by (simp add: rec_files_def)
  moreover have "update_file ?file (take (length ?cur)) (disk w) = wal_dir (rec_files old @ [?cur])"
    using update_last_file [of "rec_files old" "take (length ?cur)" "?cur @ ?tail"] w(1) room
    by (simp add: rec_files_def)
  moreover have "merge_state (recovered (concat old)) (recovered cur) = recovered (concat old @ cur)"
    using merge_recovered [OF from'(2)] by (simp add: recovered_def)
  ultimately show ?thesis
    using w(2)
    by (simp add: wal_Replay_def replayFile_def io_next_def wal_file_def truncateFile_def merge_state_def)
qed

section \<open>Persisting\<close>

fun persist_all :: "wal_rec list \<Rightarrow> WAL \<Rightarrow> wal_error option \<times> WAL" where
  "persist_all [] w = (None, w)"
| "persist_all (r # rs) w =
     (case persist_rec r w of (Some e, w') \<Rightarrow> (Some e, w') | (None, w') \<Rightarrow> persist_all rs w')"

text \<open>The WAL holds the typed records, split over its files.\<close>

definition holds_recs :: "WAL \<Rightarrow> wal_rec list list \<Rightarrow> wal_rec list \<Rightarrow> bool" where
  "holds_recs w old cur \<longleftrightarrow> wal_holds w (map (map rec_data) old) (map rec_data cur)"

lemma persist_rec_ok:
  assumes "holds_recs w old cur" "records_ok [rec_data r]" "Suc (Suc (length old)) < 1000000"
  shows "\<exists>w'. persist_rec r w = (None, w') \<and>
    (holds_recs w' old (cur @ [r]) \<or> holds_recs w' (old @ [cur]) [r])"
  using append_record [of w "map (map rec_data) old" "map rec_data cur" "snd (rec_data r)" "fst (rec_data r)"]
    assms
  by (cases "rec_data r") (simp add: holds_recs_def persist_rec_Append)

lemma persist_all_ok:
  assumes "holds_recs w old cur" "records_ok (map rec_data rs)" "Suc (length old) + length rs < 1000000"
  shows "\<exists>w' old' cur'. persist_all rs w = (None, w') \<and> holds_recs w' old' cur' \<and>
    concat old' @ cur' = concat old @ cur @ rs \<and> length old' \<le> length old + length rs"
  using assms
proof (induction rs arbitrary: w old cur)
  case (Cons r rs)
  have r: "records_ok [rec_data r]" "records_ok (map rec_data rs)" using Cons.prems(2) by (cases "rec_data r"; simp)+
  have room: "Suc (Suc (length old)) < 1000000" using Cons.prems(3) by simp
  obtain w1 where w1: "persist_rec r w = (None, w1)"
    "holds_recs w1 old (cur @ [r]) \<or> holds_recs w1 (old @ [cur]) [r]"
    using persist_rec_ok [OF Cons.prems(1) r(1) room] by blast
  from w1(2) show ?case
  proof
    assume "holds_recs w1 old (cur @ [r])"
    from Cons.IH [OF this r(2)] Cons.prems(3) w1(1) show ?thesis by fastforce
  next
    assume "holds_recs w1 (old @ [cur]) [r]"
    from Cons.IH [OF this r(2)] Cons.prems(3) w1(1) show ?thesis by fastforce
  qed
qed auto

section \<open>Theorems\<close>

lemma holds_recsD:
  assumes "holds_recs w old cur"
  shows "disk w = wal_dir (rec_files old @ [encode_all (map rec_data cur)])"
    "cur_file w = Some (file_name (Suc (length old)))" "\<not> closed w" "Suc (length old) < 1000000"
    "list_all (\<lambda>rs. records_ok (map rec_data rs)) (old @ [cur])"
  using assms by (auto simp: holds_recs_def wal_holds_def rec_files_def comp_def list_all_iff)

lemma torn_write:
  assumes "holds_recs w old cur"
  shows "disk (snd (write_file buf (w\<lparr>io := [IoErr k]\<rparr>))) =
    wal_dir (rec_files old @ [encode_all (map rec_data cur) @ take k buf])"
  using holds_recsD [OF assms]
    update_last_file [of "rec_files old" "\<lambda>d. d @ take k buf" "encode_all (map rec_data cur)"]
  by (simp add: write_file_def io_next_def rec_files_def)

text \<open>
  C25. Recovery. Open a WAL in an empty directory, persist any sequence of terms, votes and
  entries as a node does, and crash with any number of bytes of one more record written. Opening
  the directory again and replaying it succeeds and yields exactly the last term, the last vote
  and all entries that were persisted, over as many files as rotation made.
\<close>

theorem wal_recovery:
  assumes "recs_ok rs" and "length rs < 999999"
    and "payload_ok data" and "k < length (encode_record ty data)"
  shows "\<exists>w w1 w2 w3. NewWAL [] [] = (Inr w, disk w) \<and> persist_all rs w = (None, w1) \<and>
    NewWAL (disk (snd (write_file (encode_record ty data) (w1\<lparr>io := [IoErr k]\<rparr>)))) [] = (Inr w2, disk w2) \<and>
    wal_Replay w2 = Some (Inr (recovered rs), w3)"
proof -
  obtain w where w: "NewWAL [] [] = (Inr w, wal_dir [[]])" "wal_holds w [] []" using open_empty by blast
  then have h: "holds_recs w [] []" "disk w = wal_dir [[]]" by (simp_all add: holds_recs_def wal_holds_def)
  have ok: "records_ok (map rec_data rs)" "recs_from 0 rs" using assms(1) by (simp_all add: recs_ok_def)
  obtain w1 old cur where w1: "persist_all rs w = (None, w1)" "holds_recs w1 old cur" "concat old @ cur = rs"
    using persist_all_ok [OF h(1) ok(1)] assms(2) by auto
  note d = holds_recsD [OF w1(2)]
  let ?f = "encode_all (map rec_data cur) @ take k (encode_record ty data)"
  obtain w2 where w2: "NewWAL (wal_dir (rec_files old @ [?f])) [] = (Inr w2, wal_dir (rec_files old @ [?f]))"
    "disk w2 = wal_dir (rec_files old @ [?f])" "io w2 = []"
    using reopen [of "rec_files old" ?f] d(4) by (auto simp: rec_files_def)
  have "\<exists>w3. wal_Replay w2 = Some (Inr (recovered (concat old @ cur)), w3)"
    using replay_directory [OF w2(2,3) d(4) _ d(5) assms(3,4)] ok(2) w1(3) by auto
  then show ?thesis using w h(2) w1 w2 torn_write [OF w1(2), of "encode_record ty data" k] by metis
qed

definition sample_recs :: "wal_rec list" where
  "sample_recs = [WTerm 1, WVote ''a'' 1, WEntry 1 1 ''x'', WTerm 2, WEntry 2 2 []]"

theorem wal_recovery_witness:
  "recs_ok sample_recs \<and>
   (\<exists>w w1 w2 w3. NewWAL [] [] = (Inr w, disk w) \<and> persist_all sample_recs w = (None, w1) \<and>
    NewWAL (disk (snd (write_file (encode_record RecordTerm term_payload) (w1\<lparr>io := [IoErr 20]\<rparr>)))) [] =
      (Inr w2, disk w2) \<and>
    wal_Replay w2 = Some (Inr \<lparr>rs_term = 2, rs_vote = ''a'',
      rs_entries = [\<lparr>er_Index = 1, er_Term = 1, er_Command = ''x''\<rparr>,
        \<lparr>er_Index = 2, er_Term = 2, er_Command = []\<rparr>]\<rparr>, w3))"
proof -
  have "length term_payload = 10" by code_simp
  then have p: "payload_ok term_payload" "20 < length (encode_record RecordTerm term_payload)"
    by (simp_all add: payload_ok_def)
  have ok: "recs_ok sample_recs" "length sample_recs < 999999" by code_simp+
  have "recovered sample_recs = \<lparr>rs_term = 2, rs_vote = ''a'',
      rs_entries = [\<lparr>er_Index = 1, er_Term = 1, er_Command = ''x''\<rparr>,
        \<lparr>er_Index = 2, er_Term = 2, er_Command = []\<rparr>]\<rparr>"
    by (simp add: recovered_def sample_recs_def replay_zero_def)
  then show ?thesis using ok(1) wal_recovery [OF ok p] by metis
qed

lemma replay_short:
  assumes "length ty = 4" "length len = 4" "length rest < unat (get_u32 len + 4)"
  shows "replay_loop bad (ty @ len @ rest) off s = (s, TruncateAt off)"
proof -
  have bs: "\<not> length (ty @ len @ rest) < 8" "take 8 (ty @ len @ rest) = ty @ len"
    "drop 8 (ty @ len @ rest) = rest" "take 4 (ty @ len) = ty" "drop 4 (ty @ len) = len"
    using assms(1,2) by simp_all
  show ?thesis
    by (subst replay_loop.simps) (simp only: bs assms(3) if_False if_True Let_def)
qed

lemma shifted_length:
  assumes "0 < l" "l < 256"
  shows "unat (get_u32 [CHR 0x00, char_of l, CHR 0x00, CHR 0x00] + 4) = 256 * l + 4"
    "unat (get_u32 [CHR 0x00, CHR 0x00, char_of l, CHR 0x00] + 4) = 65536 * l + 4"
    "unat (get_u32 [CHR 0x00, CHR 0x00, CHR 0x00, char_of l] + 4) = 16777216 * l + 4"
proof -
  have sum: "unat (of_nat n + 4 :: u32) = n + 4" if "n + 4 < 4294967296" for n
  proof -
    have "(of_nat n + 4 :: u32) = of_nat (n + 4)" by simp
    moreover have "n + 4 < 2 ^ 32" using that by simp
    ultimately show ?thesis using unat_len32 by metis
  qed
  show "unat (get_u32 [CHR 0x00, char_of l, CHR 0x00, CHR 0x00] + 4) = 256 * l + 4"
    using sum [of "256 * l"] assms by (simp add: get_u32_def mult.commute)
  show "unat (get_u32 [CHR 0x00, CHR 0x00, char_of l, CHR 0x00] + 4) = 65536 * l + 4"
    using sum [of "65536 * l"] assms by (simp add: get_u32_def mult.commute)
  show "unat (get_u32 [CHR 0x00, CHR 0x00, CHR 0x00, char_of l] + 4) = 16777216 * l + 4"
    using sum [of "16777216 * l"] assms by (simp add: get_u32_def mult.commute)
qed

lemma small_u32:
  assumes "n < 256"
  shows "put_u32 (of_nat n) = [char_of n, CHR 0x00, CHR 0x00, CHR 0x00]"
proof -
  have "unat (of_nat n :: u32) = n" using assms by (intro unat_len32) simp
  moreover have "char_of (0::nat) = CHR 0x00" by code_simp
  ultimately show ?thesis using assms by (simp add: put_u32_def)
qed

text \<open>
  C27. A torn header hides later records. When a crash leaves only one to three bytes of a record,
  replay neither removes them nor reports them; a record that is appended after the restart, and
  acknowledged, is not found by the next replay, which cuts it off.
\<close>

theorem torn_header_loses_records:
  assumes "records_ok rs" and "0 < k" and "k < 4"
    and "ty \<in> {RecordTerm, RecordVote, RecordEntry}" and "0 < length data" and "length data < 256"
  shows "replay_loop False (encode_all rs @ take k (encode_record ty' data') @ encode_record ty data) 0 s =
    (apply_records rs s, TruncateAt (int (length (encode_all rs))))"
proof -
  let ?l = "length data" and ?t = "take k (encode_record ty' data')" and ?z = "CHR 0x00"
  obtain n where n: "ty = of_nat n" "n < 256"
    using assms(4) by (auto simp: RecordTerm_def RecordVote_def RecordEntry_def intro: that [of 1] that [of 2] that [of 3])
  obtain crc where crc: "encode_record ty data = [char_of n, ?z, ?z, ?z] @ [char_of ?l, ?z, ?z, ?z] @ data @ crc"
    "length crc = 4"
    using small_u32 [OF n(2)] small_u32 [OF assms(6)] n(1) by (simp add: encode_record_def Let_def)
  note len = shifted_length [OF assms(5,6)]
  have t: "length ?t = k" using assms(3) by simp
  have "replay_loop False (?t @ encode_record ty data) off s' = (s', TruncateAt off)" for off s'
  proof -
    consider a where "?t = [a]" | a b where "?t = [a, b]" | a b c where "?t = [a, b, c]"
      using t assms(2,3) by (cases ?t; cases "tl ?t"; cases "tl (tl ?t)"; cases "tl (tl (tl ?t))") auto
    then show ?thesis
    proof cases
      case (1 a)
      then show ?thesis
        using replay_short [of "[a, char_of n, ?z, ?z]" "[?z, char_of ?l, ?z, ?z]" "?z # data @ crc"]
          len(1) assms(5) crc by simp
    next
      case (2 a b)
      then show ?thesis
        using replay_short [of "[a, b, char_of n, ?z]" "[?z, ?z, char_of ?l, ?z]" "?z # ?z # data @ crc"]
          len(2) assms(5) crc by simp
    next
      case (3 a b c)
      then show ?thesis
        using replay_short [of "[a, b, c, char_of n]" "[?z, ?z, ?z, char_of ?l]" "?z # ?z # ?z # data @ crc"]
          len(3) assms(5) crc by simp
    qed
  qed
  then show ?thesis by (simp add: replay_records [OF assms(1)])
qed

theorem torn_header_loses_records_witness:
  "fst (replay_loop False (take 2 (encode_record RecordTerm term_payload) @
     encode_record RecordTerm term_payload) 0 replay_zero) = replay_zero \<and>
   apply_records [(RecordTerm, term_payload)] replay_zero = replay_zero\<lparr>rs_term := 7\<rparr>"
proof -
  have len: "0 < length term_payload" "length term_payload < 256" by code_simp+
  have "replay_loop False (encode_all [] @ take 2 (encode_record RecordTerm term_payload) @
      encode_record RecordTerm term_payload) 0 replay_zero =
      (apply_records [] replay_zero, TruncateAt (int (length (encode_all []))))"
    by (rule torn_header_loses_records) (use len in simp_all)
  then show ?thesis by (simp add: term_payload_def apply_rec)
qed

end
