(* ===== verification/Raft_Restart.thy ===== *)
theory Raft_Restart
  imports Raft_Replication Storage_Wal_Recovery
begin

text \<open>
  A node and its write-ahead log. As long as no system call fails and the log is only extended,
  the WAL holds what a restart needs: replaying it restores term and log of the node, and its
  vote. The truncation of conflicting entries is not recorded in the WAL, so a restart after one
  restores a different log.
\<close>

section \<open>The WAL of a node\<close>

text \<open>The open WAL holds the records, and has room for \<open>k\<close> more.\<close>

definition wal_has :: "WAL option \<Rightarrow> wal_rec list \<Rightarrow> nat \<Rightarrow> bool" where
  "wal_has wo rs k \<longleftrightarrow>
     (\<exists>w old cur. wo = Some w \<and> holds_recs w old cur \<and> concat old @ cur = rs \<and> length old + k < 999999)"

definition fits :: "wal_rec \<Rightarrow> bool" where
  "fits r \<longleftrightarrow> records_ok [rec_data r]"

lemma wal_has_persist:
  assumes "wal_has (wal n) rs (Suc k)" "fits r"
  shows "wal_has (wal (persist (persist_rec r) n)) (rs @ [r]) k"
proof -
  obtain w old cur where w: "wal n = Some w" "holds_recs w old cur" "concat old @ cur = rs"
    "length old + Suc k < 999999" using assms(1) by (auto simp: wal_has_def)
  obtain w' where w': "persist_rec r w = (None, w')"
    "holds_recs w' old (cur @ [r]) \<or> holds_recs w' (old @ [cur]) [r]"
    using persist_rec_ok [OF w(2) assms(2) [unfolded fits_def]] w(4) by auto
  have "wal (persist (persist_rec r) n) = Some w'" using w(1) w'(1) by (simp add: persist_def)
  moreover from w'(2) have "\<exists>old' cur'. holds_recs w' old' cur' \<and> concat old' @ cur' = rs @ [r] \<and>
      length old' + k < 999999"
  proof
    assume "holds_recs w' old (cur @ [r])"
    then show ?thesis using w(3,4) by (intro exI [of _ old] exI [of _ "cur @ [r]"]) auto
  next
    assume "holds_recs w' (old @ [cur]) [r]"
    then show ?thesis using w(3,4) by (intro exI [of _ "old @ [cur]"] exI [of _ "[r]"]) auto
  qed
  ultimately show ?thesis by (auto simp: wal_has_def)
qed

lemma wal_has_less: "wal_has wo rs k \<Longrightarrow> j \<le> k \<Longrightarrow> wal_has wo rs j"
  unfolding wal_has_def by fastforce

lemma recs_from_snoc:
  "recs_from (rs_term s) rs \<Longrightarrow> recs_from (rs_term (fold rec_step rs s)) rs' \<Longrightarrow>
     recs_from (rs_term s) (rs @ rs')"
proof (induction rs arbitrary: s)
  case (Cons r rs)
  then show ?case using Cons.IH [of "rec_step r s"] by (cases r) auto
qed simp

lemma recovered_snoc: "recovered (rs @ [r]) = rec_step r (recovered rs)"
  by (simp add: recovered_def)

lemma recs_ok_snoc:
  "recs_from 0 rs \<Longrightarrow> recs_from (rs_term (recovered rs)) [r] \<Longrightarrow> recs_from 0 (rs @ [r])"
  using recs_from_snoc [of replay_zero rs "[r]"] by (simp add: recovered_def replay_zero_def)

section \<open>A node that its WAL can restore\<close>

text \<open>
  The records restore the term and the entries, and the vote if there is one in this term, and
  there is room for \<open>k\<close> more of them.
\<close>

definition restores :: "wal_rec list \<Rightarrow> Term \<Rightarrow> NodeID \<Rightarrow> LogEntry list \<Rightarrow> bool" where
  "restores rs t v es \<longleftrightarrow> recs_from 0 rs \<and> rs_term (recovered rs) = t \<and>
     (v = [] \<or> rs_vote (recovered rs) = v) \<and>
     es = sentinel # map entry_of_record (rs_entries (recovered rs))"

definition tracks :: "WAL option \<Rightarrow> Term \<Rightarrow> NodeID \<Rightarrow> LogEntry list \<Rightarrow> nat \<Rightarrow> bool" where
  "tracks wo t v es k \<longleftrightarrow> (\<exists>rs. wal_has wo rs k \<and> restores rs t v es)"

definition tracked :: "Node \<Rightarrow> nat \<Rightarrow> bool" where
  "tracked n k \<longleftrightarrow> tracks (wal n) (currentTerm n) (votedFor n) (entries (log n)) k"

lemma tracks_less: "tracks wo t v es k \<Longrightarrow> j \<le> k \<Longrightarrow> tracks wo t v es j"
  unfolding tracks_def using wal_has_less by blast

lemma tracked_less: "tracked n k \<Longrightarrow> j \<le> k \<Longrightarrow> tracked n j"
  unfolding tracked_def by (rule tracks_less)

lemma tracks_persist:
  assumes "tracks (wal n) t v es (Suc k)" "fits r" "recs_from t [r]"
    and new: "\<And>s. rs_term s = t \<Longrightarrow> v = [] \<or> rs_vote s = v \<Longrightarrow>
      rs_term (rec_step r s) = t' \<and> (v' = [] \<or> rs_vote (rec_step r s) = v') \<and>
      map entry_of_record (rs_entries (rec_step r s)) = map entry_of_record (rs_entries s) @ new"
  shows "tracks (wal (persist (persist_rec r) n)) t' v' (es @ new) k"
proof -
  obtain rs where rs: "wal_has (wal n) rs (Suc k)" "restores rs t v es"
    using assms(1) by (auto simp: tracks_def)
  have "recs_from 0 (rs @ [r])" using rs(2) assms(3) by (intro recs_ok_snoc) (auto simp: restores_def)
  then have "restores (rs @ [r]) t' v' (es @ new)"
    using rs(2) new [of "recovered rs"] by (auto simp: restores_def recovered_snoc)
  then show ?thesis using wal_has_persist [OF rs(1) assms(2)] by (auto simp: tracks_def)
qed

lemma tracks_term:
  assumes "tracks (wal n) t v es (Suc k)" "t < t'" "fits (WTerm t')"
  shows "tracks (wal (persist (PersistTerm t') n)) t' [] es k"
proof -
  have "0 < t'" using le_less_trans [OF word_zero_le assms(2)] .
  then have "tracks (wal (persist (persist_rec (WTerm t')) n)) t' [] (es @ []) k"
    using assms by (intro tracks_persist [OF assms(1)]) auto
  moreover have "persist_rec (WTerm t') = PersistTerm t'" by (rule ext) simp
  ultimately show ?thesis by simp
qed

lemma tracks_vote:
  assumes "tracks (wal n) t v es (Suc k)" "0 < t" "c \<noteq> []" "valid_utf8 c" "fits (WVote c t)"
  shows "tracks (wal (persist (PersistVote c t) n)) t c es k"
proof -
  have "tracks (wal (persist (persist_rec (WVote c t)) n)) t c (es @ []) k"
    using assms by (intro tracks_persist [OF assms(1)]) auto
  moreover have "persist_rec (WVote c t) = PersistVote c t" by (rule ext) simp
  ultimately show ?thesis by simp
qed

definition entry_rec :: "LogEntry \<Rightarrow> wal_rec" where
  "entry_rec e = WEntry (le_Index e) (le_Term e) (le_Command e)"

lemma tracks_entry:
  assumes "tracks (wal n) t v es (Suc k)" "fits (entry_rec e)"
  shows "tracks (wal (persist (PersistEntry (le_Index e) (le_Term e) (le_Command e)) n)) t v (es @ [e]) k"
proof -
  have "tracks (wal (persist (persist_rec (entry_rec e)) n)) t v (es @ [e]) k"
    using assms(2)
    by (intro tracks_persist [OF assms(1)]) (auto simp: entry_rec_def entry_of_record_def)
  moreover have "persist_rec (entry_rec e) = PersistEntry (le_Index e) (le_Term e) (le_Command e)"
    by (rule ext) (simp add: entry_rec_def)
  ultimately show ?thesis by simp
qed

lemma tracks_entries:
  assumes "tracks (wal n) t v es (length new + k)" "list_all (\<lambda>e. fits (entry_rec e)) new"
  shows "tracks (wal (persist_entries new n)) t v (es @ new) k"
  using assms
proof (induction new arbitrary: n es)
  case (Cons e new)
  have "tracks (wal (persist (PersistEntry (le_Index e) (le_Term e) (le_Command e)) n)) t v (es @ [e])
      (length new + k)"
    using Cons.prems by (intro tracks_entry) simp_all
  from Cons.IH [OF this] Cons.prems(2) show ?case by simp
qed simp

lemma fits_WTerm [simp]: "fits (WTerm t)"
proof -
  have "unat t < 10 ^ Suc 19" using unat_u64_lt [of t] by simp
  then have "length (show_nat (unat t)) \<le> 20" using show_nat_length [of "unat t" 19] by simp
  moreover have "length (quote_body ''term'') = 4" by code_simp
  ultimately show ?thesis
    by (simp add: fits_def payload_ok_def marshal_TermRecord_def json_object_def json_string_def json_uint64_def)
qed

section \<open>The handlers\<close>

lemma becomeFollower_tracked:
  assumes "tracked n (Suc k)"
  shows "tracked (becomeFollowerLocked rnd t n) k"
proof (cases "t > currentTerm n")
  case True
  have "tracks (wal (persist (PersistTerm t) (n\<lparr>currentTerm := t, votedFor := []\<rparr>))) t [] (entries (log n)) k"
    using assms True by (intro tracks_term [of _ "currentTerm n" "votedFor n"]) (auto simp: tracked_def)
  then show ?thesis
    using True by (simp add: tracked_def becomeFollowerLocked_def Let_def max_def)
next
  case False
  then have "wal (becomeFollowerLocked rnd t n) = wal n" by (simp add: becomeFollowerLocked_def Let_def)
  then show ?thesis
    using False tracks_less [of _ _ _ _ "Suc k" k] assms(1) by (simp add: tracked_def max_def not_less)
qed

lemma startElection_tracked:
  assumes "tracked n (Suc (Suc k))" "currentTerm n < - 1" "node_id n \<noteq> []" "valid_utf8 (node_id n)"
    "fits (WVote (node_id n) (currentTerm n + 1))"
    "startElection rnd n = Some (n', args)"
  shows "tracked n' k"
proof -
  let ?t = "currentTerm n + 1"
  let ?n1 = "n\<lparr>currentTerm := ?t, state := Candidate, votedFor := node_id n, leaderID := [], votes := 1,
    votesReceived := [node_id n \<mapsto> True]\<rparr>"
  let ?n2 = "persist (PersistTerm ?t) ?n1"
  let ?n3 = "persist (PersistVote (node_id n) ?t) ?n2"
  have lt: "currentTerm n < ?t" by (rule word_less_Suc [OF assms(2)])
  have "tracks (wal ?n2) ?t [] (entries (log n)) (Suc k)"
    using assms(1) lt by (intro tracks_term [of _ "currentTerm n" "votedFor n"]) (auto simp: tracked_def)
  then have "tracks (wal ?n3) ?t (node_id n) (entries (log n)) k"
    using assms(3-5) le_less_trans [OF word_zero_le lt] by (intro tracks_vote) auto
  moreover have "wal n' = wal ?n3" "currentTerm n' = ?t" "votedFor n' = node_id n" "log n' = log n"
    using assms(6) by (auto simp: startElection_def Let_def bind_eq_Some_conv)
  ultimately show ?thesis by (simp add: tracked_def)
qed

lemma HandleRequestVote_tracked:
  assumes "tracked n (Suc (Suc k))" "0 < rv_Term args" "rv_CandidateID args \<noteq> []"
    "valid_utf8 (rv_CandidateID args)" "fits (WVote (rv_CandidateID args) (rv_Term args))"
    "HandleRequestVote rnd args n = Some (n', reply)"
  shows "tracked n' k"
proof -
  let ?t = "rv_Term args" and ?c = "rv_CandidateID args"
  define n1 where "n1 = (if ?t > currentTerm n then becomeFollowerLocked rnd ?t n else n)"
  have n1: "tracked n1 (Suc k)"
    using becomeFollower_tracked [OF assms(1)] tracked_less [OF assms(1)] by (simp add: n1_def)
  consider "n' = n1" | "?t = currentTerm n1" "\<exists>r. n' = persist (PersistVote ?c ?t)
      (resetElectionTimerLocked r (n1\<lparr>votedFor := ?c\<rparr>))"
  proof (cases "?t < currentTerm n1")
    case True
    then have "n' = n1" using assms(6) unfolding HandleRequestVote_def Let_def n1_def [symmetric] by simp
    then show ?thesis by (rule that(1))
  next
    case False
    have "currentTerm n1 \<ge> ?t" by (simp add: n1_def max_def not_le)
    then have eq: "?t = currentTerm n1" using False by simp
    from assms(6) False obtain lo where
      lo: "isLogUpToDate n1 (rv_LastLogTerm args) (rv_LastLogIndex args) = Some lo"
      unfolding HandleRequestVote_def Let_def n1_def [symmetric] by (auto simp: bind_eq_Some_conv)
    have "(if (votedFor n1 = [] \<or> votedFor n1 = ?c) \<and> lo
        then Some (persist (PersistVote ?c (currentTerm n1)) (resetElectionTimerLocked rnd (n1\<lparr>votedFor := ?c\<rparr>)),
          \<lparr>rvr_Term = currentTerm n1, rvr_VoteGranted = True\<rparr>)
        else Some (n1, \<lparr>rvr_Term = currentTerm n1, rvr_VoteGranted = False\<rparr>)) = Some (n', reply)"
      using assms(6) False lo unfolding HandleRequestVote_def Let_def n1_def [symmetric]
      by (auto split: if_splits)
    then show ?thesis using that eq by (auto split: if_splits)
  qed
  then show ?thesis
  proof cases
    case 1
    then show ?thesis using tracked_less [OF n1] by simp
  next
    case 2
    then obtain r where r: "n' = persist (PersistVote ?c ?t) (resetElectionTimerLocked r (n1\<lparr>votedFor := ?c\<rparr>))"
      by blast
    have "tracks (wal n') ?t ?c (entries (log n1)) k"
      unfolding r using n1 2(1) assms(2-5)
      by (intro tracks_vote [of _ _ "votedFor n1"]) (auto simp: tracked_def)
    then show ?thesis using 2(1) by (simp add: tracked_def r)
  qed
qed

text \<open>The new entries do not contradict the log: nothing is truncated.\<close>

fun no_conflict :: "RaftLog \<Rightarrow> LogIndex \<Rightarrow> LogEntry list \<Rightarrow> bool" where
  "no_conflict l idx [] = True"
| "no_conflict l idx (e # es) =
     (if Contains l idx then TermAt l idx = Some (le_Term e) \<and> no_conflict l (idx + 1) es else True)"

lemma append_loop_tracked:
  assumes "tracked n (length es + k)" "no_conflict (log n) idx es" "list_all (\<lambda>e. fits (entry_rec e)) es"
    "append_entries_loop idx es n = Some n'"
  shows "tracked n' k"
  using assms
proof (induction idx es n arbitrary: k rule: append_entries_loop.induct)
  case (1 idx n)
  then show ?case by simp
next
  case (2 idx e es n)
  show ?case
  proof (cases "Contains (log n) idx")
    case True
    have "tracked n (length es + k)"
      using tracked_less [OF 2(2)] by simp
    with 2(1) [OF True, of "le_Term e" k] 2(3-5) True show ?thesis by simp
  next
    case False
    with 2(5) obtain l where l: "Append (log n) (e # es) = Some l" "n' = persist_entries (e # es) (n\<lparr>log := l\<rparr>)"
      by (auto simp: bind_eq_Some_conv)
    then have "entries l = entries (log n) @ e # es"
      by (auto simp: Append_def bind_eq_Some_conv go_append_Some)
    moreover have "tracks (wal n') (currentTerm n) (votedFor n) (entries (log n) @ e # es) k"
      unfolding l(2) using 2(2,4) by (intro tracks_entries) (simp_all add: tracked_def)
    ultimately show ?thesis by (simp add: tracked_def l(2) del: persist_entries.simps)
  qed
qed

lemma accept_leader_tracked:
  assumes "tracked n (Suc k)"
  shows "tracked (accept_leader rnd args n) k"
proof -
  have "tracked (if ae_Term args > currentTerm n then becomeFollowerLocked rnd (ae_Term args) n else n) k"
    using becomeFollower_tracked [OF assms] tracked_less [OF assms] by simp
  then show ?thesis by (simp add: accept_leader_def Let_def tracked_def)
qed

lemma HandleAppendEntries_tracked:
  assumes "tracked n (Suc (length (ae_Entries args) + k))"
    "no_conflict (log n) (ae_PrevLogIndex args + 1) (ae_Entries args)"
    "list_all (\<lambda>e. fits (entry_rec e)) (ae_Entries args)"
    "HandleAppendEntries rnd args n = Some (n', reply)"
  shows "tracked n' k"
proof -
  let ?n3 = "accept_leader rnd args n"
  have n3: "tracked ?n3 (length (ae_Entries args) + k)" by (rule accept_leader_tracked [OF assms(1)])
  consider "n' = n" | "n' = ?n3"
    | n4 where "append_entries_loop (ae_PrevLogIndex args + 1) (ae_Entries args) ?n3 = Some n4"
        "n' = update_commit (ae_LeaderCommit args) n4"
    using assms(4)
    by (auto simp: HandleAppendEntries_def Let_def bind_eq_Some_conv split: if_splits option.splits)
  then show ?thesis
  proof cases
    case 1
    then show ?thesis using tracked_less [OF assms(1)] by simp
  next
    case 2
    then show ?thesis using tracked_less [OF n3] by simp
  next
    case (3 n4)
    have "tracked n4 k" by (rule append_loop_tracked [OF n3 _ assms(3) 3(1)]) (simp add: assms(2))
    then show ?thesis by (simp add: 3(2) tracked_def update_commit_def)
  qed
qed

lemma submit_append_tracked:
  assumes "tracked n (Suc k)" "submit_append cmd n = Some (n', r)"
    "fits (WEntry (LastIndex (log n) + 1) (currentTerm n) cmd)"
  shows "tracked n' k"
proof (cases "state n = Leader")
  case False
  then have "n' = n" using assms(2) by (simp add: submit_append_def)
  then show ?thesis using tracked_less [OF assms(1)] by simp
next
  case True
  let ?e = "\<lparr>le_Term = currentTerm n, le_Index = LastIndex (log n) + 1, le_Command = cmd\<rparr>"
  obtain w where w: "wal n = Some w" using assms(1) by (auto simp: tracked_def tracks_def wal_has_def)
  from True assms(2) obtain l where l: "Append (log n) [?e] = Some l"
    by (auto simp: submit_append_def Let_def bind_eq_Some_conv)
  have n': "n' = n\<lparr>log := l, wal := Some (snd (PersistEntry (le_Index ?e) (le_Term ?e) (le_Command ?e) w))\<rparr>"
    using True assms(2) l w by (auto simp: submit_append_def Let_def split: prod.splits option.splits)
  have "entries l = entries (log n) @ [?e]" using l by (auto simp: Append_def bind_eq_Some_conv go_append_Some)
  moreover have "tracks (wal (persist (PersistEntry (le_Index ?e) (le_Term ?e) (le_Command ?e)) n))
      (currentTerm n) (votedFor n) (entries (log n) @ [?e]) k"
    using assms(1,3) by (intro tracks_entry) (simp_all add: tracked_def entry_rec_def)
  ultimately show ?thesis by (simp add: tracked_def n' persist_def w)
qed

section \<open>Restart\<close>

lemma restart:
  assumes "tracks (Some w) t v es k" "length es < max_len"
  shows "\<exists>w2 m. NewWAL (disk w) [] = (Inr w2, disk w) \<and>
    Node_Replay (NewNode i ps (Some w2)) = Some (Inr m) \<and>
    currentTerm m = t \<and> (votedFor m = v \<or> v = []) \<and> entries (log m) = es"
proof -
  obtain rs old cur where rs: "holds_recs w old cur" "concat old @ cur = rs" "restores rs t v es"
    using assms(1) by (auto simp: tracks_def wal_has_def)
  note d = holds_recsD [OF rs(1)]
  let ?f = "encode_all (map rec_data cur)"
  obtain w2 where w2: "NewWAL (disk w) [] = (Inr w2, disk w)" "disk w2 = wal_dir (rec_files old @ [?f])" "io w2 = []"
    using reopen [of "rec_files old" ?f] d(1,4) by (auto simp: rec_files_def)
  have torn: "payload_ok []" "0 < length (encode_record RecordTerm [])" by (simp_all add: payload_ok_def)
  have "recs_from 0 (concat old @ cur)" using rs(2,3) by (simp add: restores_def)
  then obtain w3 where w3: "wal_Replay w2 = Some (Inr (recovered rs), w3)"
    using replay_directory [of w2 old cur 0 RecordTerm "[]", OF _ w2(3) d(4) _ d(5) torn] w2(2) rs(2) by auto
  let ?es = "map entry_of_record (rs_entries (recovered rs))"
  have es: "es = sentinel # ?es" using rs(3) by (simp add: restores_def)
  then have "RestoreEntries NewRaftLog ?es = Some (NewRaftLog\<lparr>entries := es\<rparr>)"
    using assms(2) by (simp add: RestoreEntries_def go_append_def)
  then obtain m where m: "Node_Replay (NewNode i ps (Some w2)) = Some (Inr m)" "currentTerm m = rs_term (recovered rs)"
    "votedFor m = rs_vote (recovered rs)" "entries (log m) = es"
    using w3 es by (cases "rs_entries (recovered rs) = []") (auto simp: Node_Replay_def NewNode_def NewRaftLog_def)
  then show ?thesis using w2(1) rs(3) by (auto simp: restores_def)
qed

lemma new_node_tracked:
  assumes "k < 999999"
  shows "\<exists>w. NewWAL [] [] = (Inr w, disk w) \<and> tracked (NewNode i ps (Some w)) k"
proof -
  obtain w where w: "NewWAL [] [] = (Inr w, wal_dir [[]])" "wal_holds w [] []" using open_empty by blast
  then have "holds_recs w [] []" by (simp add: holds_recs_def)
  moreover have "restores [] 0 [] [sentinel]" by (simp add: restores_def recovered_def replay_zero_def)
  ultimately have "tracked (NewNode i ps (Some w)) k"
    using assms by (auto simp: tracked_def tracks_def wal_has_def NewNode_def NewRaftLog_def intro!: exI [of _ "[]"])
  then show ?thesis using w by (auto simp: wal_holds_def)
qed




lemma log_ok_new: "log_ok (log (NewNode i ps w))"
  by (simp add: NewNode_def log_ok_def entries_ok_def NewRaftLog_def sentinel_def max_len_def)


text \<open>
  C26. Truncation is not persisted. When an AppendEntries request replaces conflicting entries,
  the WAL keeps the replaced entries: a restart restores the old log with the new entries after
  it, not the log of the node.
\<close>

theorem restart_undoes_truncation:
  assumes "tracked n (length (e # es) + k)" and "log_ok (log n)" and "0 < idx"
    and "unat idx < length (entries (log n))" and "le_Term (entries (log n) ! unat idx) \<noteq> le_Term e"
    and "length (entries (log n)) + length (e # es) < max_len"
    and "list_all (\<lambda>e. fits (entry_rec e)) (e # es)"
  shows "\<exists>n' w w2 m. append_entries_loop idx (e # es) n = Some n' \<and> wal n' = Some w \<and>
    entries (log n') = take (unat idx) (entries (log n)) @ e # es \<and>
    NewWAL (disk w) [] = (Inr w2, disk w) \<and>
    Node_Replay (NewNode i ps (Some w2)) = Some (Inr m) \<and>
    entries (log m) = entries (log n) @ e # es \<and> log m \<noteq> log n'"
proof -
  let ?l = "entries (log n)"
  have "length ?l < max_len" using assms(2) entries_ok_len by (auto simp: log_ok_def)
  with assms(4) have len: "length ?l < max_len" "unat idx < max_len" by auto
  have at: "Contains (log n) idx" "TermAt (log n) idx = Some (le_Term (?l ! unat idx))"
    using assms(4) len by (auto simp: Contains_iff)
  have "unat (idx - 1) = unat idx - 1" using unat_pred [OF assms(3)] .
  then have tr: "TruncateAfter (log n) (idx - 1) = Some (log n\<lparr>entries := take (unat idx) ?l\<rparr>)"
    using TruncateAfter_eq [of "log n" "idx - 1"] len assms(3,4) by (simp add: word_gt_0 unat_gt_0)
  let ?new = "take (unat idx) ?l @ e # es"
  have ap: "Append (log n\<lparr>entries := take (unat idx) ?l\<rparr>) (e # es) = Some (log n\<lparr>entries := ?new\<rparr>)"
    using assms(4,6) by (simp add: Append_def go_append_def)
  let ?n' = "persist_entries (e # es) (n\<lparr>log := log n\<lparr>entries := ?new\<rparr>\<rparr>)"
  have n': "append_entries_loop idx (e # es) n = Some ?n'"
    using at assms(5) tr ap by simp
  have t: "tracks (wal ?n') (currentTerm n) (votedFor n) (?l @ e # es) k"
    using assms(1,7) by (intro tracks_entries) (simp_all add: tracked_def)
  then obtain w where w: "wal ?n' = Some w" by (auto simp: tracks_def wal_has_def)
  obtain w2 m where m: "NewWAL (disk w) [] = (Inr w2, disk w)" "Node_Replay (NewNode i ps (Some w2)) = Some (Inr m)"
    "entries (log m) = ?l @ e # es"
    using restart [OF t [unfolded w], of i ps] assms(6) by auto
  have "length (entries (log ?n')) \<noteq> length (entries (log m))" using m(3) assms(4) by simp
  then have "log m \<noteq> log ?n'" by auto
  then show ?thesis using n' w m by (intro exI [of _ ?n'] exI [of _ w] exI [of _ w2] exI [of _ m]) simp
qed

text \<open>A follower with one entry, in its log and in its WAL.\<close>

definition old_entry :: LogEntry where
  "old_entry = \<lparr>le_Term = 1, le_Index = 1, le_Command = ''x''\<rparr>"

definition new_entry :: LogEntry where
  "new_entry = \<lparr>le_Term = 2, le_Index = 1, le_Command = ''y''\<rparr>"

theorem restart_undoes_truncation_witness:
  "\<exists>n n' w w2 m. tracked n 1 \<and> entries (log n) = [sentinel, old_entry] \<and>
     append_entries_loop 1 [new_entry] n = Some n' \<and> wal n' = Some w \<and>
     entries (log n') = [sentinel, new_entry] \<and>
     Node_Replay (NewNode ''a'' [''b''] (Some w2)) = Some (Inr m) \<and>
     entries (log m) = [sentinel, old_entry, new_entry]"
proof -
  obtain w0 where w0: "tracked (NewNode ''a'' [''b''] (Some w0)) (length [old_entry] + 1)"
    using new_node_tracked [of 2 "''a''" "[''b'']"] by (auto simp: numeral_2_eq_2)
  let ?n0 = "NewNode ''a'' [''b''] (Some w0)"
  have fit: "list_all (\<lambda>e. fits (entry_rec e)) [old_entry]" "list_all (\<lambda>e. fits (entry_rec e)) [new_entry]"
    by code_simp+
  have log0: "entries (log ?n0) = [sentinel]" by (simp add: NewNode_def NewRaftLog_def)
  then have nc: "no_conflict (log ?n0) 1 [old_entry]" by (simp add: Contains_iff max_len_def)
  obtain n where n: "append_entries_loop 1 [old_entry] ?n0 = Some n" "entries (log n) = [sentinel, old_entry]"
    using log0 by (auto simp: Contains_iff max_len_def Append_def go_append_def)
  have tr: "tracked n 1" by (rule append_loop_tracked [OF w0 nc fit(1) n(1)])
  have ok: "log_ok (log n)"
    by (simp add: log_ok_def n(2) entries_ok_def max_len_def old_entry_def less_Suc_eq sentinel_def)
  have "\<exists>n' w w2 m. append_entries_loop 1 [new_entry] n = Some n' \<and> wal n' = Some w \<and>
      entries (log n') = take (unat (1::LogIndex)) (entries (log n)) @ [new_entry] \<and>
      NewWAL (disk w) [] = (Inr w2, disk w) \<and>
      Node_Replay (NewNode ''a'' [''b''] (Some w2)) = Some (Inr m) \<and>
      entries (log m) = entries (log n) @ [new_entry] \<and> log m \<noteq> log n'"
    by (rule restart_undoes_truncation [where k = 0])
      (use tr ok n(2) fit(2) in \<open>simp_all add: old_entry_def new_entry_def max_len_def\<close>)
  moreover have "take (unat (1::LogIndex)) (entries (log n)) @ [new_entry] = [sentinel, new_entry]"
    "entries (log n) @ [new_entry] = [sentinel, old_entry, new_entry]" by (simp_all add: n(2))
  ultimately show ?thesis using tr n(2) by metis
qed

end
