(* ===== verification/Raft_Wal_Errors.thy ===== *)
theory Raft_Wal_Errors
  imports Raft_Replication
begin

text \<open>
  What the handlers do when the write-ahead log fails: they log the error and go on. Replies and
  the state in memory are those of a node without a WAL, whatever the outcome of the writes.
  Only \<open>SubmitCommand\<close> reports a failed write to its caller, and even then the entry stays in the
  log and is replicated.
\<close>

definition without_wal :: "Node \<Rightarrow> Node" where
  "without_wal n = n\<lparr>wal := None\<rparr>"

lemma without_wal_sel [simp]:
  "node_id (without_wal n) = node_id n" "peers (without_wal n) = peers n"
  "currentTerm (without_wal n) = currentTerm n" "votedFor (without_wal n) = votedFor n"
  "log (without_wal n) = log n" "state (without_wal n) = state n"
  "commitIndex (without_wal n) = commitIndex n" "wal (without_wal n) = None"
  "heartbeatTimer (without_wal n) = heartbeatTimer n" "replicateCancel (without_wal n) = replicateCancel n"
  "cancelled (without_wal n) = cancelled n"
  by (simp_all add: without_wal_def)

lemma without_wal_upd [simp]:
  "without_wal (n\<lparr>currentTerm := t\<rparr>) = (without_wal n)\<lparr>currentTerm := t\<rparr>"
  "without_wal (n\<lparr>votedFor := v\<rparr>) = (without_wal n)\<lparr>votedFor := v\<rparr>"
  "without_wal (n\<lparr>state := s\<rparr>) = (without_wal n)\<lparr>state := s\<rparr>"
  "without_wal (n\<lparr>leaderID := v\<rparr>) = (without_wal n)\<lparr>leaderID := v\<rparr>"
  "without_wal (n\<lparr>votes := k\<rparr>) = (without_wal n)\<lparr>votes := k\<rparr>"
  "without_wal (n\<lparr>votesReceived := m\<rparr>) = (without_wal n)\<lparr>votesReceived := m\<rparr>"
  "without_wal (n\<lparr>log := l\<rparr>) = (without_wal n)\<lparr>log := l\<rparr>"
  "without_wal (n\<lparr>commitIndex := i\<rparr>) = (without_wal n)\<lparr>commitIndex := i\<rparr>"
  "without_wal (n\<lparr>heartbeatTimer := tm\<rparr>) = (without_wal n)\<lparr>heartbeatTimer := tm\<rparr>"
  "without_wal (n\<lparr>electionTimer := tm\<rparr>) = (without_wal n)\<lparr>electionTimer := tm\<rparr>"
  "without_wal (n\<lparr>cancelled := cs\<rparr>) = (without_wal n)\<lparr>cancelled := cs\<rparr>"
  "without_wal (n\<lparr>replicateCancel := rc\<rparr>) = (without_wal n)\<lparr>replicateCancel := rc\<rparr>"
  "without_wal (n\<lparr>wal := w\<rparr>) = without_wal n"
  by (simp_all add: without_wal_def)

lemma without_wal_persist [simp]:
  "without_wal (persist f n) = without_wal n" "persist f (without_wal n) = without_wal n"
  "wal n = None \<Longrightarrow> persist f n = n"
  by (auto simp: persist_def without_wal_def split: option.split)

lemma without_wal_persist_entries [simp]:
  "without_wal (persist_entries es n) = without_wal n"
  "wal n = None \<Longrightarrow> persist_entries es n = n"
  by (induction es arbitrary: n) simp_all

lemma persist_timer [simp]: "heartbeatTimer (persist f n) = heartbeatTimer n"
  by (simp add: persist_def split: option.split)

lemma without_wal_reset [simp]:
  "without_wal (resetElectionTimerLocked rnd n) = resetElectionTimerLocked rnd (without_wal n)"
  by (simp add: resetElectionTimerLocked_def)

lemma without_wal_cancel [simp]:
  "without_wal (cancel_replication n) = cancel_replication (without_wal n)"
  by (simp add: cancel_replication_def split: option.split)

lemma without_wal_becomeFollower [simp]:
  "without_wal (becomeFollowerLocked rnd t n) = becomeFollowerLocked rnd t (without_wal n)"
  by (simp add: becomeFollowerLocked_def Let_def)

lemma without_wal_accept [simp]:
  "without_wal (accept_leader rnd args n) = accept_leader rnd args (without_wal n)"
  by (simp add: accept_leader_def step_down_same_term_def Let_def)

lemma without_wal_loop:
  "map_option without_wal (append_entries_loop idx es n) = append_entries_loop idx es (without_wal n)"
  by (induction idx es n rule: append_entries_loop.induct)
    (auto split: option.splits bind_splits simp: option.map_comp comp_def)

text \<open>
  C28. Failed writes are not seen by peers. Starting an election, a vote request and an
  AppendEntries request leave the node in the same state, up to the WAL itself, and send the same
  messages as on a node that has no WAL; so whether the term, the vote or the entries reached the
  disk makes no difference to the reply.
\<close>

theorem wal_failures_ignored:
  "map_option (map_prod without_wal id) (startElection rnd n) = startElection rnd (without_wal n) \<and>
   map_option (map_prod without_wal id) (HandleRequestVote rnd rv n) =
     HandleRequestVote rnd rv (without_wal n) \<and>
   map_option (map_prod without_wal id) (HandleAppendEntries rnd ae n) =
     HandleAppendEntries rnd ae (without_wal n)"
proof (intro conjI)
  show "map_option (map_prod without_wal id) (startElection rnd n) = startElection rnd (without_wal n)"
    by (simp add: startElection_def Let_def LastTerm_def)
  have up: "isLogUpToDate (without_wal m) t i = isLogUpToDate m t i" for m t i
    by (cases "LastTerm (log m)") (simp_all add: isLogUpToDate_def)
  let ?n1 = "if rv_Term rv > currentTerm n then becomeFollowerLocked rnd (rv_Term rv) n else n"
  have n1: "(if rv_Term rv > currentTerm (without_wal n)
      then becomeFollowerLocked rnd (rv_Term rv) (without_wal n) else without_wal n) = without_wal ?n1" by simp
  show "map_option (map_prod without_wal id) (HandleRequestVote rnd rv n) =
      HandleRequestVote rnd rv (without_wal n)"
    unfolding HandleRequestVote_def Let_def n1
    by (cases "isLogUpToDate ?n1 (rv_LastLogTerm rv) (rv_LastLogIndex rv)") (simp_all add: up)
  let ?n3 = "accept_leader rnd ae n"
  have "check_prev ae (without_wal ?n3) = check_prev ae ?n3" unfolding check_prev_def without_wal_sel ..
  then have chk: "check_prev ae (accept_leader rnd ae (without_wal n)) = check_prev ae ?n3" by simp
  let ?loop = "append_entries_loop (ae_PrevLogIndex ae + 1) (ae_Entries ae)"
  have loop: "?loop (accept_leader rnd ae (without_wal n)) = map_option without_wal (?loop ?n3)"
    using without_wal_loop [of _ _ ?n3] by simp
  have upd: "without_wal (update_commit i m) = update_commit i (without_wal m)" for i m
    by (simp add: update_commit_def)
  show "map_option (map_prod without_wal id) (HandleAppendEntries rnd ae n) =
      HandleAppendEntries rnd ae (without_wal n)"
    unfolding HandleAppendEntries_def Let_def
    by (cases "check_prev ae ?n3"; cases "?loop ?n3") (auto simp: chk loop upd split: option.split)
qed

text \<open>
  A failed write does not undo a client command. When the WAL refuses the entry,
  \<open>SubmitCommand\<close> reports the error to the client, but the entry is in the leader's log, from
  where it is replicated and committed like any other.
\<close>

theorem submit_failed_write_keeps_entry:
  assumes "state n = Leader" and "wal n = Some w" and "Suc (length (entries (log n))) < max_len"
    and "PersistEntry (LastIndex (log n) + 1) (currentTerm n) cmd w = (Some e, w1)"
  shows "\<exists>n'. SubmitCommand cmd n polls = Some (n', Inl (SubmitWal e)) \<and>
    entries (log n') = entries (log n) @
      [\<lparr>le_Term = currentTerm n, le_Index = LastIndex (log n) + 1, le_Command = cmd\<rparr>]"
  using assms by (simp add: SubmitCommand_def submit_append_def Let_def Append_def go_append_def)

definition failing_wal :: WAL where
  "failing_wal = \<lparr>disk = [], cur_file = Some ''wal_000001.log'', closed = False, fileID = 1, fileSize = 0,
     io = [IoErr 3]\<rparr>"

theorem submit_failed_write_keeps_entry_witness:
  "\<exists>n'. SubmitCommand ''x'' ((NewNode ''a'' [''b''] (Some failing_wal))\<lparr>state := Leader\<rparr>) [] =
      Some (n', Inl (SubmitWal ErrWrite)) \<and> length (entries (log n')) = 2"
proof -
  let ?n = "(NewNode ''a'' [''b''] (Some failing_wal))\<lparr>state := Leader\<rparr>"
  have idx: "LastIndex (log ?n) + 1 = 1" "currentTerm ?n = 0"
    by (simp_all add: NewNode_def NewRaftLog_def LastIndex_def go_len_def)
  have "length (marshal_EntryRecord \<lparr>er_Index = 1, er_Term = 0, er_Command = ''x''\<rparr>) < 100" by code_simp
  then obtain w1 where "PersistEntry (LastIndex (log ?n) + 1) (currentTerm ?n) ''x'' failing_wal = (Some ErrWrite, w1)"
    unfolding idx
    by (simp add: PersistEntry_def wal_Append_def failing_wal_def write_file_def io_next_def maxWALSize_def)
  from submit_failed_write_keeps_entry [OF _ _ _ this, of "[]"]
  show ?thesis by (auto simp: NewNode_def NewRaftLog_def max_len_def)
qed

end
