(* ===== verification/Go_Strings.thy ===== *)
theory Go_Strings
  imports Raft_Prelude
begin

text \<open>
  The functions of Go's packages \<open>strings\<close> and \<open>path/filepath\<close> that the sources use: \<open>Split\<close> and
  \<open>SplitN\<close> at a one-byte separator, \<open>TrimSpace\<close> with the Unicode white space in UTF-8,
  \<open>TrimPrefix\<close>, and \<open>filepath.Join\<close> with the cleaning of its result on Unix.
\<close>

section \<open>Splitting\<close>

fun Split :: "char \<Rightarrow> string \<Rightarrow> string list" where
  "Split sep [] = [[]]"
| "Split sep (c # cs) =
     (if c = sep then [] # Split sep cs
      else case Split sep cs of [] \<Rightarrow> [[c]] | p # ps \<Rightarrow> (c # p) # ps)"

text \<open>\<open>SplitN(s, sep, 2)\<close>: at the first separator, if there is one.\<close>

definition Split2 :: "char \<Rightarrow> string \<Rightarrow> string list" where
  "Split2 sep s =
     (if sep \<in> set s then [takeWhile (\<lambda>c. c \<noteq> sep) s, drop 1 (dropWhile (\<lambda>c. c \<noteq> sep) s)] else [s])"

fun join :: "char \<Rightarrow> string list \<Rightarrow> string" where
  "join sep [] = []"
| "join sep [p] = p"
| "join sep (p # q # ps) = p @ sep # join sep (q # ps)"

lemma Split_ne [simp]: "Split sep s \<noteq> []"
  by (cases s) (auto split: list.split)

lemma Split_no_sep: "sep \<notin> set p \<Longrightarrow> Split sep p = [p]"
  by (induction p) auto

lemma Split_append: "sep \<notin> set p \<Longrightarrow> Split sep (p @ sep # s) = p # Split sep s"
  by (induction p) auto

lemma Split_join: "ps \<noteq> [] \<Longrightarrow> \<forall>p \<in> set ps. sep \<notin> set p \<Longrightarrow> Split sep (join sep ps) = ps"
  by (induction sep ps rule: join.induct) (auto simp: Split_no_sep Split_append)

lemma Split_free: "p \<in> set (Split sep s) \<Longrightarrow> sep \<notin> set p"
  by (induction s arbitrary: p) (auto split: if_splits list.splits)

lemma Split2_pair: "sep \<notin> set a \<Longrightarrow> Split2 sep (a @ sep # b) = [a, b]"
  by (simp add: Split2_def takeWhile_append dropWhile_append)

lemma Split2_length: "length (Split2 sep s) = 2 \<longleftrightarrow> sep \<in> set s"
  by (simp add: Split2_def)

section \<open>White space\<close>

definition has_prefix :: "string \<Rightarrow> string \<Rightarrow> bool" where
  "has_prefix r s \<longleftrightarrow> take (length r) s = r"

definition has_suffix :: "string \<Rightarrow> string \<Rightarrow> bool" where
  "has_suffix r s \<longleftrightarrow> length r \<le> length s \<and> drop (length s - length r) s = r"

text \<open>The encodings of the runes for which \<open>unicode.IsSpace\<close> holds.\<close>

definition space_runes :: "string list" where
  "space_runes =
     [[CHR 0x09], [CHR 0x0A], [CHR 0x0B], [CHR 0x0C], [CHR 0x0D], [CHR 0x20],
      [CHR 0xC2, CHR 0x85], [CHR 0xC2, CHR 0xA0], [CHR 0xE1, CHR 0x9A, CHR 0x80],
      [CHR 0xE2, CHR 0x80, CHR 0x80], [CHR 0xE2, CHR 0x80, CHR 0x81], [CHR 0xE2, CHR 0x80, CHR 0x82],
      [CHR 0xE2, CHR 0x80, CHR 0x83], [CHR 0xE2, CHR 0x80, CHR 0x84], [CHR 0xE2, CHR 0x80, CHR 0x85],
      [CHR 0xE2, CHR 0x80, CHR 0x86], [CHR 0xE2, CHR 0x80, CHR 0x87], [CHR 0xE2, CHR 0x80, CHR 0x88],
      [CHR 0xE2, CHR 0x80, CHR 0x89], [CHR 0xE2, CHR 0x80, CHR 0x8A], [CHR 0xE2, CHR 0x80, CHR 0xA8],
      [CHR 0xE2, CHR 0x80, CHR 0xA9], [CHR 0xE2, CHR 0x80, CHR 0xAF], [CHR 0xE2, CHR 0x81, CHR 0x9F],
      [CHR 0xE3, CHR 0x80, CHR 0x80]]"

lemma space_runes_ne: "r \<in> set space_runes \<Longrightarrow> r \<noteq> []"
  by (auto simp: space_runes_def)

function trim_left :: "string \<Rightarrow> string" where
  "trim_left s =
     (case find (\<lambda>r. has_prefix r s) space_runes of
        None \<Rightarrow> s
      | Some r \<Rightarrow> trim_left (drop (length r) s))"
  by pat_completeness auto
termination
proof (relation "measure length", goal_cases)
  case (2 s r)
  then have "r \<in> set space_runes" "has_prefix r s" by (auto simp: find_Some_iff)
  with space_runes_ne [of r] show ?case by (cases s) (auto simp: has_prefix_def)
qed simp

function trim_right :: "string \<Rightarrow> string" where
  "trim_right s =
     (case find (\<lambda>r. has_suffix r s) space_runes of
        None \<Rightarrow> s
      | Some r \<Rightarrow> trim_right (take (length s - length r) s))"
  by pat_completeness auto
termination
proof (relation "measure length", goal_cases)
  case (2 s r)
  then have "r \<in> set space_runes" "has_suffix r s" by (auto simp: find_Some_iff)
  with space_runes_ne [of r] show ?case by (cases r) (auto simp: has_suffix_def)
qed simp

declare trim_left.simps [simp del] trim_right.simps [simp del]

definition TrimSpace :: "string \<Rightarrow> string" where
  "TrimSpace s = trim_right (trim_left s)"

definition TrimPrefix :: "string \<Rightarrow> string \<Rightarrow> string" where
  "TrimPrefix s p = (if has_prefix p s then drop (length p) s else s)"

text \<open>A string without white space at its ends.\<close>

definition trimmed :: "string \<Rightarrow> bool" where
  "trimmed s \<longleftrightarrow> list_all (\<lambda>r. \<not> has_prefix r s \<and> \<not> has_suffix r s) space_runes"

lemma find_rune_None:
  "find P space_runes = None \<longleftrightarrow> list_all (\<lambda>r. \<not> P r) space_runes"
  by (auto simp: find_None_iff list_all_iff)

lemma trim_left_fix: "list_all (\<lambda>r. \<not> has_prefix r s) space_runes \<Longrightarrow> trim_left s = s"
  by (subst trim_left.simps) (simp flip: find_rune_None)

lemma trim_right_fix: "list_all (\<lambda>r. \<not> has_suffix r s) space_runes \<Longrightarrow> trim_right s = s"
  by (subst trim_right.simps) (simp flip: find_rune_None)

lemma trim_left_free: "list_all (\<lambda>r. \<not> has_prefix r (trim_left s)) space_runes"
proof (induction s rule: trim_left.induct)
  case (1 s)
  then show ?case
    by (subst trim_left.simps) (auto simp: find_rune_None split: option.split)
qed

lemma trim_right_free: "list_all (\<lambda>r. \<not> has_suffix r (trim_right s)) space_runes"
proof (induction s rule: trim_right.induct)
  case (1 s)
  then show ?case
    by (subst trim_right.simps) (auto simp: find_rune_None split: option.split)
qed

lemma trim_right_prefix: "\<exists>t. s = trim_right s @ t"
proof (induction s rule: trim_right.induct)
  case (1 s)
  show ?case
  proof (cases "find (\<lambda>r. has_suffix r s) space_runes")
    case None
    then show ?thesis by (subst trim_right.simps) simp
  next
    case (Some r)
    let ?u = "take (length s - length r) s"
    from 1 [OF Some] obtain t where "?u = trim_right ?u @ t" by blast
    then have "s = trim_right ?u @ t @ drop (length s - length r) s"
      by (metis append.assoc append_take_drop_id)
    moreover have "trim_right s = trim_right ?u" by (subst trim_right.simps) (simp add: Some)
    ultimately show ?thesis by auto
  qed
qed

lemma trim_left_suffix: "\<exists>t. s = t @ trim_left s"
proof (induction s rule: trim_left.induct)
  case (1 s)
  show ?case
  proof (cases "find (\<lambda>r. has_prefix r s) space_runes")
    case None
    then show ?thesis by (subst trim_left.simps) simp
  next
    case (Some r)
    with 1 obtain t where "drop (length r) s = t @ trim_left (drop (length r) s)" by blast
    then have "s = (take (length r) s @ t) @ trim_left (drop (length r) s)"
      by (metis append.assoc append_take_drop_id)
    moreover have "trim_left s = trim_left (drop (length r) s)"
      by (subst trim_left.simps) (simp add: Some)
    ultimately show ?thesis by metis
  qed
qed

lemma set_TrimSpace: "set (TrimSpace s) \<subseteq> set s"
proof -
  obtain t u where "s = t @ trim_left s" "trim_left s = TrimSpace s @ u"
    using trim_left_suffix trim_right_prefix unfolding TrimSpace_def by blast
  then have "s = t @ TrimSpace s @ u" by simp
  then show ?thesis by (metis Un_iff set_append subsetI)
qed

lemma has_prefix_append: "has_prefix r s \<Longrightarrow> has_prefix r (s @ t)"
  unfolding has_prefix_def by (metis append_eq_conv_conj append_take_drop_id append.assoc)

lemma TrimSpace_trimmed: "trimmed (TrimSpace s)"
proof -
  obtain t where "trim_left s = TrimSpace s @ t"
    using trim_right_prefix unfolding TrimSpace_def by blast
  then have "has_prefix r (TrimSpace s) \<Longrightarrow> has_prefix r (trim_left s)" for r
    by (simp add: has_prefix_append)
  then show ?thesis
    using trim_left_free [of s] trim_right_free [of "trim_left s"]
    unfolding trimmed_def list_all_iff TrimSpace_def by blast
qed

lemma TrimSpace_fix: "trimmed s \<Longrightarrow> TrimSpace s = s"
  by (simp add: trimmed_def TrimSpace_def trim_left_fix trim_right_fix list_all_iff)

lemma TrimSpace_fixpoint: "TrimSpace s = s \<longleftrightarrow> trimmed s"
  by (metis TrimSpace_fix TrimSpace_trimmed)

lemma TrimSpace_idem [simp]: "TrimSpace (TrimSpace s) = TrimSpace s"
  by (simp add: TrimSpace_fix TrimSpace_trimmed)

lemma trimmed_Nil [simp]: "trimmed []"
  by (simp add: trimmed_def space_runes_def has_prefix_def has_suffix_def)

lemma TrimPrefix_append [simp]: "TrimPrefix (p @ s) p = s"
  by (simp add: TrimPrefix_def has_prefix_def)

section \<open>Paths\<close>

definition clean_step :: "bool \<Rightarrow> string list \<Rightarrow> string \<Rightarrow> string list" where
  "clean_step rooted out c =
     (if c = [] \<or> c = ''.'' then out
      else if c = ''..'' then
        (if out \<noteq> [] \<and> last out \<noteq> ''..'' then butlast out
         else if rooted then out else out @ [''..''])
      else out @ [c])"

definition filepath_Clean :: "string \<Rightarrow> string" where
  "filepath_Clean path =
     (if path = [] then ''.''
      else let rooted = (hd path = CHR ''/'');
               s = (if rooted then ''/'' else []) @
                   join (CHR ''/'') (foldl (clean_step rooted) [] (Split (CHR ''/'') path))
           in if s = [] then ''.'' else s)"

definition filepath_Join :: "string list \<Rightarrow> string" where
  "filepath_Join elems =
     (let rest = dropWhile (\<lambda>e. e = []) elems
      in if rest = [] then [] else filepath_Clean (join (CHR ''/'') rest))"

text \<open>A name of one path component.\<close>

definition plain_name :: "string \<Rightarrow> bool" where
  "plain_name c \<longleftrightarrow> c \<noteq> [] \<and> c \<noteq> ''.'' \<and> c \<noteq> ''..'' \<and> CHR ''/'' \<notin> set c"

lemma clean_step_plain: "plain_name c \<Longrightarrow> clean_step rooted out c = out @ [c]"
  by (simp add: plain_name_def clean_step_def)

lemma Split_snoc: "sep \<notin> set c \<Longrightarrow> Split sep (s @ sep # c) = Split sep s @ [c]"
proof (induction s)
  case (Cons a s)
  then show ?case by (cases "Split sep s") (auto simp: Split_no_sep)
qed (simp add: Split_no_sep)

lemma clean_step_comps:
  "\<forall>c \<in> set cs \<union> set out. CHR ''/'' \<notin> set c \<Longrightarrow> \<forall>c \<in> set (foldl (clean_step rooted) out cs). CHR ''/'' \<notin> set c"
proof (induction cs arbitrary: out)
  case (Cons a cs)
  have "\<forall>c \<in> set (clean_step rooted out a). CHR ''/'' \<notin> set c"
    using Cons(2) by (auto simp: clean_step_def dest: in_set_butlastD)
  then have "\<forall>c \<in> set cs \<union> set (clean_step rooted out a). CHR ''/'' \<notin> set c" using Cons(2) by auto
  then show ?case using Cons(1) by simp
qed simp

text \<open>Joining two plain names to a directory appends them to its cleaned components.\<close>

lemma filepath_Join_plain:
  assumes "plain_name d"
  shows "\<exists>root out. (\<forall>c \<in> set out. CHR ''/'' \<notin> set c) \<and>
    (\<forall>c. plain_name c \<longrightarrow> filepath_Join [dir, c, d] = root @ join (CHR ''/'') (out @ [c, d]))"
proof (cases "dir = []")
  case True
  have "filepath_Join [dir, c, d] = join (CHR ''/'') ([] @ [c, d])" if c: "plain_name c" for c
  proof -
    have "hd (c @ CHR ''/'' # d) \<noteq> CHR ''/''" using c by (cases c) (auto simp: plain_name_def)
    moreover have "Split (CHR ''/'') (c @ CHR ''/'' # d) = [c, d]"
      using c assms by (simp add: plain_name_def Split_append Split_no_sep)
    ultimately show ?thesis
      using True c assms by (simp add: filepath_Join_def filepath_Clean_def plain_name_def clean_step_def)
  qed
  then show ?thesis by (intro exI [of _ "[]"]) simp
next
  case False
  let ?r = "hd dir = CHR ''/''"
  let ?out = "foldl (clean_step ?r) [] (Split (CHR ''/'') dir)"
  have "filepath_Join [dir, c, d] = (if ?r then ''/'' else []) @ join (CHR ''/'') (?out @ [c, d])"
    if c: "plain_name c" for c
  proof -
    have "Split (CHR ''/'') (dir @ CHR ''/'' # c @ CHR ''/'' # d) = Split (CHR ''/'') dir @ [c, d]"
      using Split_snoc [of "CHR ''/''" d "dir @ CHR ''/'' # c"] Split_snoc [of "CHR ''/''" c dir] c assms
      by (simp add: plain_name_def)
    then have "foldl (clean_step ?r) [] (Split (CHR ''/'') (dir @ CHR ''/'' # c @ CHR ''/'' # d)) = ?out @ [c, d]"
      using c assms by (simp add: clean_step_plain)
    moreover have "join (CHR ''/'') (?out @ [c, d]) \<noteq> []"
      using c by (cases ?out rule: remdups_adj.cases) (auto simp: plain_name_def)
    moreover have "hd (dir @ CHR ''/'' # c @ CHR ''/'' # d) = hd dir" using False by simp
    ultimately show ?thesis using False by (simp add: filepath_Join_def filepath_Clean_def Let_def)
  qed
  moreover have "\<forall>c \<in> set ?out. CHR ''/'' \<notin> set c"
    by (rule clean_step_comps) (use Split_free in auto)
  ultimately show ?thesis by blast
qed

lemma filepath_Join_inj:
  assumes "plain_name c" "plain_name c'" "plain_name d" "filepath_Join [dir, c, d] = filepath_Join [dir, c', d]"
  shows "c = c'"
proof -
  obtain root out where o: "\<forall>c \<in> set out. CHR ''/'' \<notin> set c"
    "\<forall>c. plain_name c \<longrightarrow> filepath_Join [dir, c, d] = root @ join (CHR ''/'') (out @ [c, d])"
    using filepath_Join_plain [OF assms(3)] by blast
  then have "join (CHR ''/'') (out @ [c, d]) = join (CHR ''/'') (out @ [c', d])" using assms by auto
  moreover have "Split (CHR ''/'') (join (CHR ''/'') (out @ [x, d])) = out @ [x, d]" if "plain_name x" for x
    using o(1) that assms(3) by (intro Split_join) (auto simp: plain_name_def)
  ultimately have "out @ [c, d] = out @ [c', d]" using assms(1,2) by metis
  then show ?thesis by simp
qed

end
