(* ===== verification/Server_Config.thy ===== *)
theory Server_Config
  imports Raft_Types Go_Strings
begin

text \<open>
  The server configuration (\<open>internal/config/config.go\<close>): the \<open>Config\<close> struct, the command-line
  flags as package \<open>flag\<close> parses them, \<open>Parse\<close>, \<open>parseAddrMap\<close> and \<open>ParseFromEnv\<close>.  A wrong
  flag ends the process (\<open>flag.ExitOnError\<close>), which is the outcome \<open>Exits\<close> with the exit code.
\<close>

section \<open>The code\<close>

record Config =
  cfg_NodeID :: NodeID
  cfg_Peers :: "NodeID list"
  cfg_HTTPAddr :: string
  cfg_GRPCAddr :: string
  cfg_DataDir :: string
  cfg_PeerGRPCAddrs :: "NodeID \<rightharpoonup> string"
  cfg_PeerHTTPAddrs :: "NodeID \<rightharpoonup> string"

text \<open>The errors, each with the data its message prints.\<close>

datatype config_error =
  NodeIDRequired
| InvalidPair string
| ParsePeerGRPC config_error
| ParsePeerHTTP config_error

fun addr_map_loop :: "string list \<Rightarrow> (NodeID \<rightharpoonup> string) \<Rightarrow> config_error + (NodeID \<rightharpoonup> string)" where
  "addr_map_loop [] m = Inr m"
| "addr_map_loop (p # ps) m =
     (let pair = TrimSpace p in
      if pair = [] then addr_map_loop ps m
      else let parts = Split2 (CHR ''='') pair in
        if length parts \<noteq> 2 then Inl (InvalidPair pair)
        else addr_map_loop ps (m(TrimSpace (parts ! 0) \<mapsto> TrimSpace (parts ! 1))))"

definition parseAddrMap :: "string \<Rightarrow> config_error + (NodeID \<rightharpoonup> string)" where
  "parseAddrMap s = addr_map_loop (Split (CHR '','') s) Map.empty"

fun peers_loop :: "string list \<Rightarrow> NodeID list \<Rightarrow> NodeID list" where
  "peers_loop [] acc = acc"
| "peers_loop (p # ps) acc =
     (let p' = TrimSpace p in peers_loop ps (if p' \<noteq> [] then acc @ [p'] else acc))"

definition ParseFromEnv ::
  "string \<Rightarrow> string \<Rightarrow> string \<Rightarrow> string \<Rightarrow> string \<Rightarrow> string \<Rightarrow> string \<Rightarrow> config_error + Config" where
  "ParseFromEnv nodeID peers httpAddr grpcAddr dataDir peerGRPC peerHTTP =
     (let cfg = \<lparr> cfg_NodeID = nodeID, cfg_Peers = [], cfg_HTTPAddr = httpAddr,
                  cfg_GRPCAddr = grpcAddr, cfg_DataDir = dataDir,
                  cfg_PeerGRPCAddrs = Map.empty, cfg_PeerHTTPAddrs = Map.empty \<rparr>;
          cfg1 = (if peers \<noteq> [] then cfg\<lparr>cfg_Peers := peers_loop (Split (CHR '','') peers) []\<rparr> else cfg)
      in case (if peerGRPC \<noteq> [] then parseAddrMap peerGRPC else Inr (cfg_PeerGRPCAddrs cfg1)) of
           Inl err \<Rightarrow> Inl err
         | Inr grpc \<Rightarrow>
             (let cfg2 = cfg1\<lparr>cfg_PeerGRPCAddrs := grpc\<rparr>
              in case (if peerHTTP \<noteq> [] then parseAddrMap peerHTTP else Inr (cfg_PeerHTTPAddrs cfg2)) of
                   Inl err \<Rightarrow> Inl err
                 | Inr http \<Rightarrow> Inr (cfg2\<lparr>cfg_PeerHTTPAddrs := http\<rparr>)))"

text \<open>The seven flags with their defaults.\<close>

record Flags =
  fl_nodeID :: string
  fl_peers :: string
  fl_httpAddr :: string
  fl_grpcAddr :: string
  fl_dataDir :: string
  fl_peerGRPC :: string
  fl_peerHTTP :: string

definition flag_defaults :: Flags where
  "flag_defaults = \<lparr> fl_nodeID = [], fl_peers = [], fl_httpAddr = '':8080'', fl_grpcAddr = '':9090'',
     fl_dataDir = ''./data'', fl_peerGRPC = [], fl_peerHTTP = [] \<rparr>"

definition set_flag :: "string \<Rightarrow> string \<Rightarrow> Flags \<Rightarrow> Flags option" where
  "set_flag name v f =
     (if name = ''node-id'' then Some (f\<lparr>fl_nodeID := v\<rparr>)
      else if name = ''peers'' then Some (f\<lparr>fl_peers := v\<rparr>)
      else if name = ''http-addr'' then Some (f\<lparr>fl_httpAddr := v\<rparr>)
      else if name = ''grpc-addr'' then Some (f\<lparr>fl_grpcAddr := v\<rparr>)
      else if name = ''data-dir'' then Some (f\<lparr>fl_dataDir := v\<rparr>)
      else if name = ''peer-grpc-addrs'' then Some (f\<lparr>fl_peerGRPC := v\<rparr>)
      else if name = ''peer-http-addrs'' then Some (f\<lparr>fl_peerHTTP := v\<rparr>)
      else None)"

datatype 'a run_result = Exits int | Returns 'a

text \<open>
  \<open>FlagSet.Parse\<close> of the library on the arguments after the program name.  It stops at the first
  argument that is not a flag or at \<open>--\<close>; a flag is \<open>-name=value\<close> or \<open>-name value\<close> with one or
  two dashes.  \<open>-h\<close> and \<open>-help\<close> exit with code 0, every error with code 2.
\<close>

fun flag_Parse :: "string list \<Rightarrow> Flags \<Rightarrow> Flags run_result" where
  "flag_Parse [] f = Returns f"
| "flag_Parse (s # args) f =
     (if length s < 2 \<or> s ! 0 \<noteq> CHR ''-'' then Returns f
      else if s = ''--'' then Returns f
      else let name = (if s ! 1 = CHR ''-'' then drop 2 s else drop 1 s) in
        if name = [] \<or> hd name = CHR ''-'' \<or> hd name = CHR ''='' then Exits 2
        else let parts = Split2 (CHR ''='') name in
          if set_flag (hd parts) [] f = None then
            Exits (if hd parts = ''help'' \<or> hd parts = ''h'' then 0 else 2)
          else if length parts = 2 then
            (case set_flag (hd parts) (parts ! 1) f of None \<Rightarrow> Exits 2 | Some f' \<Rightarrow> flag_Parse args f')
          else (case args of
                  [] \<Rightarrow> Exits 2
                | v # rest \<Rightarrow>
                    (case set_flag (hd parts) v f of None \<Rightarrow> Exits 2 | Some f' \<Rightarrow> flag_Parse rest f')))"

definition Parse :: "string list \<Rightarrow> (config_error + Config) run_result" where
  "Parse args =
     (case flag_Parse args flag_defaults of
        Exits code \<Rightarrow> Exits code
      | Returns f \<Rightarrow> Returns
          (if fl_nodeID f = [] then Inl NodeIDRequired
           else
             let cfg = \<lparr> cfg_NodeID = fl_nodeID f, cfg_Peers = [], cfg_HTTPAddr = fl_httpAddr f,
                         cfg_GRPCAddr = fl_grpcAddr f, cfg_DataDir = fl_dataDir f,
                         cfg_PeerGRPCAddrs = Map.empty, cfg_PeerHTTPAddrs = Map.empty \<rparr>;
                 cfg1 = (if fl_peers f \<noteq> []
                         then cfg\<lparr>cfg_Peers := peers_loop (Split (CHR '','') (fl_peers f)) []\<rparr> else cfg)
             in case (if fl_peerGRPC f \<noteq> [] then parseAddrMap (fl_peerGRPC f)
                      else Inr (cfg_PeerGRPCAddrs cfg1)) of
                  Inl err \<Rightarrow> Inl (ParsePeerGRPC err)
                | Inr grpc \<Rightarrow>
                    (let cfg2 = cfg1\<lparr>cfg_PeerGRPCAddrs := grpc\<rparr>
                     in case (if fl_peerHTTP f \<noteq> [] then parseAddrMap (fl_peerHTTP f)
                              else Inr (cfg_PeerHTTPAddrs cfg2)) of
                          Inl err \<Rightarrow> Inl (ParsePeerHTTP err)
                        | Inr http \<Rightarrow> Inr (cfg2\<lparr>cfg_PeerHTTPAddrs := http\<rparr>))))"

section \<open>Address maps and peer lists\<close>

text \<open>
  The reference: the trimmed, non-empty pairs of the list; an error at the first one without
  \<open>=\<close>, otherwise the map in which a later pair overrides an earlier one.
\<close>

definition addr_pairs :: "string \<Rightarrow> string list" where
  "addr_pairs s = filter (\<lambda>p. p \<noteq> []) (map TrimSpace (Split (CHR '','') s))"

definition split_pair :: "string \<Rightarrow> string \<times> string" where
  "split_pair p = (TrimSpace (takeWhile (\<lambda>c. c \<noteq> CHR ''='') p),
                   TrimSpace (drop 1 (dropWhile (\<lambda>c. c \<noteq> CHR ''='') p)))"

lemma addr_map_loop_ref:
  "addr_map_loop ps m =
     (let qs = filter (\<lambda>p. p \<noteq> []) (map TrimSpace ps) in
      case find (\<lambda>p. CHR ''='' \<notin> set p) qs of
        Some p \<Rightarrow> Inl (InvalidPair p)
      | None \<Rightarrow> Inr (m ++ map_of (rev (map split_pair qs))))"
proof (induction ps arbitrary: m)
  case (Cons p ps)
  then show ?case
    by (auto simp: Let_def Split2_def split_pair_def split: option.split)
qed simp

lemma peers_loop_ref: "peers_loop ps acc = acc @ filter (\<lambda>p. p \<noteq> []) (map TrimSpace ps)"
  by (induction ps arbitrary: acc) (auto simp: Let_def)

text \<open>\<open>parseAddrMap\<close> reports the first non-empty pair without an equals sign, and otherwise
  returns the map in which each node has the trimmed address of its last pair; empty pairs are
  skipped.\<close>

theorem parseAddrMap_reference:
  "parseAddrMap s =
     (case find (\<lambda>p. CHR ''='' \<notin> set p) (addr_pairs s) of
        Some p \<Rightarrow> Inl (InvalidPair p)
      | None \<Rightarrow> Inr (map_of (rev (map split_pair (addr_pairs s)))))"
  by (simp add: parseAddrMap_def addr_map_loop_ref addr_pairs_def Let_def split: option.split)

lemma rune_chars: "r \<in> set space_runes \<Longrightarrow> CHR ''='' \<notin> set r \<and> CHR '','' \<notin> set r"
  by (auto simp: space_runes_def)

lemma no_rune_prefix:
  assumes "trimmed a" "r \<in> set space_runes"
  shows "\<not> has_prefix r (a @ CHR ''='' # b)"
proof
  assume p: "has_prefix r (a @ CHR ''='' # b)"
  show False
  proof (cases "length r \<le> length a")
    case True
    with p assms show False by (auto simp: trimmed_def list_all_iff has_prefix_def)
  next
    case False
    then obtain k where "length r = length a + Suc k" by (metis less_imp_Suc_add not_le add_Suc_right)
    with p have "r = a @ CHR ''='' # take k b" by (simp add: has_prefix_def)
    with rune_chars [OF assms(2)] show False by (metis in_set_conv_decomp)
  qed
qed

lemma no_rune_suffix:
  assumes "trimmed b" "r \<in> set space_runes"
  shows "\<not> has_suffix r (a @ CHR ''='' # b)"
proof
  assume "has_suffix r (a @ CHR ''='' # b)"
  then obtain u where u: "a @ CHR ''='' # b = u @ r"
    by (metis append_take_drop_id has_suffix_def)
  show False
  proof (cases "length r \<le> length b")
    case True
    have "b = drop (Suc (length a)) (u @ r)" by (simp flip: u)
    also have "\<dots> = drop (Suc (length a)) u @ r" using True arg_cong [OF u, of length] by simp
    finally have "has_suffix r b"
      by (metis append_eq_conv_conj diff_add_inverse2 has_suffix_def le_add2 length_append)
    with assms show False by (auto simp: trimmed_def list_all_iff)
  next
    case False
    then have "length u \<le> length a" using arg_cong [OF u, of length] by simp
    then have "CHR ''='' \<in> set r" using u by (auto simp: append_eq_append_conv2 Cons_eq_append_conv)
    with rune_chars [OF assms(2)] show False by simp
  qed
qed

lemma trimmed_join_eq: "trimmed a \<Longrightarrow> trimmed b \<Longrightarrow> trimmed (a @ CHR ''='' # b)"
  unfolding trimmed_def [of "a @ CHR ''='' # b"]
  by (simp add: list_all_iff no_rune_prefix no_rune_suffix)

text \<open>What a list of node ids or of address pairs may hold so that it can be written down.\<close>

definition id_ok :: "NodeID \<Rightarrow> bool" where
  "id_ok p \<longleftrightarrow> p \<noteq> [] \<and> trimmed p \<and> CHR '','' \<notin> set p"

definition pair_ok :: "NodeID \<times> string \<Rightarrow> bool" where
  "pair_ok q \<longleftrightarrow> trimmed (fst q) \<and> trimmed (snd q) \<and> CHR '','' \<notin> set (fst q) \<and>
     CHR '','' \<notin> set (snd q) \<and> CHR ''='' \<notin> set (fst q)"

definition show_pair :: "NodeID \<times> string \<Rightarrow> string" where
  "show_pair q = fst q @ CHR ''='' # snd q"

lemma split_pair_show: "pair_ok q \<Longrightarrow> split_pair (show_pair q) = q"
  by (cases q) (simp add: pair_ok_def split_pair_def show_pair_def TrimSpace_fix
      takeWhile_append dropWhile_append)

lemma addr_pairs_show:
  assumes "list_all pair_ok qs"
  shows "addr_pairs (join (CHR '','') (map show_pair qs)) = map show_pair qs"
proof (cases "qs = []")
  case True
  then show ?thesis by (simp add: addr_pairs_def TrimSpace_fix)
next
  case False
  have pairs: "CHR '','' \<notin> set (show_pair q)" "TrimSpace (show_pair q) = show_pair q"
    "show_pair q \<noteq> []" if "q \<in> set qs" for q
    using that assms
    by (auto simp: list_all_iff pair_ok_def show_pair_def TrimSpace_fixpoint trimmed_join_eq)
  have "Split (CHR '','') (join (CHR '','') (map show_pair qs)) = map show_pair qs"
    using False pairs by (intro Split_join) auto
  then show ?thesis using pairs by (simp add: addr_pairs_def comp_def cong: map_cong)
qed

lemma parse_show_pairs:
  assumes "list_all pair_ok qs" "distinct (map fst qs)"
  shows "parseAddrMap (join (CHR '','') (map show_pair qs)) = Inr (map_of qs)"
proof -
  let ?ps = "map show_pair qs"
  have "addr_map_loop (Split (CHR '','') (join (CHR '','') ?ps)) Map.empty =
      Inr (map_of (rev (map split_pair ?ps)))"
    using addr_pairs_show [OF assms(1)]
    by (auto simp: addr_map_loop_ref addr_pairs_def Let_def show_pair_def find_None_iff split: option.split
        dest!: find_Some_iff [THEN iffD1])
  moreover have "map split_pair ?ps = qs"
    using assms(1) by (induction qs) (auto simp: split_pair_show)
  moreover have "map_of (rev qs) = map_of qs"
    using assms(2) by (simp add: map_of_inject_set rev_map [symmetric])
  ultimately show ?thesis by (simp add: parseAddrMap_def)
qed

lemma parse_show_peers:
  assumes "list_all id_ok ps" "ps \<noteq> []"
  shows "peers_loop (Split (CHR '','') (join (CHR '','') ps)) [] = ps"
proof -
  have "Split (CHR '','') (join (CHR '','') ps) = ps"
    using assms by (intro Split_join) (auto simp: list_all_iff id_ok_def)
  moreover have "filter (\<lambda>p. p \<noteq> []) (map TrimSpace ps) = ps"
    using assms(1) by (induction ps) (auto simp: id_ok_def TrimSpace_fix)
  ultimately show ?thesis by (simp add: peers_loop_ref)
qed

section \<open>Flags\<close>

text \<open>
  One flag on the command line: one or two dashes, the value behind an equals sign or as the next
  argument.
\<close>

record flag_use =
  two_dashes :: bool
  with_equals :: bool
  flag_name :: string
  flag_value :: string

definition flag_args :: "flag_use \<Rightarrow> string list" where
  "flag_args u =
     (let s = (if two_dashes u then ''--'' else ''-'') @ flag_name u
      in if with_equals u then [s @ CHR ''='' # flag_value u] else [s, flag_value u])"

definition known_flag :: "flag_use \<Rightarrow> bool" where
  "known_flag u \<longleftrightarrow> flag_name u \<in> set [''node-id'', ''peers'', ''http-addr'', ''grpc-addr'',
     ''data-dir'', ''peer-grpc-addrs'', ''peer-http-addrs'']"

definition use_flag :: "flag_use \<Rightarrow> Flags \<Rightarrow> Flags" where
  "use_flag u f = (case set_flag (flag_name u) (flag_value u) f of None \<Rightarrow> f | Some f' \<Rightarrow> f')"

lemma known_flag_set:
  "known_flag u \<Longrightarrow> set_flag (flag_name u) v f \<noteq> None"
  by (auto simp: known_flag_def set_flag_def)

lemma known_flag_name:
  assumes "known_flag u"
  obtains c cs where "flag_name u = c # cs" "c \<noteq> CHR ''-''" "CHR ''='' \<notin> set (c # cs)"
  using assms that by (auto simp: known_flag_def)

lemma flag_Parse_use:
  assumes "known_flag u"
  shows "flag_Parse (flag_args u @ rest) f = flag_Parse rest (use_flag u f)"
proof -
  obtain c cs where name: "flag_name u = c # cs" "c \<noteq> CHR ''-''" "CHR ''='' \<notin> set (c # cs)"
    using known_flag_name [OF assms] by blast
  have known: "\<exists>f'. set_flag (c # cs) v f = Some f'" for v
    using known_flag_set [OF assms] name(1) by force
  have one: "Split2 (CHR ''='') (c # cs) = [c # cs]" using name(3) by (simp add: Split2_def)
  have two: "Split2 (CHR ''='') (c # cs @ CHR ''='' # v) = [c # cs, v]" for v
    using Split2_pair [OF name(3)] by simp
  obtain f0 f1 where "set_flag (c # cs) [] f = Some f0" "set_flag (c # cs) (flag_value u) f = Some f1"
    using known by blast
  then show ?thesis
    using name(2,3) by (auto simp: flag_args_def use_flag_def name(1) one two Let_def)
qed

lemma flag_Parse_uses:
  "list_all known_flag us \<Longrightarrow> flag_Parse (concat (map flag_args us)) f = Returns (fold use_flag us f)"
  by (induction us arbitrary: f) (auto simp: flag_Parse_use)

declare flag_Parse.simps [simp del]

text \<open>C30. Given any sequence of the seven flags, in any of the forms package \<open>flag\<close> accepts and
  with later ones overriding earlier ones, \<open>Parse\<close> demands a node id and then agrees with
  \<open>ParseFromEnv\<close> on the resulting values, except that it names the flag an invalid address list
  came from.\<close>

theorem Parse_flags_env:
  assumes "list_all known_flag us"
  shows "Parse (concat (map flag_args us)) =
    (let f = fold use_flag us flag_defaults in
     Returns (if fl_nodeID f = [] then Inl NodeIDRequired
       else case ParseFromEnv (fl_nodeID f) (fl_peers f) (fl_httpAddr f) (fl_grpcAddr f) (fl_dataDir f)
                   (fl_peerGRPC f) (fl_peerHTTP f) of
              Inr cfg \<Rightarrow> Inr cfg
            | Inl err \<Rightarrow> Inl (if fl_peerGRPC f \<noteq> [] \<and> parseAddrMap (fl_peerGRPC f) = Inl err
                            then ParsePeerGRPC err else ParsePeerHTTP err)))"
  unfolding Parse_def flag_Parse_uses [OF assms]
  by (simp add: ParseFromEnv_def Let_def split: sum.split)

theorem Parse_flags_env_witness:
  "Parse [''--node-id=n1'', ''-peers'', ''n2, n3'', ''--peers=n2'', ''-peer-grpc-addrs=n2''] =
   Returns (Inl (ParsePeerGRPC (InvalidPair ''n2'')))"
proof -
  let ?us = "[\<lparr>two_dashes = True, with_equals = True, flag_name = ''node-id'', flag_value = ''n1''\<rparr>,
    \<lparr>two_dashes = False, with_equals = False, flag_name = ''peers'', flag_value = ''n2, n3''\<rparr>,
    \<lparr>two_dashes = True, with_equals = True, flag_name = ''peers'', flag_value = ''n2''\<rparr>,
    \<lparr>two_dashes = False, with_equals = True, flag_name = ''peer-grpc-addrs'', flag_value = ''n2''\<rparr>]"
  have "list_all known_flag ?us" by (simp add: known_flag_def)
  note parse = Parse_flags_env [OF this]
  have "fold use_flag ?us flag_defaults = \<lparr> fl_nodeID = ''n1'', fl_peers = ''n2'', fl_httpAddr = '':8080'',
      fl_grpcAddr = '':9090'', fl_dataDir = ''./data'', fl_peerGRPC = ''n2'', fl_peerHTTP = [] \<rparr>"
    by (simp add: use_flag_def set_flag_def flag_defaults_def)
  moreover have "case parseAddrMap ''n2'' of Inl e \<Rightarrow> e = InvalidPair ''n2'' | Inr _ \<Rightarrow> False"
    by code_simp
  then have "parseAddrMap ''n2'' = Inl (InvalidPair ''n2'')" by (simp split: sum.splits)
  ultimately show ?thesis using parse by (simp add: flag_args_def ParseFromEnv_def Let_def)
qed

lemma Parse_returns:
  assumes "flag_Parse args flag_defaults = Returns f" "fl_nodeID f \<noteq> []"
    and "(if fl_peers f \<noteq> [] then peers_loop (Split (CHR '','') (fl_peers f)) [] else []) = ps"
    and "(if fl_peerGRPC f \<noteq> [] then parseAddrMap (fl_peerGRPC f) else Inr Map.empty) = Inr g"
    and "(if fl_peerHTTP f \<noteq> [] then parseAddrMap (fl_peerHTTP f) else Inr Map.empty) = Inr h"
  shows "Parse args = Returns (Inr \<lparr> cfg_NodeID = fl_nodeID f, cfg_Peers = ps,
    cfg_HTTPAddr = fl_httpAddr f, cfg_GRPCAddr = fl_grpcAddr f, cfg_DataDir = fl_dataDir f,
    cfg_PeerGRPCAddrs = g, cfg_PeerHTTPAddrs = h \<rparr>)"
  using assms by (simp add: Parse_def Let_def split: if_splits)

text \<open>C29. A configuration written as flags, with its peers and address maps as comma-separated
  lists, is read back unchanged.\<close>

theorem config_roundtrip:
  assumes "nodeID \<noteq> []" "list_all id_ok peers"
    and "list_all pair_ok grpc" "distinct (map fst grpc)"
    and "list_all pair_ok http" "distinct (map fst http)"
  shows "Parse [''--node-id='' @ nodeID, ''--peers='' @ join (CHR '','') peers,
      ''--http-addr='' @ httpAddr, ''--grpc-addr='' @ grpcAddr, ''--data-dir='' @ dataDir,
      ''--peer-grpc-addrs='' @ join (CHR '','') (map show_pair grpc),
      ''--peer-http-addrs='' @ join (CHR '','') (map show_pair http)] =
    Returns (Inr \<lparr> cfg_NodeID = nodeID, cfg_Peers = peers, cfg_HTTPAddr = httpAddr,
      cfg_GRPCAddr = grpcAddr, cfg_DataDir = dataDir,
      cfg_PeerGRPCAddrs = map_of grpc, cfg_PeerHTTPAddrs = map_of http \<rparr>)"
proof -
  let ?use = "\<lambda>nm v. \<lparr>two_dashes = True, with_equals = True, flag_name = nm, flag_value = v\<rparr>"
  let ?peers = "join (CHR '','') peers" and ?grpc = "join (CHR '','') (map show_pair grpc)"
    and ?http = "join (CHR '','') (map show_pair http)"
  let ?us = "[?use ''node-id'' nodeID, ?use ''peers'' ?peers, ?use ''http-addr'' httpAddr,
    ?use ''grpc-addr'' grpcAddr, ?use ''data-dir'' dataDir, ?use ''peer-grpc-addrs'' ?grpc,
    ?use ''peer-http-addrs'' ?http]"
  have "list_all known_flag ?us" by (simp add: known_flag_def)
  from flag_Parse_uses [OF this, of flag_defaults]
  have flags: "flag_Parse [''--node-id='' @ nodeID, ''--peers='' @ ?peers, ''--http-addr='' @ httpAddr,
      ''--grpc-addr='' @ grpcAddr, ''--data-dir='' @ dataDir, ''--peer-grpc-addrs='' @ ?grpc,
      ''--peer-http-addrs='' @ ?http] flag_defaults =
    Returns \<lparr> fl_nodeID = nodeID, fl_peers = ?peers, fl_httpAddr = httpAddr, fl_grpcAddr = grpcAddr,
      fl_dataDir = dataDir, fl_peerGRPC = ?grpc, fl_peerHTTP = ?http \<rparr>"
    by (simp add: flag_args_def use_flag_def set_flag_def flag_defaults_def)
  have "(if ?peers \<noteq> [] then peers_loop (Split (CHR '','') ?peers) [] else []) = peers"
    using parse_show_peers [OF assms(2)] assms(2)
    by (cases peers rule: remdups_adj.cases) (auto simp: id_ok_def)
  moreover have "(if ?grpc \<noteq> [] then parseAddrMap ?grpc else Inr Map.empty) = Inr (map_of grpc)"
    using parse_show_pairs [OF assms(3,4)]
    by (cases grpc rule: remdups_adj.cases) (auto simp: show_pair_def)
  moreover have "(if ?http \<noteq> [] then parseAddrMap ?http else Inr Map.empty) = Inr (map_of http)"
    using parse_show_pairs [OF assms(5,6)]
    by (cases http rule: remdups_adj.cases) (auto simp: show_pair_def)
  ultimately show ?thesis
    using Parse_returns [OF flags, unfolded Flags.select_convs, OF assms(1)] by blast
qed

theorem config_roundtrip_witness:
  "Parse [''--node-id=n1'', ''--peers=n2,n3'', ''--http-addr=:80'', ''--grpc-addr=:90'', ''--data-dir=d'',
     ''--peer-grpc-addrs=n2=a:1,n3=b:2'', ''--peer-http-addrs=''] =
   Returns (Inr \<lparr> cfg_NodeID = ''n1'', cfg_Peers = [''n2'', ''n3''], cfg_HTTPAddr = '':80'',
     cfg_GRPCAddr = '':90'', cfg_DataDir = ''d'',
     cfg_PeerGRPCAddrs = map_of [(''n2'', ''a:1''), (''n3'', ''b:2'')], cfg_PeerHTTPAddrs = map_of [] \<rparr>)"
proof -
  have "list_all id_ok [''n2'', ''n3'']" by code_simp
  moreover have "list_all pair_ok [(''n2'', ''a:1''), (''n3'', ''b:2'')]" by code_simp
  ultimately show ?thesis
    using config_roundtrip [of "''n1''" "[''n2'', ''n3'']" "[(''n2'', ''a:1''), (''n3'', ''b:2'')]" "[]"
        "'':80''" "'':90''" "''d''"]
    by (simp add: show_pair_def)
qed

section \<open>Well-formed configurations\<close>

definition config_ok :: "Config \<Rightarrow> bool" where
  "config_ok c \<longleftrightarrow>
     list_all id_ok (cfg_Peers c) \<and>
     (\<forall>p a. cfg_PeerGRPCAddrs c p = Some a \<longrightarrow> pair_ok (p, a)) \<and>
     (\<forall>p a. cfg_PeerHTTPAddrs c p = Some a \<longrightarrow> pair_ok (p, a))"

lemma peers_ok: "list_all id_ok (peers_loop (Split (CHR '','') s) [])"
  using Split_free set_TrimSpace
  by (fastforce simp: peers_loop_ref list_all_iff id_ok_def TrimSpace_trimmed)

lemma split_pair_ok:
  assumes "p \<in> set (addr_pairs s)"
  shows "pair_ok (split_pair p)"
proof -
  from assms obtain q where q: "q \<in> set (Split (CHR '','') s)" "p = TrimSpace q"
    by (auto simp: addr_pairs_def)
  have "CHR '','' \<notin> set p" using Split_free [OF q(1)] set_TrimSpace q(2) by blast
  moreover have "set (takeWhile (\<lambda>c. c \<noteq> CHR ''='') p) \<subseteq> set p - {CHR ''=''}"
    by (auto dest: set_takeWhileD)
  moreover have "set (drop 1 (dropWhile (\<lambda>c. c \<noteq> CHR ''='') p)) \<subseteq> set p"
    by (meson set_drop_subset set_dropWhileD subset_iff)
  ultimately show ?thesis
    using set_TrimSpace unfolding pair_ok_def split_pair_def fst_conv snd_conv
    by (blast intro: TrimSpace_trimmed)
qed

lemma addr_map_ok:
  assumes "(if s \<noteq> [] then parseAddrMap s else Inr Map.empty) = Inr m" "m p = Some a"
  shows "pair_ok (p, a)"
proof -
  have "m = map_of (rev (map split_pair (addr_pairs s)))"
    using assms by (auto simp: parseAddrMap_def addr_map_loop_ref addr_pairs_def Let_def
        split: if_splits option.splits)
  with assms(2) have "(p, a) \<in> split_pair ` set (addr_pairs s)" by (auto dest: map_of_SomeD)
  then show ?thesis using split_pair_ok by (metis imageE)
qed

text \<open>C31. Every configuration that \<open>Parse\<close> returns has a node id; its peers are non-empty and
  trimmed, and the node ids and addresses of its maps are trimmed and free of separators.\<close>

theorem Parse_config_ok:
  assumes "Parse args = Returns (Inr cfg)"
  shows "cfg_NodeID cfg \<noteq> [] \<and> config_ok cfg"
proof -
  from assms obtain f where f: "flag_Parse args flag_defaults = Returns f" "fl_nodeID f \<noteq> []"
    by (auto simp: Parse_def split: run_result.splits if_splits)
  let ?map = "\<lambda>s. if s \<noteq> [] then parseAddrMap s else Inr Map.empty"
  obtain g h where g: "?map (fl_peerGRPC f) = Inr g" and h: "?map (fl_peerHTTP f) = Inr h"
    using assms f by (auto simp: Parse_def Let_def split: sum.splits if_splits)
  have "cfg_NodeID cfg = fl_nodeID f" "cfg_PeerGRPCAddrs cfg = g" "cfg_PeerHTTPAddrs cfg = h"
    "cfg_Peers cfg = (if fl_peers f \<noteq> [] then peers_loop (Split (CHR '','') (fl_peers f)) [] else [])"
    using Parse_returns [OF f refl g h] assms by simp_all
  then show ?thesis
    using f(2) peers_ok addr_map_ok [OF g] addr_map_ok [OF h] unfolding config_ok_def by simp
qed

theorem Parse_config_ok_witness:
  "\<exists>cfg. Parse [''-node-id=a'', ''-peers= b ,,c''] = Returns (Inr cfg) \<and>
     cfg_NodeID cfg \<noteq> [] \<and> config_ok cfg \<and> cfg_Peers cfg = [''b'', ''c'']"
proof -
  have "flag_Parse [''-node-id=a'', ''-peers= b ,,c''] flag_defaults =
      Returns (flag_defaults\<lparr>fl_nodeID := ''a'', fl_peers := '' b ,,c''\<rparr>)"
    by code_simp
  moreover have "peers_loop (Split (CHR '','') '' b ,,c'') [] = [''b'', ''c'']" by code_simp
  ultimately have "Parse [''-node-id=a'', ''-peers= b ,,c''] =
      Returns (Inr \<lparr> cfg_NodeID = ''a'', cfg_Peers = [''b'', ''c''], cfg_HTTPAddr = '':8080'',
        cfg_GRPCAddr = '':9090'', cfg_DataDir = ''./data'',
        cfg_PeerGRPCAddrs = Map.empty, cfg_PeerHTTPAddrs = Map.empty \<rparr>)"
    using Parse_returns by (simp add: flag_defaults_def)
  from this Parse_config_ok [OF this] show ?thesis by auto
qed

end
