(* ===== verification/Http_Api.thy ===== *)
theory Http_Api
  imports Raft_Replication Kv_Store Go_Strings "HOL-Library.Char_ord" "HOL-Library.List_Lexorder"
begin

text \<open>
  The HTTP handlers of \<open>internal/api/handler.go\<close>.  A handler reads the node and the store in
  separate locked calls, between which other goroutines run; the record \<open>Seen\<close> holds what each
  call of one request finds.  The handlers that submit a command also return the node as
  \<open>SubmitCommand\<close> leaves it; \<open>None\<close> is a panic.  The text of an error of the WAL comes from the
  operating system and is the parameter \<open>wal_text\<close>.
\<close>

section \<open>Requests and responses\<close>

text \<open>
  \<open>req_Path\<close> is the decoded path \<open>r.URL.Path\<close>; \<open>req_BodyErr\<close> says that reading the body ends with
  an error, reported by a read of its own, instead of its end.
\<close>

record Request =
  req_Method :: string
  req_Path :: string
  req_Body :: bytes
  req_BodyErr :: bool

record Response =
  resp_Status :: nat
  resp_ContentType :: "string option"
  resp_Location :: "string option"
  resp_Body :: bytes

definition maxRequestBody :: nat where
  "maxRequestBody = 1048576"

text \<open>\<open>io.ReadAll(io.LimitReader(r.Body, maxRequestBody))\<close>.\<close>

definition read_limited :: "Request \<Rightarrow> bytes option" where
  "read_limited r =
     (if length (req_Body r) \<ge> maxRequestBody then Some (take maxRequestBody (req_Body r))
      else if req_BodyErr r then None else Some (req_Body r))"

text \<open>A Go map is encoded with its keys in order; a struct in the order of its fields.\<close>

definition json_map :: "(string \<times> bytes) list \<Rightarrow> bytes" where
  "json_map kvs = json_object (sort_key fst kvs)"

definition json_strings :: "string list \<Rightarrow> bytes" where
  "json_strings ss = CHR ''['' # join (CHR '','') (map json_string ss) @ [CHR '']'']"

definition marshal_NodeStatus :: "NodeStatus \<Rightarrow> bytes" where
  "marshal_NodeStatus s = json_object
     [(''node_id'', json_string (ns_NodeID s)), (''state'', json_string (ns_State s)),
      (''term'', json_uint64 (ns_Term s)), (''commit_index'', json_uint64 (ns_CommitIndex s)),
      (''last_applied'', json_uint64 (ns_LastApplied s)), (''peers'', json_strings (ns_Peers s)),
      (''leader_id'', json_string (ns_LeaderID s))]"

text \<open>\<open>writeJSON\<close>: the encoder ends the value with a newline.\<close>

definition writeJSON :: "nat \<Rightarrow> bytes \<Rightarrow> Response" where
  "writeJSON status v =
     \<lparr> resp_Status = status, resp_ContentType = Some ''application/json'', resp_Location = None,
       resp_Body = v @ [CHR 0x0A] \<rparr>"

definition error_body :: "string \<Rightarrow> bytes" where
  "error_body e = json_map [(''error'', json_string e)]"

section \<open>Redirects\<close>

definition hex_byte :: "char \<Rightarrow> string" where
  "hex_byte c = [CHR ''%'', hex_char (byte c div 16), hex_char (byte c mod 16)]"

definition hexEscapeNonASCII :: "string \<Rightarrow> string" where
  "hexEscapeNonASCII s = concat (map (\<lambda>c. if byte c \<ge> 128 then hex_byte c else [c]) s)"

definition htmlEscape :: "string \<Rightarrow> string" where
  "htmlEscape s = concat (map (\<lambda>c.
     if c = CHR ''&'' then ''&amp;'' else if c = CHR ''<'' then ''&lt;''
     else if c = CHR ''>'' then ''&gt;'' else if c = CHR 0x22 then ''&#34;''
     else if c = CHR 0x27 then ''&#39;'' else [c]) s)"

text \<open>\<open>http.Redirect\<close> with an absolute URL and status 307, on a response without headers.\<close>

definition Redirect :: "Request \<Rightarrow> string \<Rightarrow> Response" where
  "Redirect r url =
     \<lparr> resp_Status = 307,
       resp_ContentType = (if req_Method r = ''GET'' \<or> req_Method r = ''HEAD''
                           then Some ''text/html; charset=utf-8'' else None),
       resp_Location = Some (hexEscapeNonASCII url),
       resp_Body = (if req_Method r = ''GET''
                    then ''<a href='' @ CHR 0x22 # htmlEscape url @ CHR 0x22 # ''>Temporary Redirect</a>.'' @
                         [CHR 0x0A, CHR 0x0A]
                    else []) \<rparr>"

section \<open>The handlers\<close>

record Handler =
  h_peerHTTPAddrs :: "NodeID \<rightharpoonup> string"

definition NewHandler :: "(NodeID \<rightharpoonup> string) \<Rightarrow> Handler" where
  "NewHandler addrs = \<lparr> h_peerHTTPAddrs = addrs \<rparr>"

text \<open>
  What the calls of one request find: the node at \<open>IsLeader\<close>, the store at \<open>Get\<close>, the node at
  \<open>SubmitCommand\<close> and at its polls, the node at \<open>LeaderID\<close> and at \<open>Status\<close>.
\<close>

record Seen =
  at_IsLeader :: Node
  at_Get :: KVStore
  at_Submit :: Node
  at_polls :: "Node list"
  at_LeaderID :: Node
  at_Status :: Node

definition redirectToLeader :: "Handler \<Rightarrow> Seen \<Rightarrow> Request \<Rightarrow> Response" where
  "redirectToLeader h s r =
     (let leaderID = LeaderID (at_LeaderID s) in
      if leaderID = [] then
        writeJSON 503 (error_body (''no leader elected '' @ [CHR 0xE2, CHR 0x80, CHR 0x94] @ '' try again later''))
      else case h_peerHTTPAddrs h leaderID of
        None \<Rightarrow> writeJSON 503 (error_body ''leader address unknown'')
      | Some leaderAddr \<Rightarrow> Redirect r (''http://'' @ leaderAddr @ req_Path r))"

definition handleGet :: "Handler \<Rightarrow> Seen \<Rightarrow> Request \<Rightarrow> string \<Rightarrow> Response" where
  "handleGet h s r key =
     (if \<not> IsLeader (at_IsLeader s) then redirectToLeader h s r
      else let (val, ok) = Get (at_Get s) key in
        if \<not> ok then writeJSON 404 (error_body ''key not found'')
        else writeJSON 200 (json_map [(''key'', json_string key), (''value'', json_string val)]))"

text \<open>The anonymous struct of the body of a \<open>PUT\<close>: its one field \<open>value\<close>.\<close>

definition set_put_request :: "string \<Rightarrow> bytes \<Rightarrow> jval \<Rightarrow> string option" where
  "set_put_request old k v = (if field_match ''value'' k then set_string old v else Some old)"

definition unmarshal_put_request :: "bytes \<Rightarrow> string option" where
  "unmarshal_put_request = Unmarshal set_put_request []"

fun raft_error_text :: "raft_error \<Rightarrow> string" where
  "raft_error_text ErrNotLeader = ''not the leader''"
| "raft_error_text ErrTimeout = ''request timed out''"
| "raft_error_text ErrStopped = ''node is stopped''"

fun submit_error_text :: "(wal_error \<Rightarrow> string) \<Rightarrow> submit_error \<Rightarrow> string" where
  "submit_error_text wal_text (SubmitRaft e) = raft_error_text e"
| "submit_error_text wal_text (SubmitWal e) = wal_text e"

definition handlePut ::
  "(wal_error \<Rightarrow> string) \<Rightarrow> Handler \<Rightarrow> Seen \<Rightarrow> Request \<Rightarrow> string \<Rightarrow> (Node \<times> Response) option" where
  "handlePut wal_text h s r key =
     (if \<not> IsLeader (at_IsLeader s) then Some (at_Submit s, redirectToLeader h s r)
      else case read_limited r of
        None \<Rightarrow> Some (at_Submit s, writeJSON 400 (error_body ''failed to read body''))
      | Some body \<Rightarrow>
          (case unmarshal_put_request body of
             None \<Rightarrow> Some (at_Submit s, writeJSON 400 (error_body ''invalid JSON body''))
           | Some v \<Rightarrow>
               do { (n, res) \<leftarrow> SubmitCommand (SerializePut key v) (at_Submit s) (at_polls s);
                    Some (n,
                      case res of
                        Inl err \<Rightarrow>
                          (if err = SubmitRaft ErrNotLeader then redirectToLeader h s r
                           else writeJSON 500 (error_body (submit_error_text wal_text err)))
                      | Inr (index, term) \<Rightarrow>
                          writeJSON 200 (json_map
                            [(''key'', json_string key), (''value'', json_string v),
                             (''index'', json_uint64 index), (''term'', json_uint64 term)])) }))"

definition handleDelete ::
  "(wal_error \<Rightarrow> string) \<Rightarrow> Handler \<Rightarrow> Seen \<Rightarrow> Request \<Rightarrow> string \<Rightarrow> (Node \<times> Response) option" where
  "handleDelete wal_text h s r key =
     (if \<not> IsLeader (at_IsLeader s) then Some (at_Submit s, redirectToLeader h s r)
      else
        do { (n, res) \<leftarrow> SubmitCommand (SerializeDelete key) (at_Submit s) (at_polls s);
             Some (n,
               case res of
                 Inl err \<Rightarrow>
                   (if err = SubmitRaft ErrNotLeader then redirectToLeader h s r
                    else writeJSON 500 (error_body (submit_error_text wal_text err)))
               | Inr _ \<Rightarrow>
                   writeJSON 200 (json_map
                     [(''status'', json_string ''deleted''), (''key'', json_string key)])) })"

definition handleKV ::
  "(wal_error \<Rightarrow> string) \<Rightarrow> Handler \<Rightarrow> Seen \<Rightarrow> Request \<Rightarrow> (Node \<times> Response) option" where
  "handleKV wal_text h s r =
     (let key = TrimPrefix (req_Path r) ''/kv/'' in
      if key = [] then Some (at_Submit s, writeJSON 400 (error_body ''key is required''))
      else if req_Method r = ''GET'' then Some (at_Submit s, handleGet h s r key)
      else if req_Method r = ''PUT'' then handlePut wal_text h s r key
      else if req_Method r = ''DELETE'' then handleDelete wal_text h s r key
      else Some (at_Submit s, writeJSON 405 (error_body ''method not allowed'')))"

definition handleStatus :: "Seen \<Rightarrow> Request \<Rightarrow> Response" where
  "handleStatus s r =
     (if req_Method r \<noteq> ''GET'' then writeJSON 405 (error_body ''method not allowed'')
      else writeJSON 200 (marshal_NodeStatus (Status (at_Status s))))"

definition handleHealthz :: Response where
  "handleHealthz = writeJSON 200 (json_map [(''status'', json_string ''ok'')])"

text \<open>The lag is a difference of two conversions to \<open>int64\<close>, so it wraps like the words.\<close>

definition handleReadyz :: "Seen \<Rightarrow> Response" where
  "handleReadyz s =
     (let status = Status (at_Status s);
          lag = sint (ns_CommitIndex status - ns_LastApplied status)
      in if lag > 10 then
           writeJSON 503 (json_map [(''status'', json_string ''not ready''),
             (''reason'', json_string (''apply lag: '' @ show_nat (nat lag)))])
         else writeJSON 200 (json_map [(''status'', json_string ''ready'')]))"

section \<open>Routes\<close>

datatype route = RouteKV | RouteStatus | RouteHealthz | RouteReadyz

text \<open>
  The patterns of \<open>RegisterRoutes\<close> on a path the multiplexer has cleaned: a pattern that ends in
  a slash matches every path below it, any other only itself.
\<close>

definition RegisterRoutes :: "(string \<times> route) list" where
  "RegisterRoutes =
     [(''/kv/'', RouteKV), (''/status'', RouteStatus), (''/healthz'', RouteHealthz),
      (''/readyz'', RouteReadyz)]"

definition pattern_matches :: "string \<Rightarrow> string \<Rightarrow> bool" where
  "pattern_matches pat path \<longleftrightarrow> (if last pat = CHR ''/'' then has_prefix pat path else path = pat)"

text \<open>
  One request at a handler: \<open>None\<close> where no pattern of the handler matches, otherwise the outcome
  of the handler.
\<close>

definition serve ::
  "(wal_error \<Rightarrow> string) \<Rightarrow> Handler \<Rightarrow> Seen \<Rightarrow> Request \<Rightarrow> (Node \<times> Response) option option" where
  "serve wal_text h s r =
     (case find (\<lambda>(pat, _). pattern_matches pat (req_Path r)) RegisterRoutes of
        None \<Rightarrow> None
      | Some (_, RouteKV) \<Rightarrow> Some (handleKV wal_text h s r)
      | Some (_, RouteStatus) \<Rightarrow> Some (Some (at_Submit s, handleStatus s r))
      | Some (_, RouteHealthz) \<Rightarrow> Some (Some (at_Submit s, handleHealthz))
      | Some (_, RouteReadyz) \<Rightarrow> Some (Some (at_Submit s, handleReadyz s)))"

record Server =
  srv_Addr :: string
  srv_ReadTimeout :: int
  srv_WriteTimeout :: int
  srv_IdleTimeout :: int

text \<open>Durations in nanoseconds.\<close>

definition NewServer :: "string \<Rightarrow> Server" where
  "NewServer addr = \<lparr> srv_Addr = addr, srv_ReadTimeout = 5 * 1000000000,
     srv_WriteTimeout = 10 * 1000000000, srv_IdleTimeout = 60 * 1000000000 \<rparr>"

end
