(* ===== verification/Http_Laws.thy ===== *)
theory Http_Laws
  imports Http_Api Go_Json_Laws
begin

text \<open>
  What the HTTP handlers answer: their responses are JSON objects or redirects, a request changes
  the node only through \<open>SubmitCommand\<close>, a redirect leads to the same path at the leader as long
  as the path has no characters with a meaning in URLs, and readiness is the lag of the apply loop.
\<close>

section \<open>JSON bodies\<close>

definition json_fields :: "(string \<times> bytes) list \<Rightarrow> (string \<times> jval) list \<Rightarrow> bool" where
  "json_fields ms js \<longleftrightarrow> list_all2 (\<lambda>(k, v) (k', j). k' = coerce_utf8 k \<and> reads_as v j) ms js"

definition json_reply :: "Response \<Rightarrow> (string \<times> jval) list \<Rightarrow> bool" where
  "json_reply r js \<longleftrightarrow> resp_ContentType r = Some ''application/json'' \<and> resp_Location r = None \<and>
     json_parse (resp_Body r) = Some (JObj js)"

lemma json_parse_line:
  assumes "json_fields ms js" "ms \<noteq> []"
  shows "json_parse (json_object ms @ [CHR 0x0A]) = Some (JObj js)"
proof -
  let ?bs = "json_object ms @ [CHR 0x0A]"
  have "length ms < length ?bs" using json_members_length [of ms] by (simp add: json_object_def)
  then have pm: "parse_members (length ?bs) 1 (json_members ms @ CHR ''}'' # [CHR 0x0A]) =
      Some (js, [CHR 0x0A])"
    by (rule parse_json_members [OF assms [unfolded json_fields_def]])
  obtain k v ms' where "ms = (k, v) # ms'" using assms(2) by (cases ms) auto
  then obtain t where t: "json_members ms = CHR 0x22 # t" by (simp add: json_members_Cons json_string_def)
  have "parse_value (Suc (length ?bs)) 0 ?bs = Some (JObj js, [CHR 0x0A])"
    using pm by (simp add: json_object_def t max_depth_def del: parse_members.simps)
  then show ?thesis by (simp add: json_parse_def del: parse_value.simps)
qed

lemma writeJSON_reply:
  assumes "json_fields (sort_key fst ms) js" "ms \<noteq> []"
  shows "json_reply (writeJSON status (json_map ms)) js"
proof -
  have "sort_key fst ms \<noteq> []" using assms(2) by (metis length_0_conv length_sort)
  then show ?thesis
    using json_parse_line [OF assms(1)] by (simp add: json_reply_def writeJSON_def json_map_def)
qed

text \<open>The keys of the replies, in order.\<close>

lemma key_order:
  "''key'' \<le> ''value''" "\<not> ''value'' \<le> ''index''" "\<not> ''key'' \<le> ''index''" "''index'' \<le> ''term''"
  "\<not> ''value'' \<le> ''term''" "''key'' \<le> ''term''" "\<not> ''term'' \<le> ''key''" "\<not> ''status'' \<le> ''key''"
  "\<not> ''status'' \<le> ''reason''" "\<not> ''value'' \<le> ''key''" "''index'' \<le> ''key''" "''index'' \<le> ''value''"
  "''term'' \<le> ''value''"
  by code_simp+

lemma key_names:
  "coerce_utf8 ''key'' = ''key''" "coerce_utf8 ''value'' = ''value''" "coerce_utf8 ''index'' = ''index''"
  "coerce_utf8 ''term'' = ''term''" "coerce_utf8 ''status'' = ''status''"
  "coerce_utf8 ''reason'' = ''reason''" "coerce_utf8 ''error'' = ''error''"
  by code_simp+

lemma json_fields_simps [simp]:
  "json_fields [] []"
  "json_fields ((k, v) # ms) ((k', j) # js) \<longleftrightarrow> k' = coerce_utf8 k \<and> reads_as v j \<and> json_fields ms js"
  by (simp_all add: json_fields_def)

lemmas reply_simps = key_order key_names reads_json_string reads_json_uint64

lemma error_reply: "json_reply (writeJSON status (error_body e)) [(''error'', JStr (coerce_utf8 e))]"
  unfolding error_body_def by (rule writeJSON_reply) (simp_all add: reply_simps)

lemma get_reply:
  "json_reply (writeJSON status (json_map [(''key'', json_string k), (''value'', json_string v)]))
     [(''key'', JStr (coerce_utf8 k)), (''value'', JStr (coerce_utf8 v))]"
  by (rule writeJSON_reply) (simp_all add: reply_simps)

lemma put_reply:
  "json_reply (writeJSON status (json_map [(''key'', json_string k), (''value'', json_string v),
      (''index'', json_uint64 i), (''term'', json_uint64 t)]))
     [(''index'', JNum (show_nat (unat i))), (''key'', JStr (coerce_utf8 k)),
      (''term'', JNum (show_nat (unat t))), (''value'', JStr (coerce_utf8 v))]"
  by (rule writeJSON_reply) (simp_all add: reply_simps)

lemma delete_reply:
  "json_reply (writeJSON status (json_map [(''status'', json_string s), (''key'', json_string k)]))
     [(''key'', JStr (coerce_utf8 k)), (''status'', JStr (coerce_utf8 s))]"
  by (rule writeJSON_reply) (simp_all add: reply_simps)

section \<open>Outcomes of a request\<close>

definition wellformed_reply :: "Response \<Rightarrow> bool" where
  "wellformed_reply r \<longleftrightarrow>
     (if resp_Status r = 307 then resp_Location r \<noteq> None
      else resp_Status r \<in> {200, 400, 404, 405, 500, 503} \<and> (\<exists>js. js \<noteq> [] \<and> json_reply r js))"

lemma status_writeJSON [simp]: "resp_Status (writeJSON status v) = status"
  by (simp add: writeJSON_def)

lemma wellformed_error:
  "status \<in> {400, 404, 405, 500, 503} \<Longrightarrow> wellformed_reply (writeJSON status (error_body e))"
  using error_reply by (auto simp: wellformed_reply_def)

lemma wellformed_ok: "json_reply (writeJSON 200 v) js \<Longrightarrow> js \<noteq> [] \<Longrightarrow> wellformed_reply (writeJSON 200 v)"
  by (auto simp: wellformed_reply_def)

lemma wellformed_redirect: "wellformed_reply (redirectToLeader h s r)"
  by (auto simp: redirectToLeader_def Let_def wellformed_error split: option.split)
    (simp add: wellformed_reply_def Redirect_def)

lemmas wellformed_intros = wellformed_error wellformed_redirect wellformed_ok [OF get_reply]
  wellformed_ok [OF put_reply] wellformed_ok [OF delete_reply]

lemma wellformed_get: "wellformed_reply (handleGet h s r key)"
  by (auto simp: handleGet_def wellformed_intros split: prod.split)

definition submit_failure :: "(wal_error \<Rightarrow> string) \<Rightarrow> Handler \<Rightarrow> Seen \<Rightarrow> Request \<Rightarrow> submit_error \<Rightarrow> Response" where
  "submit_failure wt h s r err =
     (if err = SubmitRaft ErrNotLeader then redirectToLeader h s r
      else writeJSON 500 (error_body (submit_error_text wt err)))"

lemma handlePut_cases [consumes 1, case_names redirected bad_body failed stored]:
  assumes "handlePut wt h s r key = Some (n', resp)"
  obtains "n' = at_Submit s" "resp = redirectToLeader h s r"
  | e where "n' = at_Submit s" "resp = writeJSON 400 (error_body e)"
  | body v err where "read_limited r = Some body" "unmarshal_put_request body = Some v"
      "SubmitCommand (SerializePut key v) (at_Submit s) (at_polls s) = Some (n', Inl err)"
      "resp = submit_failure wt h s r err"
  | body v i t where "read_limited r = Some body" "unmarshal_put_request body = Some v"
      "SubmitCommand (SerializePut key v) (at_Submit s) (at_polls s) = Some (n', Inr (i, t))"
      "resp = writeJSON 200 (json_map [(''key'', json_string key), (''value'', json_string v),
         (''index'', json_uint64 i), (''term'', json_uint64 t)])"
proof (cases "IsLeader (at_IsLeader s)")
  case False
  with assms that(1) show thesis by (simp add: handlePut_def)
next
  case True
  note def = assms [unfolded handlePut_def, simplified True, simplified]
  show thesis
  proof (cases "Option.bind (read_limited r) unmarshal_put_request")
    case None
    with def that(2) show thesis by (auto split: option.splits)
  next
    case (Some v)
    then obtain body where b: "read_limited r = Some body" "unmarshal_put_request body = Some v"
      by (auto simp: bind_eq_Some_conv)
    with def obtain n res where sub: "SubmitCommand (SerializePut key v) (at_Submit s) (at_polls s) = Some (n, res)"
      by (auto simp: bind_eq_Some_conv)
    show thesis
      by (cases res) (use def b sub that(3,4) [OF b] in \<open>auto simp: submit_failure_def split: if_splits\<close>)
  qed
qed

lemma handleDelete_cases [consumes 1, case_names redirected failed deleted]:
  assumes "handleDelete wt h s r key = Some (n', resp)"
  obtains "n' = at_Submit s" "resp = redirectToLeader h s r"
  | err where "SubmitCommand (SerializeDelete key) (at_Submit s) (at_polls s) = Some (n', Inl err)"
      "resp = submit_failure wt h s r err"
  | i t where "SubmitCommand (SerializeDelete key) (at_Submit s) (at_polls s) = Some (n', Inr (i, t))"
      "resp = writeJSON 200 (json_map [(''status'', json_string ''deleted''), (''key'', json_string key)])"
proof (cases "IsLeader (at_IsLeader s)")
  case False
  with assms that(1) show thesis by (simp add: handleDelete_def)
next
  case True
  note def = assms [unfolded handleDelete_def, simplified True, simplified]
  then obtain n res where sub: "SubmitCommand (SerializeDelete key) (at_Submit s) (at_polls s) = Some (n, res)"
    by (auto simp: bind_eq_Some_conv)
  show thesis
    by (cases res) (use def sub that(2,3) in \<open>auto simp: submit_failure_def split: if_splits\<close>)
qed

lemma wellformed_failure: "wellformed_reply (submit_failure wt h s r err)"
  by (simp add: submit_failure_def wellformed_intros)

lemma handlePut_reply: "handlePut wt h s r key = Some (n', resp) \<Longrightarrow> wellformed_reply resp"
  by (erule handlePut_cases) (simp_all add: wellformed_intros wellformed_failure)

lemma handleDelete_reply: "handleDelete wt h s r key = Some (n', resp) \<Longrightarrow> wellformed_reply resp"
  by (erule handleDelete_cases) (simp_all add: wellformed_intros wellformed_failure)

text \<open>Whatever the request, the node and the store, a request under \<open>/kv/\<close> that returns is
  answered by a redirect with a location or by one of six statuses with a body that parses as a
  non-empty JSON object.\<close>

theorem kv_reply_wellformed:
  assumes "handleKV wt h s r = Some (n', resp)"
  shows "wellformed_reply resp"
  using assms wellformed_get wellformed_error handlePut_reply handleDelete_reply
  by (auto simp: handleKV_def Let_def split: if_splits)

theorem kv_reply_wellformed_witness:
  "\<exists>n' resp. handleKV (\<lambda>_. []) (NewHandler Map.empty)
       \<lparr> at_IsLeader = NewNode ''a'' [''b''] None, at_Get = NewKVStore, at_Submit = NewNode ''a'' [''b''] None,
         at_polls = [], at_LeaderID = NewNode ''a'' [''b''] None, at_Status = NewNode ''a'' [''b''] None \<rparr>
       \<lparr> req_Method = ''GET'', req_Path = ''/kv/k'', req_Body = [], req_BodyErr = False \<rparr> = Some (n', resp) \<and>
     resp_Status resp = 503 \<and> wellformed_reply resp"
proof -
  let ?n = "NewNode ''a'' [''b''] None"
  let ?s = "\<lparr> at_IsLeader = ?n, at_Get = NewKVStore, at_Submit = ?n, at_polls = [], at_LeaderID = ?n,
    at_Status = ?n \<rparr>"
  let ?r = "\<lparr> req_Method = ''GET'', req_Path = ''/kv/k'', req_Body = [], req_BodyErr = False \<rparr>"
  have kv: "handleKV (\<lambda>_. []) (NewHandler Map.empty) ?s ?r =
      Some (?n, handleGet (NewHandler Map.empty) ?s ?r ''k'')"
    by (simp add: handleKV_def TrimPrefix_def has_prefix_def Let_def)
  moreover have "resp_Status (handleGet (NewHandler Map.empty) ?s ?r ''k'') = 503"
    by (simp add: handleGet_def IsLeader_def NewNode_def redirectToLeader_def LeaderID_def)
  ultimately show ?thesis using kv_reply_wellformed [OF kv] by blast
qed

text \<open>The one command a request may submit.\<close>

definition request_command :: "Request \<Rightarrow> string \<Rightarrow> bytes option" where
  "request_command r key =
     (if req_Method r = ''DELETE'' then Some (SerializeDelete key)
      else if req_Method r = ''PUT'' then
        map_option (SerializePut key) (Option.bind (read_limited r) unmarshal_put_request)
      else None)"

lemma SubmitCommand_appends:
  assumes "SubmitCommand cmd n polls = Some (n', res)" "n' \<noteq> n"
  shows "state n = Leader \<and> entries (log n') =
    entries (log n) @ [\<lparr>le_Term = currentTerm n, le_Index = LastIndex (log n) + 1, le_Command = cmd\<rparr>]"
proof -
  obtain r where "submit_append cmd n = Some (n', r)"
    using assms(1) by (auto simp: SubmitCommand_def bind_eq_Some_conv)
  then show ?thesis
    by (cases rule: submit_append_cases)
      (use assms(2) in \<open>auto simp: Append_def go_append_def bind_eq_Some_conv split: if_splits\<close>)
qed

lemma status_redirect: "resp_Status (redirectToLeader h s r) \<noteq> 200"
  by (simp add: redirectToLeader_def Let_def Redirect_def split: option.split)

lemma status_failure: "resp_Status (submit_failure wt h s r err) \<noteq> 200"
  by (simp add: submit_failure_def status_redirect)

lemma handlePut_submits:
  assumes "handlePut wt h s r key = Some (n', resp)" "req_Method r = ''PUT''"
    and "n' \<noteq> at_Submit s \<or> resp_Status resp = 200"
  shows "\<exists>cmd res. request_command r key = Some cmd \<and>
    SubmitCommand cmd (at_Submit s) (at_polls s) = Some (n', res) \<and> (resp_Status resp = 200 \<longleftrightarrow> \<not> isl res)"
  using assms(1)
proof (cases rule: handlePut_cases)
  case (failed body v err)
  have "request_command r key = Some (SerializePut key v)"
    using failed assms(2) by (simp add: request_command_def)
  moreover have "resp_Status resp = 200 \<longleftrightarrow> \<not> isl (Inl err)" using failed by (simp add: status_failure)
  ultimately show ?thesis using failed(3) by blast
next
  case (stored body v i t)
  have "request_command r key = Some (SerializePut key v)"
    using stored assms(2) by (simp add: request_command_def)
  moreover have "resp_Status resp = 200 \<longleftrightarrow> \<not> isl (Inr (i, t))" using stored by simp
  ultimately show ?thesis using stored(3) by blast
qed (use assms(3) status_redirect in auto)

lemma handleDelete_submits:
  assumes "handleDelete wt h s r key = Some (n', resp)" "req_Method r = ''DELETE''"
    and "n' \<noteq> at_Submit s \<or> resp_Status resp = 200"
  shows "\<exists>cmd res. request_command r key = Some cmd \<and>
    SubmitCommand cmd (at_Submit s) (at_polls s) = Some (n', res) \<and> (resp_Status resp = 200 \<longleftrightarrow> \<not> isl res)"
  using assms(1)
proof (cases rule: handleDelete_cases)
  case (failed err)
  moreover have "resp_Status resp = 200 \<longleftrightarrow> \<not> isl (Inl err)" using failed by (simp add: status_failure)
  moreover have "request_command r key = Some (SerializeDelete key)"
    using assms(2) by (simp add: request_command_def)
  ultimately show ?thesis by blast
next
  case (deleted i t)
  moreover have "resp_Status resp = 200 \<longleftrightarrow> \<not> isl (Inr (i, t))" using deleted by simp
  moreover have "request_command r key = Some (SerializeDelete key)"
    using assms(2) by (simp add: request_command_def)
  ultimately show ?thesis by blast
qed (use assms(3) status_redirect in auto)

text \<open>C32. A request under \<open>/kv/\<close> changes the node only by submitting the command its method, key
  and body stand for, which appends exactly one entry to the log of a leader; a write is answered
  with status 200 exactly when \<open>SubmitCommand\<close> acknowledged that command, so a \<open>GET\<close> and
  every rejected request leave the node as it was.\<close>

theorem kv_changes_only_by_submit:
  assumes "handleKV wt h s r = Some (n', resp)"
    and "n' \<noteq> at_Submit s \<or> resp_Status resp = 200 \<and> req_Method r \<noteq> ''GET''"
  shows "\<exists>cmd res. request_command r (TrimPrefix (req_Path r) ''/kv/'') = Some cmd \<and>
    SubmitCommand cmd (at_Submit s) (at_polls s) = Some (n', res) \<and>
    (resp_Status resp = 200 \<longleftrightarrow> \<not> isl res) \<and>
    (n' = at_Submit s \<or> state (at_Submit s) = Leader \<and>
      entries (log n') = entries (log (at_Submit s)) @
        [\<lparr>le_Term = currentTerm (at_Submit s), le_Index = LastIndex (log (at_Submit s)) + 1,
          le_Command = cmd\<rparr>])"
proof -
  let ?key = "TrimPrefix (req_Path r) ''/kv/''"
  have "\<exists>cmd res. request_command r ?key = Some cmd \<and>
      SubmitCommand cmd (at_Submit s) (at_polls s) = Some (n', res) \<and> (resp_Status resp = 200 \<longleftrightarrow> \<not> isl res)"
    using assms handlePut_submits [of wt h s r ?key n' resp] handleDelete_submits [of wt h s r ?key n' resp]
    by (auto simp: handleKV_def Let_def split: if_splits)
  then show ?thesis using SubmitCommand_appends by metis
qed

definition lone_leader :: Node where
  "lone_leader = (NewNode ''a'' [''b''] None)\<lparr>state := Leader, leaderID := ''a''\<rparr>"

definition seen_leader :: "KVStore \<Rightarrow> Seen" where
  "seen_leader kv = \<lparr> at_IsLeader = lone_leader, at_Get = kv, at_Submit = lone_leader, at_polls = [],
     at_LeaderID = lone_leader, at_Status = lone_leader \<rparr>"

definition put_request :: Request where
  "put_request = \<lparr> req_Method = ''PUT'', req_Path = ''/kv/k'',
     req_Body = CHR ''{'' # CHR 0x22 # ''value'' @ CHR 0x22 # CHR '':'' # CHR 0x22 # ''v'' @ [CHR 0x22, CHR ''}''],
     req_BodyErr = False \<rparr>"

theorem kv_changes_only_by_submit_witness:
  "\<exists>n' resp cmd. handleKV (\<lambda>_. []) (NewHandler Map.empty) (seen_leader NewKVStore) put_request = Some (n', resp) \<and>
     n' \<noteq> lone_leader \<and> resp_Status resp = 500 \<and> request_command put_request ''k'' = Some cmd \<and>
     entries (log n') = [sentinel, \<lparr>le_Term = 0, le_Index = 1, le_Command = cmd\<rparr>]"
proof -
  have "case handleKV (\<lambda>_. []) (NewHandler Map.empty) (seen_leader NewKVStore) put_request of None \<Rightarrow> False
    | Some (n', resp) \<Rightarrow> length (entries (log n')) = 2 \<and> resp_Status resp = 500"
    by code_simp
  then obtain n' resp where h:
    "handleKV (\<lambda>_. []) (NewHandler Map.empty) (seen_leader NewKVStore) put_request = Some (n', resp)"
    "length (entries (log n')) = 2" "resp_Status resp = 500"
    by (auto split: option.splits)
  have log: "entries (log lone_leader) = [sentinel]" "currentTerm lone_leader = 0"
    by (simp_all add: lone_leader_def NewNode_def NewRaftLog_def)
  have seen: "at_Submit (seen_leader NewKVStore) = lone_leader" by (simp add: seen_leader_def)
  have neq: "n' \<noteq> lone_leader" using h(2) log(1) by auto
  have key: "TrimPrefix (req_Path put_request) ''/kv/'' = ''k''" by code_simp
  have "LastIndex (log lone_leader) + 1 = 1" by code_simp
  with kv_changes_only_by_submit [OF h(1)] neq show ?thesis
    unfolding seen key log using h(1,3) by auto
qed

section \<open>Redirects\<close>

text \<open>
  The path of an absolute \<open>http\<close> URL as \<open>net/url\<close> parses it: the fragment and the query are cut
  off, what precedes the first slash of the rest is the host, and percent escapes are decoded.
\<close>

fun unescape_path :: "string \<Rightarrow> string option" where
  "unescape_path [] = Some []"
| "unescape_path (c # cs) =
     (if c \<noteq> CHR ''%'' then map_option (Cons c) (unescape_path cs)
      else case cs of
        a # b # r \<Rightarrow>
          (case (hex_val a, hex_val b) of
             (Some x, Some y) \<Rightarrow> map_option (Cons (char_of (16 * x + y))) (unescape_path r)
           | _ \<Rightarrow> None)
      | _ \<Rightarrow> None)"

definition url_path :: "string \<Rightarrow> string option" where
  "url_path url =
     (let u = takeWhile (\<lambda>c. c \<noteq> CHR ''#'') url in
      if \<not> list_all (\<lambda>c. 32 \<le> byte c \<and> byte c \<noteq> 127) u \<or> \<not> has_prefix ''http://'' u then None
      else unescape_path (dropWhile (\<lambda>c. c \<noteq> CHR ''/'') (takeWhile (\<lambda>c. c \<noteq> CHR ''?'') (drop 7 u))))"

definition url_plain :: "string \<Rightarrow> bool" where
  "url_plain s \<longleftrightarrow> list_all (\<lambda>c. 32 \<le> byte c \<and> byte c \<noteq> 127 \<and> c \<notin> {CHR ''#'', CHR ''?'', CHR ''%''}) s"

lemma hexEscape_simps [simp]:
  "hexEscapeNonASCII [] = []" "hexEscapeNonASCII (s @ t) = hexEscapeNonASCII s @ hexEscapeNonASCII t"
  "hexEscapeNonASCII (c # s) = (if byte c \<ge> 128 then hex_byte c else [c]) @ hexEscapeNonASCII s"
  by (simp_all add: hexEscapeNonASCII_def)

lemma nibbles: "byte c div 16 < 16" "byte c mod 16 < 16" "16 * (byte c div 16) + byte c mod 16 = byte c"
proof -
  show "byte c div 16 < 16" by (rule less_mult_imp_div_less) simp
qed simp_all

lemma unescape_hexEscape:
  "url_plain s \<Longrightarrow> unescape_path (hexEscapeNonASCII s) = Some s"
proof (induction s)
  case (Cons c s)
  have "hex_val (hex_char (byte c div 16)) = Some (byte c div 16)"
    "hex_val (hex_char (byte c mod 16)) = Some (byte c mod 16)"
    "char_of (16 * (byte c div 16) + byte c mod 16) = c"
    by (simp_all add: hex_val_hex_char nibbles)
  with Cons show ?case by (auto simp: url_plain_def hex_byte_def)
qed simp

lemma hex_char_plain:
  assumes "n < 16"
  shows "32 \<le> byte (hex_char n) \<and> byte (hex_char n) < 127 \<and> hex_char n \<notin> {CHR ''#'', CHR ''?'', CHR ''/''}"
proof -
  have "n \<in> set [0..<16]" using assms by simp
  moreover have "list_all (\<lambda>n. 32 \<le> byte (hex_char n) \<and> byte (hex_char n) < 127 \<and>
      hex_char n \<notin> {CHR ''#'', CHR ''?'', CHR ''/''}) [0..<16]" by code_simp
  ultimately show ?thesis unfolding list_all_iff by blast
qed

lemma hexEscape_chars:
  assumes "c \<in> set (hexEscapeNonASCII s)"
  shows "c \<in> set s \<or> 32 \<le> byte c \<and> byte c < 127 \<and> c \<notin> {CHR ''#'', CHR ''?'', CHR ''/''}"
proof -
  obtain d where d: "d \<in> set s" "c \<in> set (if byte d \<ge> 128 then hex_byte d else [d])"
    using assms by (auto simp: hexEscapeNonASCII_def)
  from hex_char_plain [OF nibbles(1) [of d]] hex_char_plain [OF nibbles(2) [of d]] d show ?thesis
    by (auto simp: hex_byte_def split: if_splits)
qed

lemma hexEscape_free:
  assumes "url_plain s" "c \<in> set (hexEscapeNonASCII s)"
  shows "32 \<le> byte c \<and> byte c \<noteq> 127 \<and> c \<noteq> CHR ''#'' \<and> c \<noteq> CHR ''?''"
proof (cases "c \<in> set s")
  case True
  then show ?thesis using assms(1) unfolding url_plain_def list_all_iff by blast
next
  case False
  with hexEscape_chars [OF assms(2)] have "32 \<le> byte c" "byte c < 127" "c \<noteq> CHR ''#''" "c \<noteq> CHR ''?''"
    by blast+
  then show ?thesis by linarith
qed

lemma url_path_eq:
  assumes "url_plain addr" "CHR ''/'' \<notin> set addr" "url_plain p"
    and "t = [] \<or> hd t = CHR ''?'' \<and> list_all (\<lambda>c. 32 \<le> byte c \<and> byte c \<noteq> 127 \<and> c \<noteq> CHR ''#'') t"
  shows "url_path (''http://'' @ hexEscapeNonASCII addr @ CHR ''/'' # hexEscapeNonASCII p @ t) =
    Some (CHR ''/'' # p)"
proof -
  let ?a = "hexEscapeNonASCII addr" and ?p = "hexEscapeNonASCII p"
  let ?u = "''http://'' @ ?a @ CHR ''/'' # ?p @ t"
  have a: "c \<in> set ?a \<Longrightarrow> 32 \<le> byte c \<and> byte c \<noteq> 127 \<and> c \<noteq> CHR ''#'' \<and> c \<noteq> CHR ''?'' \<and> c \<noteq> CHR ''/''" for c
    using hexEscape_free [OF assms(1)] hexEscape_chars [of c addr] assms(2) by blast
  note p = hexEscape_free [OF assms(3)]
  have t: "list_all (\<lambda>c. 32 \<le> byte c \<and> byte c \<noteq> 127 \<and> c \<noteq> CHR ''#'') t"
    "takeWhile (\<lambda>c. c \<noteq> CHR ''?'') t = []"
    using assms(4) by (cases t; auto)+
  have all: "c \<in> set ?u \<Longrightarrow> 32 \<le> byte c \<and> byte c \<noteq> 127 \<and> c \<noteq> CHR ''#''" for c
    using a p t(1) by (auto simp: list_all_iff)
  then have frag: "takeWhile (\<lambda>c. c \<noteq> CHR ''#'') ?u = ?u" "list_all (\<lambda>c. 32 \<le> byte c \<and> byte c \<noteq> 127) ?u"
    by (auto simp: takeWhile_eq_all_conv list_all_iff)
  have "takeWhile (\<lambda>c. c \<noteq> CHR ''?'') (?a @ CHR ''/'' # ?p @ t) = ?a @ CHR ''/'' # ?p"
    using a p t(2) by (simp add: takeWhile_append2)
  moreover have "dropWhile (\<lambda>c. c \<noteq> CHR ''/'') (?a @ CHR ''/'' # ?p) = CHR ''/'' # ?p"
    using a by (simp add: dropWhile_append2)
  ultimately have "dropWhile (\<lambda>c. c \<noteq> CHR ''/'') (takeWhile (\<lambda>c. c \<noteq> CHR ''?'') (drop 7 ?u)) = CHR ''/'' # ?p"
    by simp
  then show ?thesis
    unfolding url_path_def Let_def frag(1) using frag(2) unescape_hexEscape [OF assms(3)]
    by (simp add: has_prefix_def)
qed

text \<open>A leader the handler knows an address of.\<close>

definition knows_leader :: "Handler \<Rightarrow> Seen \<Rightarrow> string \<Rightarrow> bool" where
  "knows_leader h s addr \<longleftrightarrow> LeaderID (at_LeaderID s) \<noteq> [] \<and>
     h_peerHTTPAddrs h (LeaderID (at_LeaderID s)) = Some addr \<and> url_plain addr \<and> CHR ''/'' \<notin> set addr"

lemma redirect_location:
  "knows_leader h s addr \<Longrightarrow>
   resp_Location (redirectToLeader h s r) = Some (''http://'' @ hexEscapeNonASCII addr @ hexEscapeNonASCII (req_Path r))"
  by (simp add: knows_leader_def redirectToLeader_def Redirect_def Let_def)

text \<open>A follower that knows the leader and its address redirects a request to the same path at
  the leader: the location it sends parses back to the path of the request, percent escapes for
  non-ASCII bytes included, provided the path has none of the characters \<open>?\<close>, \<open>#\<close> and \<open>%\<close>
  and no control characters.\<close>

theorem redirect_same_path:
  assumes "knows_leader h s addr" and "req_Path r = CHR ''/'' # p" and "url_plain p"
  shows "resp_Status (redirectToLeader h s r) = 307 \<and>
    Option.bind (resp_Location (redirectToLeader h s r)) url_path = Some (req_Path r)"
proof -
  have "resp_Status (redirectToLeader h s r) = 307"
    using assms(1) by (simp add: knows_leader_def redirectToLeader_def Redirect_def Let_def)
  then show ?thesis
    using redirect_location [OF assms(1), of r] url_path_eq [of addr p "[]"] assms
    by (simp add: knows_leader_def)
qed

definition seen_follower :: Seen where
  "seen_follower =
     (let n = (NewNode ''a'' [''b''] None)\<lparr>leaderID := ''b''\<rparr>
      in \<lparr> at_IsLeader = n, at_Get = NewKVStore, at_Submit = n, at_polls = [], at_LeaderID = n, at_Status = n \<rparr>)"

definition peer_handler :: Handler where
  "peer_handler = NewHandler [''b'' \<mapsto> ''h:80'']"

definition get_path :: "string \<Rightarrow> Request" where
  "get_path p = \<lparr> req_Method = ''GET'', req_Path = p, req_Body = [], req_BodyErr = False \<rparr>"

lemma sample_knows_leader: "knows_leader peer_handler seen_follower ''h:80''"
  by (simp add: knows_leader_def peer_handler_def NewHandler_def seen_follower_def Let_def LeaderID_def url_plain_def)

theorem redirect_same_path_witness:
  "Option.bind (resp_Location (redirectToLeader peer_handler seen_follower
     (get_path (''/kv/caf'' @ [CHR 0xC3, CHR 0xA9])))) url_path = Some (''/kv/caf'' @ [CHR 0xC3, CHR 0xA9])"
proof -
  have "url_plain (''kv/caf'' @ [CHR 0xC3, CHR 0xA9])" by code_simp
  with redirect_same_path [OF sample_knows_leader, of "get_path (''/kv/caf'' @ [CHR 0xC3, CHR 0xA9])"
      "''kv/caf'' @ [CHR 0xC3, CHR 0xA9]"]
  show ?thesis by (simp add: get_path_def)
qed

text \<open>C33. The path is not escaped before it goes into the location: for a key with a question mark
  the redirect names the part before it, another key.\<close>

theorem redirect_truncates_key:
  assumes "knows_leader h s addr" and "req_Path r = CHR ''/'' # p @ CHR ''?'' # q"
    and "url_plain p" and "list_all (\<lambda>c. 32 \<le> byte c \<and> byte c < 127 \<and> c \<noteq> CHR ''#'') q"
  shows "Option.bind (resp_Location (redirectToLeader h s r)) url_path = Some (CHR ''/'' # p)"
proof -
  have "hexEscapeNonASCII q = q" using assms(4) by (induction q) auto
  moreover have "hexEscapeNonASCII (CHR ''?'' # q) = CHR ''?'' # hexEscapeNonASCII q" by simp
  moreover have "url_path (''http://'' @ hexEscapeNonASCII addr @ CHR ''/'' # hexEscapeNonASCII p @ CHR ''?'' # q) =
      Some (CHR ''/'' # p)"
  proof (rule url_path_eq [OF _ _ assms(3)])
    have "list_all (\<lambda>c. 32 \<le> byte c \<and> byte c \<noteq> 127 \<and> c \<noteq> CHR ''#'') q"
      using assms(4) by (rule list.pred_mono_strong) linarith
    then show "CHR ''?'' # q = [] \<or> hd (CHR ''?'' # q) = CHR ''?'' \<and>
        list_all (\<lambda>c. 32 \<le> byte c \<and> byte c \<noteq> 127 \<and> c \<noteq> CHR ''#'') (CHR ''?'' # q)"
      by simp
  qed (use assms(1) in \<open>simp_all add: knows_leader_def\<close>)
  ultimately show ?thesis using redirect_location [OF assms(1), of r] assms(2) by simp
qed

theorem redirect_truncates_key_witness:
  "Option.bind (resp_Location (redirectToLeader peer_handler seen_follower (get_path ''/kv/a?b''))) url_path =
     Some ''/kv/a'' \<and> TrimPrefix ''/kv/a?b'' ''/kv/'' \<noteq> TrimPrefix ''/kv/a'' ''/kv/''"
proof -
  have "url_plain ''kv/a''" by code_simp
  with redirect_truncates_key [OF sample_knows_leader, of "get_path ''/kv/a?b''" "''kv/a''" "''b''"]
  show ?thesis by (simp add: get_path_def TrimPrefix_def has_prefix_def)
qed

section \<open>Readiness\<close>

lemma lag_exceeds:
  fixes a b :: u64
  assumes "a \<le> b" "unat b < 2 ^ 63"
  shows "10 < sint (b - a) \<longleftrightarrow> unat a + 10 < unat b"
proof -
  have "unat (b - a) = unat b - unat a" using assms(1) by (rule unat_sub)
  moreover have "unat b - unat a < 2 ^ 63" using assms(2) by linarith
  ultimately have "sint (b - a) = int (unat b - unat a)" using sint_cases [of "b - a"] by presburger
  then show ?thesis by linarith
qed

lemma readyz_lag:
  assumes "lastApplied (at_Status s) \<le> commitIndex (at_Status s)" "unat (commitIndex (at_Status s)) < 2 ^ 63"
  shows "resp_Status (handleReadyz s) =
    (if unat (commitIndex (at_Status s)) \<le> unat (lastApplied (at_Status s)) + 10 then 200 else 503)"
  using lag_exceeds [OF assms] by (auto simp: handleReadyz_def Status_def Let_def)

end
