(* ===== verification/Http_Cluster.thy ===== *)
theory Http_Cluster
  imports Http_Laws Raft_Apply
begin

text \<open>
  The HTTP interface on top of a running cluster: what an acknowledged \<open>PUT\<close> means for later
  reads, which reads may miss it, and what readiness says in a run.
\<close>

section \<open>Commands that concern a key\<close>

definition touches :: "string \<Rightarrow> bytes \<Rightarrow> bool" where
  "touches key cmd \<longleftrightarrow>
     (case unmarshal_Command cmd of
        None \<Rightarrow> False
      | Some c \<Rightarrow> cmd_Key c = key \<and> (cmd_Op c = CmdPut \<or> cmd_Op c = CmdDelete))"

lemma consume_untouched: "\<not> touches key cmd \<Longrightarrow> data (consume cmd s) key = data s key"
  by (auto simp: touches_def consume_def Apply_def Put_def Delete_def split: option.splits)

lemma fold_untouched:
  "list_all (\<lambda>c. \<not> touches key c) cs \<Longrightarrow> data (fold consume cs s) key = data s key"
  by (induction cs arbitrary: s) (simp_all add: consume_untouched)

lemma consume_put: "data (consume (SerializePut key v) s) (coerce_utf8 key) = Some (coerce_utf8 v)"
proof -
  have "SerializePut key v \<noteq> []" by (simp add: SerializePut_def marshal_Command_def json_object_def)
  then show ?thesis
    by (simp add: consume_def Apply_def SerializePut_def unmarshal_marshal_Command CmdPut_def coerce_names
        Put_def)
qed

lemma run_store_put:
  assumes "n < length cs" "cs ! n = SerializePut key v"
    and "list_all (\<lambda>c. \<not> touches (coerce_utf8 key) c) (drop (Suc n) cs)"
  shows "Get (run_store cs) (coerce_utf8 key) = (coerce_utf8 v, True)"
proof -
  have "cs = take n cs @ SerializePut key v # drop (Suc n) cs"
    using id_take_nth_drop [OF assms(1)] assms(2) by simp
  then have "run_store cs = fold consume (drop (Suc n) cs)
      (consume (SerializePut key v) (fold consume (take n cs) NewKVStore))"
    unfolding run_store_def by (metis comp_apply fold_append fold_simps(2))
  then have "data (run_store cs) (coerce_utf8 key) = Some (coerce_utf8 v)"
    using fold_untouched [OF assms(3)] consume_put by simp
  then show ?thesis by (simp add: Get_def)
qed

section \<open>Reads after acknowledged writes\<close>

lemma handleKV_put:
  assumes "handleKV wt h s r = Some (n', resp)" "req_Method r = ''PUT''" "resp_Status resp = 200"
  obtains v i t where "SubmitCommand (SerializePut (TrimPrefix (req_Path r) ''/kv/'') v) (at_Submit s) (at_polls s) =
      Some (n', Inr (i, t))"
    "Option.bind (read_limited r) unmarshal_put_request = Some v"
    "json_reply resp [(''index'', JNum (show_nat (unat i))),
       (''key'', JStr (coerce_utf8 (TrimPrefix (req_Path r) ''/kv/''))),
       (''term'', JNum (show_nat (unat t))), (''value'', JStr (coerce_utf8 v))]"
proof -
  from assms have "handlePut wt h s r (TrimPrefix (req_Path r) ''/kv/'') = Some (n', resp)"
    by (auto simp: handleKV_def Let_def split: if_splits)
  then show thesis
  proof (cases rule: handlePut_cases)
    case redirected
    then show thesis using assms(3) status_redirect by simp
  next
    case (bad_body e)
    then show thesis using assms(3) by simp
  next
    case (failed body v err)
    then show thesis using assms(3) status_failure by simp
  next
    case (stored body v i t)
    have "Option.bind (read_limited r) unmarshal_put_request = Some v" using stored(1,2) by simp
    then show thesis using that [OF stored(3)] put_reply stored(4) by simp
  qed
qed

lemma acknowledged_in_store:
  assumes "ids_ok is" and "reachable (init_cluster is w) c" and "i \<in> set is" and "terms_small c"
    and "SubmitCommand (SerializePut key v) (nodes c i) (map (\<lambda>c. nodes c i) polls) = Some (n', Inr (index, t))"
    and "\<forall>p \<in> set polls. reachable (put_node i n' c) p \<and> reachable p c3"
    and "j \<in> set is" and "quiet c3 j" and idx: "index \<le> commitIndex (nodes c3 j)"
    and later: "list_all (\<lambda>cmd. \<not> touches (coerce_utf8 key) cmd)
      (drop (unat index) (take (unat (commitIndex (nodes c3 j))) (commands (nodes c3 j))))"
  shows "Get (stores c3 j) (coerce_utf8 key) = (coerce_utf8 v, True)"
proof -
  let ?cs = "take (unat (commitIndex (nodes c3 j))) (commands (nodes c3 j))"
  obtain p where p: "submit_append (SerializePut key v) (nodes c i) = Some (n', Inr (index, t))"
    "reachable (init_cluster is w) (put_node i n' c)" "reachable (put_node i n' c) p" "reachable p c3"
    "state (nodes p i) = Leader" "currentTerm (nodes p i) = t" "index \<le> lastApplied (nodes p i)"
    using acknowledged_poll [OF assms(1-6)] .
  have e: "unat index < length (entries (log (nodes c3 j)))" "entries (log (nodes c3 j)) ! unat index =
      \<lparr>le_Term = t, le_Index = index, le_Command = SerializePut key v\<rparr>"
    using acknowledged_at [OF assms(1,2) p(2-4) assms(3,7) p(1,5-7)] idx by auto
  obtain h where h: "safety_inv h c" using safety.reachable_hist [OF assms(2,1)] .
  have "ids c = is" using elections.reachable_inv(2) [OF assms(2,1)] .
  then have eok: "entries_ok (entries (log (nodes c i)))" using node_ok(1) [OF h] assms(3) by simp
  have "0 < unat index" using submit_append_entry(6) [OF p(1) eok] entries_ok_len [OF eok] by simp
  then obtain q where q: "unat index = Suc q" using gr0_implies_Suc by blast
  have "Suc q \<le> unat (commitIndex (nodes c3 j))" using idx q by (simp add: word_le_nat_alt)
  then have "q < length ?cs" "?cs ! q = SerializePut key v"
    using e unfolding q by (simp_all add: commands_def less_diff_conv)
  moreover have "reachable (init_cluster is w) c3" by (rule reachable_trans [OF reachable_trans [OF p(4,3)] p(2)])
  ultimately show ?thesis
    using run_store_put [of q ?cs key v] later quiet_store [OF assms(1) _ assms(7,8)] unfolding q by metis
qed


text \<open>A sample run: \<open>a\<close> is elected and takes a \<open>PUT\<close>, which it replicates to \<open>b\<close> and applies.\<close>

definition seen_at :: "Node \<Rightarrow> Node list \<Rightarrow> KVStore \<Rightarrow> Seen" where
  "seen_at n polls kv = \<lparr> at_IsLeader = n, at_Get = kv, at_Submit = n, at_polls = polls, at_LeaderID = n,
     at_Status = n \<rparr>"

definition put_reply_at :: "cluster \<Rightarrow> cluster \<Rightarrow> (Node \<times> Response) option" where
  "put_reply_at c p = handleKV (\<lambda>_. []) (NewHandler Map.empty)
     (seen_at (nodes c ''a'') [nodes p ''a''] (stores c ''a'')) put_request"

definition get_reply_at :: "cluster \<Rightarrow> Response" where
  "get_reply_at p = handleGet (NewHandler Map.empty) (seen_at (nodes p ''a'') [] (stores p ''a''))
     (get_path ''/kv/k'') ''k''"

definition put_run :: "event list \<Rightarrow> (cluster \<Rightarrow> cluster \<Rightarrow> bool) \<Rightarrow> bool" where
  "put_run es P \<longleftrightarrow> after elect_a three_nodes (\<lambda>c. terms_small c \<and>
     (case submit_append put_command (nodes c ''a'') of
        None \<Rightarrow> False
      | Some (n', _) \<Rightarrow> after ([ReplicateTick ''a'' ''b'', Deliver 3 5, Deliver 4 6] @ es) (put_node ''a'' n' c) (P c)))"

lemma put_request_value: "Option.bind (read_limited put_request) unmarshal_put_request = Some ''v''"
  by code_simp

lemma put_request_key: "TrimPrefix (req_Path put_request) ''/kv/'' = ''k''"
  by code_simp

lemma put_runE:
  assumes "put_run es (\<lambda>c p. (case put_reply_at c p of None \<Rightarrow> False
      | Some (_, resp) \<Rightarrow> resp_Status resp = 200 \<and> Q resp) \<and> P p)"
  obtains c n' p resp where "reachable three_nodes c" "terms_small c" "put_reply_at c p = Some (n', resp)"
    "resp_Status resp = 200" "Q resp" "reachable (put_node ''a'' n' c) p" "P p"
proof -
  from assms obtain c m x p where c: "reachable three_nodes c" "terms_small c"
      "submit_append put_command (nodes c ''a'') = Some (m, x)"
    and p: "reachable (put_node ''a'' m c) p" "P p"
      "case put_reply_at c p of None \<Rightarrow> False | Some (_, resp) \<Rightarrow> resp_Status resp = 200 \<and> Q resp"
    unfolding put_run_def by (elim afterE conjE) (auto elim!: afterE split: option.splits prod.splits)
  from p(3) obtain n' resp where r: "put_reply_at c p = Some (n', resp)" "resp_Status resp = 200" "Q resp"
    by (auto split: option.splits)
  have put: "req_Method put_request = ''PUT''" by (simp add: put_request_def)
  obtain v i t where sub:
      "SubmitCommand (SerializePut ''k'' v) (nodes c ''a'') [nodes p ''a''] = Some (n', Inr (i, t))"
    and v: "Some ''v'' = Some v"
    by (rule handleKV_put [OF r(1) [unfolded put_reply_at_def] put r(2),
          unfolded put_request_key put_request_value seen_at_def Seen.select_convs])
  from sub v have "submit_append put_command (nodes c ''a'') = Some (n', Inr (i, t))"
    using SubmitCommand_ok(1) by (simp add: put_command_def)
  with c(3) have "m = n'" by simp
  with c p r that show thesis by blast
qed


text \<open>C34. Reads are not linearizable: in some run the leader acknowledges a \<open>PUT\<close> with status 200
  and, still leader in the same term, then answers a \<open>GET\<close> for that key with 404, because
  \<open>lastApplied\<close> advances when an entry enters the apply channel and not when the store applies
  it.\<close>

theorem acknowledged_put_unread:
  "\<exists>c n' p resp. ids_ok [''a'', ''b'', ''c''] \<and> reachable three_nodes c \<and>
     put_reply_at c p = Some (n', resp) \<and> resp_Status resp = 200 \<and> reachable (put_node ''a'' n' c) p \<and>
     state (nodes p ''a'') = Leader \<and> currentTerm (nodes p ''a'') = 1 \<and> resp_Status (get_reply_at p) = 404"
proof -
  have "put_run [ApplyBegin ''a'', ApplySend ''a'', ApplyFinish ''a''] (\<lambda>c p. (case put_reply_at c p of None \<Rightarrow> False
      | Some (_, resp) \<Rightarrow> resp_Status resp = 200 \<and> True) \<and>
      state (nodes p ''a'') = Leader \<and> currentTerm (nodes p ''a'') = 1 \<and> resp_Status (get_reply_at p) = 404)"
    by code_simp
  then obtain c n' p resp where "reachable three_nodes c" "put_reply_at c p = Some (n', resp)"
    "resp_Status resp = 200" "reachable (put_node ''a'' n' c) p" "state (nodes p ''a'') = Leader"
    "currentTerm (nodes p ''a'') = 1" "resp_Status (get_reply_at p) = 404"
    by (elim put_runE conjE)
  moreover have "ids_ok [''a'', ''b'', ''c'']" by (simp add: ids_ok_def)
  ultimately show ?thesis by blast
qed

section \<open>Readiness\<close>

text \<open>C35. In every run \<open>/readyz\<close> answers 200 exactly when at most ten committed entries are not yet
  applied, and 503 otherwise: the signed difference of the two indices never wraps.\<close>

theorem readyz_reports_lag:
  assumes "ids_ok is" and "reachable (init_cluster is w) c" and "i \<in> set is" and "at_Status s = nodes c i"
  shows "lastApplied (nodes c i) \<le> commitIndex (nodes c i) \<and>
    resp_Status (handleReadyz s) =
      (if unat (commitIndex (nodes c i)) - unat (lastApplied (nodes c i)) \<le> 10 then 200 else 503)"
proof -
  obtain m where m: "applied c i m" using reachable_applied [OF assms(1-3)] .
  obtain h where h: "safety_inv h c" using safety.reachable_hist [OF assms(2,1)] .
  have ids: "ids c = is" using elections.reachable_inv(2) [OF assms(2,1)] .
  have le: "lastApplied (nodes c i) \<le> commitIndex (nodes c i)"
    using applied_bounds(2) [OF m] by (simp add: word_le_nat_alt)
  have "unat (commitIndex (nodes c i)) < max_len"
    using node_ok(3) [OF h] entries_ok_len [OF node_ok(1) [OF h]] assms(3) ids by (metis less_trans)
  then have "resp_Status (handleReadyz s) =
      (if unat (commitIndex (nodes c i)) \<le> unat (lastApplied (nodes c i)) + 10 then 200 else 503)"
    using readyz_lag [of s] le assms(4) by (simp add: max_len_def)
  then show ?thesis using le by (simp add: le_diff_conv)
qed

theorem readyz_reports_lag_witness:
  "resp_Status (handleReadyz (seen_at (nodes three_nodes ''a'') [] NewKVStore)) = 200"
proof -
  have ok: "ids_ok [''a'', ''b'', ''c'']" by (simp add: ids_ok_def)
  have "commitIndex (nodes three_nodes ''a'') = 0" by code_simp
  then show ?thesis
    using readyz_reports_lag [OF ok reachable.start, of "''a''"
        "seen_at (nodes three_nodes ''a'') [] NewKVStore" "\<lambda>_. None"]
    by (simp add: seen_at_def three_nodes_def)
qed

end
