(* ===== verification/Raft_Transport.thy ===== *)
theory Raft_Transport
  imports Raft_Election
begin

text \<open>
  The interface \<open>Transport\<close> of \<open>internal/raft/transport.go\<close> as a locale.  An implementation works
  on a world that holds the nodes it can reach (\<open>view\<close>) besides its own state; \<open>usable\<close> is its
  invariant.  A call runs the handler of the target at most once with exactly the arguments of
  the call; a reply it returns is the reply of that handler.  It may lose the request or the
  reply and report an error; \<open>None\<close> is a panic of the handler.

  The client's side is proved once from these laws: a call of the transport is a run of the
  cluster model in which the request, already in the network, is delivered at most once, so the
  messages of the cluster model stand for every implementation.  What the calling goroutine does
  once the call has returned, at any later moment, is a step of the cluster model as well.
\<close>

section \<open>The calling goroutines\<close>

text \<open>What the goroutines that \<open>startElection\<close>, \<open>sendHeartbeats\<close> and \<open>replicateLog\<close> run do with the
  outcome of their call: an error ends the attempt, a reply is handled under the lock.\<close>

definition vote_goroutine :: "int \<Rightarrow> NodeID \<Rightarrow> RequestVoteArgs \<Rightarrow> 'e + RequestVoteReply \<Rightarrow> Node \<Rightarrow> Node" where
  "vote_goroutine rnd p args r n =
     (case r of Inl _ \<Rightarrow> n | Inr reply \<Rightarrow> handleVoteReply rnd p (rv_Term args) reply n)"

definition heartbeat_goroutine ::
  "int \<Rightarrow> NodeID \<Rightarrow> AppendEntriesArgs \<Rightarrow> 'e + AppendEntriesReply \<Rightarrow> Node \<Rightarrow> Node option" where
  "heartbeat_goroutine rnd p args r n =
     (case r of Inl _ \<Rightarrow> Some n
      | Inr reply \<Rightarrow> heartbeat_reply rnd p (ae_Term args) (ae_Entries args) reply n)"

definition replicate_goroutine ::
  "int \<Rightarrow> NodeID \<Rightarrow> AppendEntriesArgs \<Rightarrow> 'e + AppendEntriesReply \<Rightarrow> Node \<Rightarrow> Node option" where
  "replicate_goroutine rnd p args r n =
     (case r of Inl _ \<Rightarrow> Some n
      | Inr reply \<Rightarrow> replicate_reply rnd p (ae_Term args) (ae_Entries args) reply n)"

text \<open>The goroutine that sends a request of kind \<open>k\<close>.\<close>

definition append_goroutine ::
  "rpc_kind \<Rightarrow> int \<Rightarrow> NodeID \<Rightarrow> AppendEntriesArgs \<Rightarrow> 'e + AppendEntriesReply \<Rightarrow> Node \<Rightarrow> Node option" where
  "append_goroutine k = (case k of Heartbeat \<Rightarrow> heartbeat_goroutine | Replicate \<Rightarrow> replicate_goroutine)"

lemma put_node_same [simp]: "put_node i (nodes c i) c = c"
  by (simp add: put_node_def)

lemma deliver_reachable:
  assumes "m \<in> set (net d)" "terms_small d" "deliver m rnd d = Some d'"
  shows "reachable d d'"
proof -
  obtain k where "k < length (net d)" "net d ! k = m" using assms(1) by (auto simp: in_set_conv_nth)
  then have "exec (Deliver k rnd) d = Some d'" using assms(3) by simp
  then show ?thesis using reachable.step [OF reachable.start assms(2)] by blast
qed

lemma vote_goroutine_step:
  assumes "\<forall>reply. r = Inr reply \<longrightarrow> VoteResp p i (rv_Term args) reply \<in> set (net c)" "reachable c d" "terms_small d"
  shows "reachable d (put_node i (vote_goroutine rnd p args r (nodes d i)) d)"
proof (cases r)
  case (Inr reply)
  then have "VoteResp p i (rv_Term args) reply \<in> set (net d)" using assms(1) reachable_net [OF assms(2)] by blast
  then show ?thesis
    by (rule deliver_reachable [OF _ assms(3), where rnd = rnd]) (simp add: deliver_def vote_goroutine_def Inr)
qed (simp add: vote_goroutine_def reachable.start)

lemma append_goroutine_step:
  assumes "\<forall>reply. q = Inr reply \<longrightarrow> AppendResp p i k (ae_Term a) (ae_Entries a) reply \<in> set (net c)"
    and "reachable c d" "terms_small d" "append_goroutine k rnd p a q (nodes d i) = Some n'"
  shows "reachable d (put_node i n' d)"
proof (cases q)
  case (Inl e)
  then have "n' = nodes d i"
    using assms(4) by (cases k) (simp_all add: append_goroutine_def heartbeat_goroutine_def replicate_goroutine_def)
  then show ?thesis by (simp add: reachable.start)
next
  case (Inr reply)
  then have "AppendResp p i k (ae_Term a) (ae_Entries a) reply \<in> set (net d)"
    using assms(1) reachable_net [OF assms(2)] by blast
  then show ?thesis
    by (rule deliver_reachable [OF _ assms(3), where rnd = rnd])
      (use assms(4) Inr in \<open>cases k; simp add: deliver_def append_goroutine_def heartbeat_goroutine_def replicate_goroutine_def\<close>)
qed

section \<open>The interface\<close>

definition sees :: "('w \<Rightarrow> NodeID \<rightharpoonup> Node) \<Rightarrow> 'w \<Rightarrow> cluster \<Rightarrow> bool" where
  "sees view w c \<longleftrightarrow> (\<forall>p \<in> set (ids c). view w p = Some (nodes c p))"

locale raft_transport =
  fixes view :: "'w \<Rightarrow> NodeID \<rightharpoonup> Node"
    and usable :: "'w \<Rightarrow> bool"
    and send_vote :: "'w \<Rightarrow> NodeID \<Rightarrow> RequestVoteArgs \<Rightarrow> ('w \<times> ('e + RequestVoteReply)) option"
    and send_append :: "'w \<Rightarrow> NodeID \<Rightarrow> AppendEntriesArgs \<Rightarrow> ('w \<times> ('e + AppendEntriesReply)) option"
  assumes vote_delivery: "usable w \<Longrightarrow> send_vote w p args = Some (w', r) \<Longrightarrow>
      usable w' \<and>
      (view w' = view w \<and> isl r \<or>
       (\<exists>rnd n n' reply. view w p = Some n \<and> HandleRequestVote rnd args n = Some (n', reply) \<and>
          view w' = (view w)(p \<mapsto> n') \<and> (r = Inr reply \<or> isl r)))"
    and append_delivery: "usable w \<Longrightarrow> send_append w p a = Some (w', q) \<Longrightarrow>
      usable w' \<and>
      (view w' = view w \<and> isl q \<or>
       (\<exists>rnd n n' reply. view w p = Some n \<and> HandleAppendEntries rnd a n = Some (n', reply) \<and>
          view w' = (view w)(p \<mapsto> n') \<and> (q = Inr reply \<or> isl q)))"
begin

lemma sees_put: "sees view w c \<Longrightarrow> view w' = (view w)(p \<mapsto> n') \<Longrightarrow> sees view w' (send ms (put_node p n' c))"
  by (auto simp: sees_def cluster_update)

lemma vote_simulates:
  assumes "usable w" "sees view w c" "p \<in> set (ids c)" "VoteReq i p args \<in> set (net c)" "terms_small c"
    and "send_vote w p args = Some (w', r)"
  shows "\<exists>c'. reachable c c' \<and> usable w' \<and> sees view w' c' \<and>
    (\<forall>reply. r = Inr reply \<longrightarrow> VoteResp p i (rv_Term args) reply \<in> set (net c'))"
proof -
  consider "usable w'" "view w' = view w" "isl r"
  | rnd n n' reply where "view w p = Some n" "HandleRequestVote rnd args n = Some (n', reply)" "usable w'"
      "view w' = (view w)(p \<mapsto> n')" "r = Inr reply \<or> isl r"
    using vote_delivery [OF assms(1,6)] by blast
  then show ?thesis
  proof cases
    case 1
    then show ?thesis
      using assms(2) by (intro exI [of _ c]) (auto simp: sees_def intro: reachable.start)
  next
    case h: (2 rnd n n' reply)
    have n: "n = nodes c p" using h(1) assms(2,3) by (simp add: sees_def)
    obtain k where k: "k < length (net c)" "net c ! k = VoteReq i p args"
      using assms(4) by (auto simp: in_set_conv_nth)
    let ?c = "send [VoteResp p i (rv_Term args) reply] (put_node p n' c)"
    have "exec (Deliver k rnd) c = Some ?c" using k h(2) n by (simp add: deliver_def)
    then have "reachable c ?c" using reachable.step [OF reachable.start assms(5)] by blast
    moreover have "sees view w' ?c" by (rule sees_put [OF assms(2) h(4)])
    moreover have "\<forall>q. r = Inr q \<longrightarrow> VoteResp p i (rv_Term args) q \<in> set (net ?c)"
      using h(5) by (auto simp: send_def)
    ultimately show ?thesis using h(3) by blast
  qed
qed

lemma append_simulates:
  assumes "usable w" "sees view w c" "p \<in> set (ids c)" "AppendReq i p k a \<in> set (net c)" "terms_small c"
    and "send_append w p a = Some (w', q)"
  shows "\<exists>c'. reachable c c' \<and> usable w' \<and> sees view w' c' \<and>
    (\<forall>reply. q = Inr reply \<longrightarrow> AppendResp p i k (ae_Term a) (ae_Entries a) reply \<in> set (net c'))"
proof -
  consider "usable w'" "view w' = view w" "isl q"
  | rnd n n' reply where "view w p = Some n" "HandleAppendEntries rnd a n = Some (n', reply)" "usable w'"
      "view w' = (view w)(p \<mapsto> n')" "q = Inr reply \<or> isl q"
    using append_delivery [OF assms(1,6)] by blast
  then show ?thesis
  proof cases
    case 1
    then show ?thesis
      using assms(2) by (intro exI [of _ c]) (auto simp: sees_def intro: reachable.start)
  next
    case h: (2 rnd n n' reply)
    have n: "n = nodes c p" using h(1) assms(2,3) by (simp add: sees_def)
    obtain m where m: "m < length (net c)" "net c ! m = AppendReq i p k a"
      using assms(4) by (auto simp: in_set_conv_nth)
    let ?c = "send [AppendResp p i k (ae_Term a) (ae_Entries a) reply] (put_node p n' c)"
    have "exec (Deliver m rnd) c = Some ?c" using m h(2) n by (simp add: deliver_def)
    then have "reachable c ?c" using reachable.step [OF reachable.start assms(5)] by blast
    moreover have "sees view w' ?c" by (rule sees_put [OF assms(2) h(4)])
    moreover have "\<forall>x. q = Inr x \<longrightarrow> AppendResp p i k (ae_Term a) (ae_Entries a) x \<in> set (net ?c)"
      using h(5) by (auto simp: send_def)
    ultimately show ?thesis using h(3) by blast
  qed
qed

end

end
