(* ===== verification/Grpc_Transport.thy ===== *)
theory Grpc_Transport
  imports Raft_Transport
begin

text \<open>
  The gRPC transport (\<open>internal/transport/grpc.go\<close>) and server (\<open>internal/transport/server.go\<close>).
  The gRPC library is a parameter: \<open>new_client\<close> is \<open>grpc.NewClient\<close> (the attempt and the address
  decide its outcome), \<open>invoke_vote\<close> and \<open>invoke_append\<close> are the two stubs of the generated client,
  which act on everything beyond the connection, the network and the servers behind it.  Errors
  of the library are their texts.
\<close>

section \<open>Protocol messages\<close>

record VoteRequest =
  vq_Term :: u64
  vq_CandidateId :: string
  vq_LastLogIndex :: u64
  vq_LastLogTerm :: u64

record VoteResponse =
  vp_Term :: u64
  vp_VoteGranted :: bool

record LogEntryProto =
  lp_Term :: u64
  lp_Index :: u64
  lp_Command :: bytes

record AppendRequest =
  aq_Term :: u64
  aq_LeaderId :: string
  aq_PrevLogIndex :: u64
  aq_PrevLogTerm :: u64
  aq_Entries :: "LogEntryProto list"
  aq_LeaderCommit :: u64

record AppendResponse =
  ap_Term :: u64
  ap_Success :: bool
  ap_ConflictTerm :: u64
  ap_ConflictIndex :: u64

section \<open>The server\<close>

definition GRPCServer_RequestVote :: "int \<Rightarrow> VoteRequest \<Rightarrow> Node \<Rightarrow> (Node \<times> VoteResponse) option" where
  "GRPCServer_RequestVote rnd req n =
     (let args = \<lparr> rv_Term = vq_Term req, rv_CandidateID = vq_CandidateId req,
                   rv_LastLogIndex = vq_LastLogIndex req, rv_LastLogTerm = vq_LastLogTerm req \<rparr>
      in do { (n', reply) \<leftarrow> HandleRequestVote rnd args n;
              Some (n', \<lparr> vp_Term = rvr_Term reply, vp_VoteGranted = rvr_VoteGranted reply \<rparr>) })"

definition GRPCServer_AppendEntries :: "int \<Rightarrow> AppendRequest \<Rightarrow> Node \<Rightarrow> (Node \<times> AppendResponse) option" where
  "GRPCServer_AppendEntries rnd req n =
     (let es = map (\<lambda>e. \<lparr> le_Term = lp_Term e, le_Index = lp_Index e, le_Command = lp_Command e \<rparr>)
                 (aq_Entries req);
          args = \<lparr> ae_Term = aq_Term req, ae_LeaderID = aq_LeaderId req,
                   ae_PrevLogIndex = aq_PrevLogIndex req, ae_PrevLogTerm = aq_PrevLogTerm req,
                   ae_Entries = es, ae_LeaderCommit = aq_LeaderCommit req \<rparr>
      in do { (n', reply) \<leftarrow> HandleAppendEntries rnd args n;
              Some (n', \<lparr> ap_Term = aer_Term reply, ap_Success = aer_Success reply,
                          ap_ConflictTerm = aer_ConflictTerm reply,
                          ap_ConflictIndex = aer_ConflictIndex reply \<rparr>) })"

section \<open>The client\<close>

record 'conn GRPCTransport =
  conns :: "NodeID \<rightharpoonup> 'conn"
  addrs :: "NodeID \<rightharpoonup> string"

definition NewGRPCTransport :: "(NodeID \<rightharpoonup> string) \<Rightarrow> 'conn GRPCTransport" where
  "NewGRPCTransport a = \<lparr> conns = Map.empty, addrs = a \<rparr>"

datatype transport_error =
  UnknownPeer NodeID
| ConnectError NodeID string string
| RpcError NodeID string
| CloseError NodeID string

text \<open>The retry loop: \<open>left\<close> attempts remain, \<open>res\<close> is the outcome of the last one.\<close>

fun dial_loop :: "(nat \<Rightarrow> string \<Rightarrow> string + 'conn) \<Rightarrow> string \<Rightarrow> nat \<Rightarrow> nat \<Rightarrow> string + 'conn \<Rightarrow> string + 'conn" where
  "dial_loop new_client addr attempt 0 res = res"
| "dial_loop new_client addr attempt (Suc left) res =
     (case new_client attempt addr of
        Inr conn \<Rightarrow> Inr conn
      | Inl err \<Rightarrow> dial_loop new_client addr (Suc attempt) left (Inl err))"

text \<open>The section under the write lock, with its second look into the cache.\<close>

definition getConn_locked ::
  "(nat \<Rightarrow> string \<Rightarrow> string + 'conn) \<Rightarrow> 'conn GRPCTransport \<Rightarrow> NodeID \<Rightarrow> 'conn GRPCTransport \<times> (transport_error + 'conn)" where
  "getConn_locked new_client t target =
     (case conns t target of
        Some conn \<Rightarrow> (t, Inr conn)
      | None \<Rightarrow>
          (case addrs t target of
             None \<Rightarrow> (t, Inl (UnknownPeer target))
           | Some addr \<Rightarrow>
               (case dial_loop new_client addr 0 3 (Inl []) of
                  Inl err \<Rightarrow> (t, Inl (ConnectError target addr err))
                | Inr conn \<Rightarrow> (t\<lparr>conns := (conns t)(target \<mapsto> conn)\<rparr>, Inr conn))))"

definition getConn ::
  "(nat \<Rightarrow> string \<Rightarrow> string + 'conn) \<Rightarrow> 'conn GRPCTransport \<Rightarrow> NodeID \<Rightarrow> 'conn GRPCTransport \<times> (transport_error + 'conn)" where
  "getConn new_client t target =
     (case conns t target of Some conn \<Rightarrow> (t, Inr conn) | None \<Rightarrow> getConn_locked new_client t target)"

definition GRPC_SendRequestVote ::
  "(nat \<Rightarrow> string \<Rightarrow> string + 'conn) \<Rightarrow> ('conn \<Rightarrow> VoteRequest \<Rightarrow> 'net \<Rightarrow> 'net \<times> (string + VoteResponse)) \<Rightarrow>
   'conn GRPCTransport \<times> 'net \<Rightarrow> NodeID \<Rightarrow> RequestVoteArgs \<Rightarrow>
   ('conn GRPCTransport \<times> 'net) \<times> (transport_error + RequestVoteReply)" where
  "GRPC_SendRequestVote new_client invoke_vote w target args =
     (case getConn new_client (fst w) target of
        (t, Inl err) \<Rightarrow> ((t, snd w), Inl err)
      | (t, Inr conn) \<Rightarrow>
          (case invoke_vote conn
             \<lparr> vq_Term = rv_Term args, vq_CandidateId = rv_CandidateID args,
               vq_LastLogIndex = rv_LastLogIndex args, vq_LastLogTerm = rv_LastLogTerm args \<rparr> (snd w) of
             (sys', Inl err) \<Rightarrow> ((t, sys'), Inl (RpcError target err))
           | (sys', Inr resp) \<Rightarrow>
               ((t, sys'), Inr \<lparr> rvr_Term = vp_Term resp, rvr_VoteGranted = vp_VoteGranted resp \<rparr>)))"

definition GRPC_SendAppendEntries ::
  "(nat \<Rightarrow> string \<Rightarrow> string + 'conn) \<Rightarrow> ('conn \<Rightarrow> AppendRequest \<Rightarrow> 'net \<Rightarrow> 'net \<times> (string + AppendResponse)) \<Rightarrow>
   'conn GRPCTransport \<times> 'net \<Rightarrow> NodeID \<Rightarrow> AppendEntriesArgs \<Rightarrow>
   ('conn GRPCTransport \<times> 'net) \<times> (transport_error + AppendEntriesReply)" where
  "GRPC_SendAppendEntries new_client invoke_append w target args =
     (case getConn new_client (fst w) target of
        (t, Inl err) \<Rightarrow> ((t, snd w), Inl err)
      | (t, Inr conn) \<Rightarrow>
          (let protoEntries =
             map (\<lambda>e. \<lparr> lp_Term = le_Term e, lp_Index = le_Index e, lp_Command = le_Command e \<rparr>) (ae_Entries args)
           in case invoke_append conn
             \<lparr> aq_Term = ae_Term args, aq_LeaderId = ae_LeaderID args, aq_PrevLogIndex = ae_PrevLogIndex args,
               aq_PrevLogTerm = ae_PrevLogTerm args, aq_Entries = protoEntries,
               aq_LeaderCommit = ae_LeaderCommit args \<rparr> (snd w) of
             (sys', Inl err) \<Rightarrow> ((t, sys'), Inl (RpcError target err))
           | (sys', Inr resp) \<Rightarrow>
               ((t, sys'), Inr \<lparr> aer_Term = ap_Term resp, aer_Success = ap_Success resp,
                                aer_ConflictTerm = ap_ConflictTerm resp,
                                aer_ConflictIndex = ap_ConflictIndex resp \<rparr>)))"

text \<open>\<open>Close\<close>, given the order in which the loop visits the cache and the outcome of closing each
  connection.\<close>

fun close_loop :: "('conn \<Rightarrow> string option) \<Rightarrow> (NodeID \<times> 'conn) list \<Rightarrow> transport_error option \<Rightarrow> transport_error option" where
  "close_loop close_conn [] firstErr = firstErr"
| "close_loop close_conn ((p, conn) # rest) firstErr =
     close_loop close_conn rest
       (case close_conn conn of
          Some err \<Rightarrow> (if firstErr = None then Some (CloseError p err) else firstErr)
        | None \<Rightarrow> firstErr)"

definition GRPC_Close ::
  "('conn \<Rightarrow> string option) \<Rightarrow> (NodeID \<times> 'conn) list \<Rightarrow> 'conn GRPCTransport \<Rightarrow> 'conn GRPCTransport \<times> transport_error option" where
  "GRPC_Close close_conn order t = (t\<lparr>conns := Map.empty\<rparr>, close_loop close_conn order None)"

section \<open>Connections\<close>

lemma dial_loop_find:
  "dial_loop f addr a k res =
     (case find (\<lambda>i. \<not> isl (f i addr)) [a ..< a + k] of
        Some i \<Rightarrow> f i addr
      | None \<Rightarrow> if k = 0 then res else f (a + k - 1) addr)"
proof (induction k arbitrary: a res)
  case (Suc k)
  have "[a ..< a + Suc k] = a # [Suc a ..< Suc a + k]" by (simp add: upt_rec)
  then show ?case using Suc by (cases "f a addr") (auto split: option.split)
qed simp

text \<open>Every cached connection was made for the address of its peer.\<close>

definition conns_ok :: "(nat \<Rightarrow> string \<Rightarrow> string + 'conn) \<Rightarrow> 'conn GRPCTransport \<Rightarrow> bool" where
  "conns_ok f t \<longleftrightarrow> (\<forall>p conn. conns t p = Some conn \<longrightarrow>
     (\<exists>addr k. addrs t p = Some addr \<and> f k addr = Inr conn))"

lemma dial_loop_dials: "dial_loop f addr a k (Inl e) = Inr conn \<Longrightarrow> \<exists>i. f i addr = Inr conn"
  by (induction k arbitrary: a e) (auto split: sum.splits)

lemma getConn_eq: "getConn f t p = getConn_locked f t p"
  by (auto simp: getConn_def getConn_locked_def split: option.split)

lemma getConn_ok:
  assumes "conns_ok f t" "getConn f t p = (t', r)"
  shows "conns_ok f t'" "addrs t' = addrs t"
    "r = Inr conn \<Longrightarrow> \<exists>addr k. addrs t p = Some addr \<and> f k addr = Inr conn"
  using assms dial_loop_dials [of f _ 0 3 "[]"] unfolding getConn_eq getConn_locked_def
  by (auto simp: conns_ok_def split: option.splits sum.splits if_splits)

lemma dial_loop_three:
  "dial_loop f addr 0 3 res =
     (case find (\<lambda>k. \<not> isl (f k addr)) [0 ..< 3] of Some k \<Rightarrow> f k addr | None \<Rightarrow> f 2 addr)"
  using dial_loop_find [of f addr 0 3 res] by (simp split: option.split)

text \<open>\<open>getConn\<close> returns the cached connection of a peer without dialling; for an unknown peer
  it fails; otherwise it takes the first of three attempts that succeeds and caches it, so that
  every later call returns that connection, and after three failures it reports the last one and
  caches nothing.\<close>

theorem getConn_reference:
  "getConn f t p =
     (case (conns t p, addrs t p) of
        (Some conn, _) \<Rightarrow> (t, Inr conn)
      | (None, None) \<Rightarrow> (t, Inl (UnknownPeer p))
      | (None, Some addr) \<Rightarrow>
          (case find (\<lambda>k. \<not> isl (f k addr)) [0 ..< 3] of
             None \<Rightarrow> (t, Inl (ConnectError p addr (projl (f 2 addr))))
           | Some k \<Rightarrow> (t\<lparr>conns := (conns t)(p \<mapsto> projr (f k addr))\<rparr>, Inr (projr (f k addr))))) \<and>
   (\<forall>t' conn. getConn f t p = (t', Inr conn) \<longrightarrow>
      getConn f t' p = (t', Inr conn) \<and> getConn_locked f t' p = (t', Inr conn))"
proof (intro conjI allI impI)
  have dial: "dial_loop f addr 0 3 (Inl []) =
      (case find (\<lambda>k. \<not> isl (f k addr)) [0 ..< 3] of
         None \<Rightarrow> Inl (projl (f 2 addr)) | Some k \<Rightarrow> Inr (projr (f k addr)))" for addr
  proof (cases "find (\<lambda>k. \<not> isl (f k addr)) [0 ..< 3]")
    case None
    then have "isl (f 2 addr)" by (auto simp: find_None_iff)
    then show ?thesis by (simp add: dial_loop_three None)
  next
    case (Some k)
    then have "\<not> isl (f k addr)" by (auto simp: find_Some_iff)
    then show ?thesis by (simp add: dial_loop_three Some)
  qed
  show "getConn f t p =
     (case (conns t p, addrs t p) of
        (Some conn, _) \<Rightarrow> (t, Inr conn)
      | (None, None) \<Rightarrow> (t, Inl (UnknownPeer p))
      | (None, Some addr) \<Rightarrow>
          (case find (\<lambda>k. \<not> isl (f k addr)) [0 ..< 3] of
             None \<Rightarrow> (t, Inl (ConnectError p addr (projl (f 2 addr))))
           | Some k \<Rightarrow> (t\<lparr>conns := (conns t)(p \<mapsto> projr (f k addr))\<rparr>, Inr (projr (f k addr)))))"
    unfolding getConn_eq getConn_locked_def dial by (simp split: option.split)
next
  fix t' conn assume "getConn f t p = (t', Inr conn)"
  then have "conns t' p = Some conn"
    unfolding getConn_eq getConn_locked_def by (auto split: option.splits sum.splits)
  then show "getConn f t' p = (t', Inr conn)" "getConn_locked f t' p = (t', Inr conn)"
    by (simp_all add: getConn_def getConn_locked_def)
qed

theorem getConn_reference_witness:
  "getConn (\<lambda>k a. if k < 2 then Inl ''refused'' else Inr a) (NewGRPCTransport [''b'' \<mapsto> ''h:90'']) ''b'' =
     ((NewGRPCTransport [''b'' \<mapsto> ''h:90''])\<lparr>conns := [''b'' \<mapsto> ''h:90'']\<rparr>, Inr ''h:90'')"
  using getConn_reference [of "\<lambda>k a. if k < 2 then Inl ''refused'' else Inr a"
      "NewGRPCTransport [''b'' \<mapsto> ''h:90'']" "''b''"]
  by (simp add: NewGRPCTransport_def upt_rec)

lemma close_loop_first:
  "close_loop close_conn order e =
     (if e = None then
        (case find (\<lambda>(p, conn). close_conn conn \<noteq> None) order of
           None \<Rightarrow> None | Some (p, conn) \<Rightarrow> Some (CloseError p (the (close_conn conn))))
      else e)"
  by (induction close_conn order e rule: close_loop.induct) (auto split: option.splits)

section \<open>Calls\<close>

text \<open>
  What the transport relies on of the gRPC library and of the deployment: a connection made for
  the address of a peer reaches the server of that peer, and a call on it runs the method there
  at most once and returns the response of that run or an error.
\<close>

definition rpc_vote_once ::
  "(NodeID \<rightharpoonup> string) \<Rightarrow> (nat \<Rightarrow> string \<Rightarrow> string + 'conn) \<Rightarrow>
   ('conn \<Rightarrow> VoteRequest \<Rightarrow> 'net \<Rightarrow> 'net \<times> (string + VoteResponse)) \<Rightarrow> ('net \<Rightarrow> NodeID \<rightharpoonup> Node) \<Rightarrow> bool" where
  "rpc_vote_once ad f iv v \<longleftrightarrow>
     (\<forall>p addr k conn req sys sys' r.
        ad p = Some addr \<and> f k addr = Inr conn \<and> iv conn req sys = (sys', r) \<longrightarrow>
        v sys' = v sys \<and> isl r \<or>
        (\<exists>rnd n n' resp. v sys p = Some n \<and> GRPCServer_RequestVote rnd req n = Some (n', resp) \<and>
           v sys' = (v sys)(p \<mapsto> n') \<and> (r = Inr resp \<or> isl r)))"

definition rpc_append_once ::
  "(NodeID \<rightharpoonup> string) \<Rightarrow> (nat \<Rightarrow> string \<Rightarrow> string + 'conn) \<Rightarrow>
   ('conn \<Rightarrow> AppendRequest \<Rightarrow> 'net \<Rightarrow> 'net \<times> (string + AppendResponse)) \<Rightarrow> ('net \<Rightarrow> NodeID \<rightharpoonup> Node) \<Rightarrow> bool" where
  "rpc_append_once ad f ia v \<longleftrightarrow>
     (\<forall>p addr k conn req sys sys' r.
        ad p = Some addr \<and> f k addr = Inr conn \<and> ia conn req sys = (sys', r) \<longrightarrow>
        v sys' = v sys \<and> isl r \<or>
        (\<exists>rnd n n' resp. v sys p = Some n \<and> GRPCServer_AppendEntries rnd req n = Some (n', resp) \<and>
           v sys' = (v sys)(p \<mapsto> n') \<and> (r = Inr resp \<or> isl r)))"

definition grpc_usable ::
  "(NodeID \<rightharpoonup> string) \<Rightarrow> (nat \<Rightarrow> string \<Rightarrow> string + 'conn) \<Rightarrow> 'conn GRPCTransport \<times> 'net \<Rightarrow> bool" where
  "grpc_usable ad f w \<longleftrightarrow> conns_ok f (fst w) \<and> addrs (fst w) = ad"

lemma rpc_vote_onceD:
  assumes "rpc_vote_once ad f iv v" "ad p = Some addr" "f k addr = Inr conn" "iv conn req sys = (sys', r)"
  obtains "v sys' = v sys" "isl r"
  | rnd n n' resp where "v sys p = Some n" "GRPCServer_RequestVote rnd req n = Some (n', resp)"
      "v sys' = (v sys)(p \<mapsto> n')" "r = Inr resp \<or> isl r"
  by (rule disjE [OF assms(1) [unfolded rpc_vote_once_def, rule_format, OF conjI [OF assms(2) conjI [OF assms(3,4)]]]];
      elim exE conjE; rule that; assumption)

lemma rpc_append_onceD:
  assumes "rpc_append_once ad f ia v" "ad p = Some addr" "f k addr = Inr conn" "ia conn req sys = (sys', r)"
  obtains "v sys' = v sys" "isl r"
  | rnd n n' resp where "v sys p = Some n" "GRPCServer_AppendEntries rnd req n = Some (n', resp)"
      "v sys' = (v sys)(p \<mapsto> n')" "r = Inr resp \<or> isl r"
  by (rule disjE [OF assms(1) [unfolded rpc_append_once_def, rule_format, OF conjI [OF assms(2) conjI [OF assms(3,4)]]]];
      elim exE conjE; rule that; assumption)

text \<open>The conversions between the structs of the node and the messages lose nothing.\<close>

lemma struct_eta:
  "\<lparr> rv_Term = rv_Term a, rv_CandidateID = rv_CandidateID a, rv_LastLogIndex = rv_LastLogIndex a,
     rv_LastLogTerm = rv_LastLogTerm a \<rparr> = (a :: RequestVoteArgs)"
  "\<lparr> rvr_Term = rvr_Term b, rvr_VoteGranted = rvr_VoteGranted b \<rparr> = (b :: RequestVoteReply)"
  "\<lparr> le_Term = le_Term e, le_Index = le_Index e, le_Command = le_Command e \<rparr> = (e :: LogEntry)"
  "\<lparr> ae_Term = ae_Term c, ae_LeaderID = ae_LeaderID c, ae_PrevLogIndex = ae_PrevLogIndex c,
     ae_PrevLogTerm = ae_PrevLogTerm c, ae_Entries = ae_Entries c, ae_LeaderCommit = ae_LeaderCommit c \<rparr> =
     (c :: AppendEntriesArgs)"
  "\<lparr> aer_Term = aer_Term d, aer_Success = aer_Success d, aer_ConflictTerm = aer_ConflictTerm d,
     aer_ConflictIndex = aer_ConflictIndex d \<rparr> = (d :: AppendEntriesReply)"
  by simp_all

lemma server_vote:
  assumes "GRPCServer_RequestVote rnd \<lparr> vq_Term = rv_Term args, vq_CandidateId = rv_CandidateID args,
      vq_LastLogIndex = rv_LastLogIndex args, vq_LastLogTerm = rv_LastLogTerm args \<rparr> n = Some (n', resp)"
  shows "HandleRequestVote rnd args n =
    Some (n', \<lparr> rvr_Term = vp_Term resp, rvr_VoteGranted = vp_VoteGranted resp \<rparr>)"
  using assms by (auto simp: GRPCServer_RequestVote_def struct_eta bind_eq_Some_conv)

lemma server_append:
  assumes "GRPCServer_AppendEntries rnd
    \<lparr> aq_Term = ae_Term args, aq_LeaderId = ae_LeaderID args, aq_PrevLogIndex = ae_PrevLogIndex args,
      aq_PrevLogTerm = ae_PrevLogTerm args,
      aq_Entries = map (\<lambda>e. \<lparr> lp_Term = le_Term e, lp_Index = le_Index e, lp_Command = le_Command e \<rparr>) (ae_Entries args),
      aq_LeaderCommit = ae_LeaderCommit args \<rparr> n = Some (n', resp)"
  shows "HandleAppendEntries rnd args n =
    Some (n', \<lparr> aer_Term = ap_Term resp, aer_Success = ap_Success resp,
      aer_ConflictTerm = ap_ConflictTerm resp, aer_ConflictIndex = ap_ConflictIndex resp \<rparr>)"
  using assms by (auto simp: GRPCServer_AppendEntries_def struct_eta bind_eq_Some_conv comp_def)

lemma grpc_vote_delivery:
  assumes "rpc_vote_once ad f iv v" "grpc_usable ad f w" "GRPC_SendRequestVote f iv w p args = (w', r)"
  shows "grpc_usable ad f w' \<and>
    (v (snd w') = v (snd w) \<and> isl r \<or>
     (\<exists>rnd n n' reply. v (snd w) p = Some n \<and> HandleRequestVote rnd args n = Some (n', reply) \<and>
        v (snd w') = (v (snd w))(p \<mapsto> n') \<and> (r = Inr reply \<or> isl r)))"
proof -
  obtain t x where g: "getConn f (fst w) p = (t, x)" by fastforce
  have u: "conns_ok f t" "addrs t = ad"
    using getConn_ok(1,2) [OF _ g] assms(2) by (simp_all add: grpc_usable_def)
  show ?thesis
  proof (cases x)
    case (Inl e)
    then show ?thesis using assms(3) g u by (auto simp: GRPC_SendRequestVote_def grpc_usable_def)
  next
    case (Inr conn)
    obtain addr k where c: "ad p = Some addr" "f k addr = Inr conn"
      using getConn_ok(3) [OF _ g Inr] assms(2) by (auto simp: grpc_usable_def)
    let ?req = "\<lparr> vq_Term = rv_Term args, vq_CandidateId = rv_CandidateID args,
      vq_LastLogIndex = rv_LastLogIndex args, vq_LastLogTerm = rv_LastLogTerm args \<rparr>"
    obtain sys' y where y: "iv conn ?req (snd w) = (sys', y)" by fastforce
    have w': "w' = (t, sys')" "isl y \<longleftrightarrow> isl r"
      "y = Inr resp \<Longrightarrow> r = Inr \<lparr> rvr_Term = vp_Term resp, rvr_VoteGranted = vp_VoteGranted resp \<rparr>" for resp
      using assms(3) g Inr y by (auto simp: GRPC_SendRequestVote_def split: sum.splits)
    show ?thesis
    proof (rule rpc_vote_onceD [OF assms(1) c y])
      assume "v sys' = v (snd w)" "isl y"
      then show ?thesis using w' u by (simp add: grpc_usable_def)
    next
      fix rnd n n' resp
      assume served: "v (snd w) p = Some n" "GRPCServer_RequestVote rnd ?req n = Some (n', resp)"
        "v sys' = (v (snd w))(p \<mapsto> n')" "y = Inr resp \<or> isl y"
      have "isl r \<or> r = Inr (snd (the (HandleRequestVote rnd args n)))"
        using served(4) w'(2,3) server_vote [OF served(2)] by auto
      then show ?thesis using served(1,3) server_vote [OF served(2)] w'(1) u by (auto simp: grpc_usable_def)
    qed
  qed
qed

lemma grpc_append_delivery:
  assumes "rpc_append_once ad f ia v" "grpc_usable ad f w" "GRPC_SendAppendEntries f ia w p args = (w', r)"
  shows "grpc_usable ad f w' \<and>
    (v (snd w') = v (snd w) \<and> isl r \<or>
     (\<exists>rnd n n' reply. v (snd w) p = Some n \<and> HandleAppendEntries rnd args n = Some (n', reply) \<and>
        v (snd w') = (v (snd w))(p \<mapsto> n') \<and> (r = Inr reply \<or> isl r)))"
proof -
  obtain t x where g: "getConn f (fst w) p = (t, x)" by fastforce
  have u: "conns_ok f t" "addrs t = ad"
    using getConn_ok(1,2) [OF _ g] assms(2) by (simp_all add: grpc_usable_def)
  show ?thesis
  proof (cases x)
    case (Inl e)
    then show ?thesis using assms(3) g u by (auto simp: GRPC_SendAppendEntries_def grpc_usable_def)
  next
    case (Inr conn)
    obtain addr k where c: "ad p = Some addr" "f k addr = Inr conn"
      using getConn_ok(3) [OF _ g Inr] assms(2) by (auto simp: grpc_usable_def)
    let ?req = "\<lparr> aq_Term = ae_Term args, aq_LeaderId = ae_LeaderID args, aq_PrevLogIndex = ae_PrevLogIndex args,
      aq_PrevLogTerm = ae_PrevLogTerm args,
      aq_Entries = map (\<lambda>e. \<lparr> lp_Term = le_Term e, lp_Index = le_Index e, lp_Command = le_Command e \<rparr>) (ae_Entries args),
      aq_LeaderCommit = ae_LeaderCommit args \<rparr>"
    obtain sys' y where y: "ia conn ?req (snd w) = (sys', y)" by fastforce
    have w': "w' = (t, sys')" "isl y \<longleftrightarrow> isl r"
      "y = Inr resp \<Longrightarrow> r = Inr \<lparr> aer_Term = ap_Term resp, aer_Success = ap_Success resp,
         aer_ConflictTerm = ap_ConflictTerm resp, aer_ConflictIndex = ap_ConflictIndex resp \<rparr>" for resp
      using assms(3) g Inr y by (auto simp: GRPC_SendAppendEntries_def split: sum.splits)
    show ?thesis
    proof (rule rpc_append_onceD [OF assms(1) c y])
      assume "v sys' = v (snd w)" "isl y"
      then show ?thesis using w' u by (simp add: grpc_usable_def)
    next
      fix rnd n n' resp
      assume served: "v (snd w) p = Some n" "GRPCServer_AppendEntries rnd ?req n = Some (n', resp)"
        "v sys' = (v (snd w))(p \<mapsto> n')" "y = Inr resp \<or> isl y"
      have "isl r \<or> r = Inr (snd (the (HandleAppendEntries rnd args n)))"
        using served(4) w'(2,3) server_append [OF served(2)] by auto
      then show ?thesis using served(1,3) server_append [OF served(2)] w'(1) u by (auto simp: grpc_usable_def)
    qed
  qed
qed

lemma grpc_raft_transport:
  assumes "rpc_vote_once ad f iv v" "rpc_append_once ad f ia v"
  shows "raft_transport (\<lambda>w. v (snd w)) (grpc_usable ad f)
    (\<lambda>w p a. Some (GRPC_SendRequestVote f iv w p a)) (\<lambda>w p a. Some (GRPC_SendAppendEntries f ia w p a))"
proof unfold_locales
  fix w p args w' r
  assume u: "grpc_usable ad f w" "Some (GRPC_SendRequestVote f iv w p args) = Some (w', r)"
  show "grpc_usable ad f w' \<and>
    (v (snd w') = v (snd w) \<and> isl r \<or>
     (\<exists>rnd n n' reply. v (snd w) p = Some n \<and> HandleRequestVote rnd args n = Some (n', reply) \<and>
        v (snd w') = (v (snd w))(p \<mapsto> n') \<and> (r = Inr reply \<or> isl r)))"
    by (rule grpc_vote_delivery [OF assms(1) u(1)]) (rule option.inject [THEN iffD1, OF u(2)])
next
  fix w p a w' q
  assume u: "grpc_usable ad f w" "Some (GRPC_SendAppendEntries f ia w p a) = Some (w', q)"
  show "grpc_usable ad f w' \<and>
    (v (snd w') = v (snd w) \<and> isl q \<or>
     (\<exists>rnd n n' reply. v (snd w) p = Some n \<and> HandleAppendEntries rnd a n = Some (n', reply) \<and>
        v (snd w') = (v (snd w))(p \<mapsto> n') \<and> (q = Inr reply \<or> isl q)))"
    by (rule grpc_append_delivery [OF assms(2) u(1)]) (rule option.inject [THEN iffD1, OF u(2)])
qed

section \<open>Calls in a cluster\<close>


text \<open>A library that meets the contract: a loopback in which a node is its own address and every
  call is served at once.\<close>

definition loop_client :: "nat \<Rightarrow> string \<Rightarrow> string + string" where
  "loop_client k addr = Inr addr"

definition loop_vote :: "string \<Rightarrow> VoteRequest \<Rightarrow> (NodeID \<rightharpoonup> Node) \<Rightarrow> (NodeID \<rightharpoonup> Node) \<times> (string + VoteResponse)" where
  "loop_vote conn req sys =
     (case Option.bind (sys conn) (GRPCServer_RequestVote 0 req) of
        None \<Rightarrow> (sys, Inl ''unavailable'')
      | Some (n', resp) \<Rightarrow> (sys(conn \<mapsto> n'), Inr resp))"

definition loop_append :: "string \<Rightarrow> AppendRequest \<Rightarrow> (NodeID \<rightharpoonup> Node) \<Rightarrow> (NodeID \<rightharpoonup> Node) \<times> (string + AppendResponse)" where
  "loop_append conn req sys =
     (case Option.bind (sys conn) (GRPCServer_AppendEntries 0 req) of
        None \<Rightarrow> (sys, Inl ''unavailable'')
      | Some (n', resp) \<Rightarrow> (sys(conn \<mapsto> n'), Inr resp))"

lemma loop_vote_once: "rpc_vote_once Some loop_client loop_vote (\<lambda>sys. sys)"
  unfolding rpc_vote_once_def loop_client_def loop_vote_def
  by (force simp: bind_eq_Some_conv split: option.splits)

lemma loop_append_once: "rpc_append_once Some loop_client loop_append (\<lambda>sys. sys)"
  unfolding rpc_append_once_def loop_client_def loop_append_def
  by (force simp: bind_eq_Some_conv split: option.splits)

interpretation loopback: raft_transport "\<lambda>w. snd w" "grpc_usable Some loop_client"
  "\<lambda>w p a. Some (GRPC_SendRequestVote loop_client loop_vote w p a)"
  "\<lambda>w p a. Some (GRPC_SendAppendEntries loop_client loop_append w p a)"
  by (rule grpc_raft_transport [OF loop_vote_once loop_append_once])

definition loop_world :: "cluster \<Rightarrow> string GRPCTransport \<times> (NodeID \<rightharpoonup> Node)" where
  "loop_world c = (NewGRPCTransport Some, \<lambda>p. Some (nodes c p))"

definition first_vote :: RequestVoteArgs where
  "first_vote = \<lparr> rv_Term = 1, rv_CandidateID = ''a'', rv_LastLogIndex = 0, rv_LastLogTerm = 0 \<rparr>"


end
