(* ===== verification/Test_Transport.thy ===== *)
theory Test_Transport
  imports Raft_Transport Complex_Main
begin

text \<open>
  The in-memory transport of the chaos tests (\<open>tests/chaos/test_transport.go\<close>): it calls the
  handlers directly and injects partitions, drops and delays.  The random number of a call
  (\<open>draw\<close>), whether its context is already done (\<open>ctxDone\<close>) and the random number of the handler's
  election timer (\<open>rnd\<close>) are arguments.
\<close>

section \<open>The code\<close>

record TestTransport =
  tt_nodes :: "NodeID \<rightharpoonup> Node"
  partitioned :: "NodeID \<rightharpoonup> (NodeID \<rightharpoonup> bool)"
  minDelay :: int
  maxDelay :: int
  dropRate :: rat

datatype test_error =
  Partitioned NodeID NodeID
| Dropped NodeID NodeID
| NodeNotFound NodeID
| ContextDone

definition NewTestTransport :: TestTransport where
  "NewTestTransport = \<lparr> tt_nodes = Map.empty, partitioned = Map.empty, minDelay = 0, maxDelay = 0, dropRate = 0 \<rparr>"

definition RegisterNode :: "NodeID \<Rightarrow> Node \<Rightarrow> TestTransport \<Rightarrow> TestTransport" where
  "RegisterNode p n t = t\<lparr>tt_nodes := (tt_nodes t)(p \<mapsto> n)\<rparr>"

text \<open>Writing \<open>partitioned[a][b] = true\<close> after the inner map was created where it was nil.\<close>

definition block :: "NodeID \<Rightarrow> NodeID \<Rightarrow> (NodeID \<rightharpoonup> (NodeID \<rightharpoonup> bool)) \<Rightarrow> (NodeID \<rightharpoonup> (NodeID \<rightharpoonup> bool))" where
  "block a b m = m(a \<mapsto> (go_get Map.empty m a)(b \<mapsto> True))"

definition Partition :: "NodeID \<Rightarrow> NodeID \<Rightarrow> TestTransport \<Rightarrow> TestTransport" where
  "Partition a b t = t\<lparr>partitioned := block b a (block a b (partitioned t))\<rparr>"

definition unblock :: "NodeID \<Rightarrow> NodeID \<Rightarrow> (NodeID \<rightharpoonup> (NodeID \<rightharpoonup> bool)) \<Rightarrow> (NodeID \<rightharpoonup> (NodeID \<rightharpoonup> bool))" where
  "unblock a b m = (case m a of None \<Rightarrow> m | Some x \<Rightarrow> m(a \<mapsto> x(b := None)))"

definition Heal :: "NodeID \<Rightarrow> NodeID \<Rightarrow> TestTransport \<Rightarrow> TestTransport" where
  "Heal a b t = t\<lparr>partitioned := unblock b a (unblock a b (partitioned t))\<rparr>"

definition HealAll :: "TestTransport \<Rightarrow> TestTransport" where
  "HealAll t = t\<lparr>partitioned := Map.empty\<rparr>"

text \<open>\<open>order\<close> is the order in which the loop visits the registered nodes.\<close>

definition PartitionNode :: "NodeID list \<Rightarrow> NodeID \<Rightarrow> TestTransport \<Rightarrow> TestTransport" where
  "PartitionNode order nodeID t =
     t\<lparr>partitioned := fold (\<lambda>p m. if p = nodeID then m else block p nodeID (block nodeID p m)) order (partitioned t)\<rparr>"

definition SetDelay :: "int \<Rightarrow> int \<Rightarrow> TestTransport \<Rightarrow> TestTransport" where
  "SetDelay lo hi t = t\<lparr>minDelay := lo, maxDelay := hi\<rparr>"

definition SetDropRate :: "rat \<Rightarrow> TestTransport \<Rightarrow> TestTransport" where
  "SetDropRate rate t = t\<lparr>dropRate := rate\<rparr>"

definition isPartitioned :: "TestTransport \<Rightarrow> NodeID \<Rightarrow> NodeID \<Rightarrow> bool" where
  "isPartitioned t src dst = (case partitioned t src of Some m \<Rightarrow> go_get False m dst | None \<Rightarrow> False)"

definition shouldDrop :: "rat \<Rightarrow> TestTransport \<Rightarrow> bool" where
  "shouldDrop draw t \<longleftrightarrow> 0 < dropRate t \<and> draw < dropRate t"

text \<open>The time a call sleeps; \<open>k\<close> is the draw of \<open>rand.Int63n\<close> below the width of the range.\<close>

definition applyDelay :: "int \<Rightarrow> TestTransport \<Rightarrow> int" where
  "applyDelay k t =
     (if maxDelay t > 0 then (if maxDelay t > minDelay t then minDelay t + k else minDelay t) else 0)"

definition TT_SendRequestVote ::
  "rat \<Rightarrow> bool \<Rightarrow> int \<Rightarrow> NodeID \<Rightarrow> TestTransport \<Rightarrow> NodeID \<Rightarrow> RequestVoteArgs \<Rightarrow>
   (TestTransport \<times> (test_error + RequestVoteReply)) option" where
  "TT_SendRequestVote draw ctxDone rnd source t target args =
     (if isPartitioned t source target then Some (t, Inl (Partitioned source target))
      else if shouldDrop draw t then Some (t, Inl (Dropped source target))
      else case tt_nodes t target of
        None \<Rightarrow> Some (t, Inl (NodeNotFound target))
      | Some n \<Rightarrow>
          if ctxDone then Some (t, Inl ContextDone)
          else do { (n', reply) \<leftarrow> HandleRequestVote rnd args n;
                    Some (t\<lparr>tt_nodes := (tt_nodes t)(target \<mapsto> n')\<rparr>, Inr reply) })"

definition TT_SendAppendEntries ::
  "rat \<Rightarrow> bool \<Rightarrow> int \<Rightarrow> NodeID \<Rightarrow> TestTransport \<Rightarrow> NodeID \<Rightarrow> AppendEntriesArgs \<Rightarrow>
   (TestTransport \<times> (test_error + AppendEntriesReply)) option" where
  "TT_SendAppendEntries draw ctxDone rnd source t target args =
     (if isPartitioned t source target then Some (t, Inl (Partitioned source target))
      else if shouldDrop draw t then Some (t, Inl (Dropped source target))
      else case tt_nodes t target of
        None \<Rightarrow> Some (t, Inl (NodeNotFound target))
      | Some n \<Rightarrow>
          if ctxDone then Some (t, Inl ContextDone)
          else do { (n', reply) \<leftarrow> HandleAppendEntries rnd args n;
                    Some (t\<lparr>tt_nodes := (tt_nodes t)(target \<mapsto> n')\<rparr>, Inr reply) })"

section \<open>The transport contract\<close>

interpretation chaos: raft_transport tt_nodes "\<lambda>_. True"
  "TT_SendRequestVote draw ctxDone rnd source" "TT_SendAppendEntries draw ctxDone rnd source"
  for draw ctxDone rnd source
proof unfold_locales
  fix w p args w' r
  assume "TT_SendRequestVote draw ctxDone rnd source w p args = Some (w', r)"
  then show "True \<and> (tt_nodes w' = tt_nodes w \<and> isl r \<or>
      (\<exists>rnd n n' reply. tt_nodes w p = Some n \<and> HandleRequestVote rnd args n = Some (n', reply) \<and>
        tt_nodes w' = (tt_nodes w)(p \<mapsto> n') \<and> (r = Inr reply \<or> isl r)))"
    by (cases "tt_nodes w p"; cases "Option.bind (tt_nodes w p) (HandleRequestVote rnd args)")
      (auto simp: TT_SendRequestVote_def split: if_splits intro!: exI [of _ rnd])
next
  fix w p a w' q
  assume "TT_SendAppendEntries draw ctxDone rnd source w p a = Some (w', q)"
  then show "True \<and> (tt_nodes w' = tt_nodes w \<and> isl q \<or>
      (\<exists>rnd n n' reply. tt_nodes w p = Some n \<and> HandleAppendEntries rnd a n = Some (n', reply) \<and>
        tt_nodes w' = (tt_nodes w)(p \<mapsto> n') \<and> (q = Inr reply \<or> isl q)))"
    by (cases "tt_nodes w p"; cases "Option.bind (tt_nodes w p) (HandleAppendEntries rnd a)")
      (auto simp: TT_SendAppendEntries_def split: if_splits intro!: exI [of _ rnd])
qed

section \<open>Partitions\<close>

text \<open>The abstract state: the ordered pairs between which messages are blocked.\<close>

definition blocked :: "TestTransport \<Rightarrow> (NodeID \<times> NodeID) set" where
  "blocked t = {(x, y). isPartitioned t x y}"

definition blocks :: "(NodeID \<rightharpoonup> (NodeID \<rightharpoonup> bool)) \<Rightarrow> (NodeID \<times> NodeID) set" where
  "blocks m = {(x, y). case m x of Some m' \<Rightarrow> go_get False m' y | None \<Rightarrow> False}"

lemma blocked_eq: "blocked t = blocks (partitioned t)"
  by (simp add: blocked_def blocks_def isPartitioned_def)

lemma blocks_block: "blocks (block a b m) = insert (a, b) (blocks m)"
proof -
  have "(x, y) \<in> blocks (block a b m) \<longleftrightarrow> (x = a \<and> y = b) \<or> (x, y) \<in> blocks m" for x y
    by (cases "x = a"; cases "m a"; cases "y = b") (simp_all add: blocks_def block_def go_get_def)
  then show ?thesis by auto
qed

lemma blocks_unblock: "blocks (unblock a b m) = blocks m - {(a, b)}"
proof -
  have "(x, y) \<in> blocks (unblock a b m) \<longleftrightarrow> (x, y) \<in> blocks m \<and> (x, y) \<noteq> (a, b)" for x y
    by (cases "x = a"; cases "m a"; cases "y = b") (simp_all add: blocks_def unblock_def go_get_def)
  then show ?thesis by auto
qed

lemma blocks_isolate:
  "blocks (fold (\<lambda>p m. if p = v then m else block p v (block v p m)) order m) =
     blocks m \<union> {(x, y). x \<noteq> y \<and> (x = v \<and> y \<in> set order \<or> y = v \<and> x \<in> set order)}"
  by (induction order arbitrary: m) (auto simp: blocks_block)

text \<open>C37. The partitions of the test transport are a relation between nodes: \<open>Partition\<close> adds a pair
  in both directions, \<open>Heal\<close> removes it, \<open>HealAll\<close> clears the relation and \<open>PartitionNode\<close>
  separates a node from all visited others, whatever their order; a call between separated nodes
  fails and changes no node.\<close>

theorem partitions_refine_relation:
  "blocked (Partition a b t) = blocked t \<union> {(a, b), (b, a)} \<and>
   blocked (Heal a b t) = blocked t - {(a, b), (b, a)} \<and>
   blocked (HealAll t) = {} \<and>
   blocked (PartitionNode order v t) = blocked t \<union> ({v} \<times> (set order - {v})) \<union> ((set order - {v}) \<times> {v}) \<and>
   ((x, y) \<in> blocked t \<longrightarrow>
     TT_SendRequestVote draw ctxDone rnd x t y args = Some (t, Inl (Partitioned x y)) \<and>
     TT_SendAppendEntries draw ctxDone rnd x t y a' = Some (t, Inl (Partitioned x y)))"
proof -
  have "blocked (PartitionNode order v t) =
      blocked t \<union> ({v} \<times> (set order - {v})) \<union> ((set order - {v}) \<times> {v})"
    unfolding blocked_eq PartitionNode_def by (auto simp: blocks_isolate)
  moreover have "blocked (HealAll t) = {}" by (simp add: blocked_eq HealAll_def blocks_def)
  ultimately show ?thesis
    by (auto simp: blocked_eq Partition_def Heal_def blocks_block blocks_unblock)
      (auto simp: blocked_eq [symmetric] blocked_def TT_SendRequestVote_def TT_SendAppendEntries_def)
qed

definition sample_vote :: RequestVoteArgs where
  "sample_vote = \<lparr> rv_Term = 1, rv_CandidateID = ''a'', rv_LastLogIndex = 0, rv_LastLogTerm = 0 \<rparr>"

theorem partitions_refine_relation_witness:
  "(''a'', ''b'') \<in> blocked (Partition ''b'' ''a'' NewTestTransport) \<and>
   TT_SendRequestVote 0 False 0 ''a'' (Partition ''b'' ''a'' NewTestTransport) ''b'' sample_vote =
     Some (Partition ''b'' ''a'' NewTestTransport, Inl (Partitioned ''a'' ''b''))"
proof -
  have "(''a'', ''b'') \<in> blocked (Partition ''b'' ''a'' NewTestTransport)"
    using partitions_refine_relation [of "''b''" "''a''" NewTestTransport] by simp
  then show ?thesis using partitions_refine_relation [of _ _ "Partition ''b'' ''a'' NewTestTransport"] by blast
qed

lemma applyDelay_bounds:
  assumes "0 \<le> k" "k < maxDelay t - minDelay t" "0 < maxDelay t"
  shows "minDelay t \<le> applyDelay k t \<and> applyDelay k t < maxDelay t"
  using assms by (simp add: applyDelay_def)

section \<open>Calls in a cluster\<close>

text \<open>A call of the test transport between two nodes of a cluster, whatever is partitioned,
  dropped or cancelled, is a run of the cluster model that delivers the request at most once, and
  a returned reply is the reply sent in that run.\<close>

theorem test_send_simulates:
  assumes "sees tt_nodes t c" and "p \<in> set (ids c)" and "terms_small c"
  shows "(VoteReq i p args \<in> set (net c) \<and> TT_SendRequestVote draw ctxDone rnd i t p args = Some (t', r) \<longrightarrow>
      (\<exists>c'. reachable c c' \<and> sees tt_nodes t' c' \<and>
        (\<forall>reply. r = Inr reply \<longrightarrow> VoteResp p i (rv_Term args) reply \<in> set (net c')))) \<and>
    (AppendReq i p k a \<in> set (net c) \<and> TT_SendAppendEntries draw ctxDone rnd i t p a = Some (t', q) \<longrightarrow>
      (\<exists>c'. reachable c c' \<and> sees tt_nodes t' c' \<and>
        (\<forall>reply. q = Inr reply \<longrightarrow> AppendResp p i k (ae_Term a) (ae_Entries a) reply \<in> set (net c'))))"
  using chaos.vote_simulates [OF TrueI assms(1,2) _ assms(3)]
    chaos.append_simulates [OF TrueI assms(1,2) _ assms(3)] by meson

definition test_world :: "cluster \<Rightarrow> TestTransport" where
  "test_world c = NewTestTransport\<lparr>tt_nodes := \<lambda>p. Some (nodes c p)\<rparr>"

theorem test_send_simulates_witness:
  "\<exists>c c' t' reply. reachable (init_cluster [''a'', ''b''] (\<lambda>_. None)) c \<and> reachable c c' \<and>
     TT_SendRequestVote 0 False 3 ''a'' (test_world c) ''b'' sample_vote = Some (t', Inr reply) \<and>
     rvr_VoteGranted reply \<and> sees tt_nodes t' c' \<and> VoteResp ''b'' ''a'' 1 reply \<in> set (net c')"
proof -
  have "after [Election ''a'' 7] (init_cluster [''a'', ''b''] (\<lambda>_. None)) (\<lambda>c. terms_small c \<and>
      ids c = [''a'', ''b''] \<and> list_ex (\<lambda>m. m = VoteReq ''a'' ''b'' sample_vote) (net c) \<and>
      (case HandleRequestVote 3 sample_vote (nodes c ''b'') of
         None \<Rightarrow> False | Some (n', reply) \<Rightarrow> rvr_VoteGranted reply))"
    by code_simp
  then obtain c n' reply where c: "reachable (init_cluster [''a'', ''b''] (\<lambda>_. None)) c" "terms_small c"
      "ids c = [''a'', ''b'']" "VoteReq ''a'' ''b'' sample_vote \<in> set (net c)"
      "HandleRequestVote 3 sample_vote (nodes c ''b'') = Some (n', reply)" "rvr_VoteGranted reply"
    by (auto elim!: afterE simp: list_ex_iff split: option.splits)
  have s: "TT_SendRequestVote 0 False 3 ''a'' (test_world c) ''b'' sample_vote =
      Some ((test_world c)\<lparr>tt_nodes := (tt_nodes (test_world c))(''b'' \<mapsto> n')\<rparr>, Inr reply)"
    using c(5) by (simp add: TT_SendRequestVote_def test_world_def NewTestTransport_def isPartitioned_def shouldDrop_def)
  have "sees tt_nodes (test_world c) c" "''b'' \<in> set (ids c)" "rv_Term sample_vote = 1"
    by (simp_all add: sees_def test_world_def c(3) sample_vote_def)
  with test_send_simulates [of "test_world c" c "''b''" "''a''" sample_vote] c s show ?thesis by metis
qed

end
