(* ===== verification/Server_Main.thy ===== *)
theory Server_Main
  imports Server_Config Raft_Restart Http_Api Grpc_Transport
begin

text \<open>
  The server process of \<open>cmd/server/main.go\<close>: it parses the flags, opens and replays the WAL,
  creates the transport, the node and the store, starts the node and the HTTP server, and takes
  everything down again on a signal.  The file system is a function from directories to their
  content; \<open>io\<close> scripts the outcomes of the system calls on the WAL directory.
\<close>

section \<open>The code\<close>

record 'conn Process =
  pr_walDir :: string
  pr_node :: Node
  pr_store :: KVStore
  pr_transport :: "'conn GRPCTransport"
  pr_grpcAddr :: string
  pr_handler :: Handler
  pr_http :: Server

definition main_boot ::
  "string list \<Rightarrow> (string \<Rightarrow> dirent list) \<Rightarrow> io_res list \<Rightarrow> int \<Rightarrow> 'conn Process run_result option" where
  "main_boot args files script rnd =
     (case Parse args of
        Exits code \<Rightarrow> Some (Exits code)
      | Returns (Inl err) \<Rightarrow> Some (Exits 1)
      | Returns (Inr cfg) \<Rightarrow>
          (let walDir = filepath_Join [cfg_DataDir cfg, cfg_NodeID cfg, ''wal'']
           in case NewWAL (files walDir) script of
                (Inl err, _) \<Rightarrow> Some (Exits 1)
              | (Inr w, _) \<Rightarrow>
                  (let grpcTransport = NewGRPCTransport (cfg_PeerGRPCAddrs cfg);
                       node = NewNode (cfg_NodeID cfg) (cfg_Peers cfg) (Some w)
                   in case Node_Replay node of
                        None \<Rightarrow> None
                      | Some (Inl err) \<Rightarrow> Some (Exits 1)
                      | Some (Inr n) \<Rightarrow>
                          Some (Returns
                            \<lparr> pr_walDir = walDir, pr_node = Start rnd n, pr_store = NewKVStore,
                              pr_transport = grpcTransport, pr_grpcAddr = cfg_GRPCAddr cfg,
                              pr_handler = NewHandler (cfg_PeerHTTPAddrs cfg),
                              pr_http = NewServer (cfg_HTTPAddr cfg) \<rparr>))))"

text \<open>
  The end of \<open>main\<close> after the signal: the servers are stopped (which touches no state of the
  model), then the node; the deferred calls close the transport and the WAL.  \<open>order\<close> and
  \<open>close_conn\<close> are the order of the connection cache and the outcome of closing each.
\<close>

definition main_shutdown ::
  "('conn \<Rightarrow> string option) \<Rightarrow> (NodeID \<times> 'conn) list \<Rightarrow> 'conn Process \<Rightarrow> 'conn Process option" where
  "main_shutdown close_conn order p =
     do { n \<leftarrow> Stop (pr_node p);
          Some (p\<lparr>pr_transport := fst (GRPC_Close close_conn order (pr_transport p)),
                 pr_node := (case wal n of None \<Rightarrow> n | Some w \<Rightarrow> n\<lparr>wal := Some (snd (Close w))\<rparr>)\<rparr>) }"

section \<open>Booting\<close>

lemma main_boot_Returns:
  assumes "main_boot args files script rnd = Some (Returns p)"
  obtains cfg w ds n where "Parse args = Returns (Inr cfg)"
    "NewWAL (files (filepath_Join [cfg_DataDir cfg, cfg_NodeID cfg, ''wal''])) script = (Inr w, ds)"
    "Node_Replay (NewNode (cfg_NodeID cfg) (cfg_Peers cfg) (Some w)) = Some (Inr n)"
    "p = \<lparr> pr_walDir = filepath_Join [cfg_DataDir cfg, cfg_NodeID cfg, ''wal''], pr_node = Start rnd n,
       pr_store = NewKVStore, pr_transport = NewGRPCTransport (cfg_PeerGRPCAddrs cfg),
       pr_grpcAddr = cfg_GRPCAddr cfg, pr_handler = NewHandler (cfg_PeerHTTPAddrs cfg),
       pr_http = NewServer (cfg_HTTPAddr cfg) \<rparr>"
  using assms that unfolding main_boot_def Let_def
  by (auto split: run_result.splits sum.splits prod.splits option.splits)

lemma main_boot_node:
  assumes "Parse args = Returns (Inr cfg)"
    and "NewWAL (files (filepath_Join [cfg_DataDir cfg, cfg_NodeID cfg, ''wal''])) script = (Inr w, ds)"
    and "Node_Replay (NewNode (cfg_NodeID cfg) (cfg_Peers cfg) (Some w)) = Some (Inr n)"
  obtains p where "main_boot args files script rnd = Some (Returns p)" "pr_node p = Start rnd n"
    "pr_store p = NewKVStore" "pr_walDir p = filepath_Join [cfg_DataDir cfg, cfg_NodeID cfg, ''wal'']"
    "addrs (pr_transport p) = cfg_PeerGRPCAddrs cfg" "conns (pr_transport p) = Map.empty"
    "h_peerHTTPAddrs (pr_handler p) = cfg_PeerHTTPAddrs cfg"
  using assms that by (simp add: main_boot_def NewGRPCTransport_def NewHandler_def)

lemma Node_Replay_frame:
  assumes "Node_Replay n = Some (Inr m)"
  shows "node_id m = node_id n" "peers m = peers n" "state m = state n" "commitIndex m = commitIndex n"
    "lastApplied m = lastApplied n" "applyCh m = applyCh n" "stopped m = stopped n"
  using assms
  by (auto simp: Node_Replay_def Let_def bind_eq_Some_conv split: option.splits prod.splits sum.splits if_splits)

lemma replay_fresh:
  assumes "NewWAL [] [] = (Inr w, ds)"
  shows "\<exists>w'. Node_Replay (NewNode i ps (Some w)) = Some (Inr (NewNode i ps (Some w')))"
proof -
  have w: "wal_holds w [] []" using open_empty assms by auto
  have "payload_ok []" "0 < length (encode_record RecordTerm [])" by (simp_all add: payload_ok_def)
  then obtain w' where "wal_Replay w = Some (Inr (recovered []), w')"
    using replay_directory [of w "[]" "[]" 0 RecordTerm "[]"] w by (auto simp: wal_holds_def rec_files_def)
  then show ?thesis by (auto simp: Node_Replay_def NewNode_def recovered_def replay_zero_def)
qed

text \<open>C40. Servers that share a data directory never share a WAL directory: when the node ids are
  plain file names, two processes with the same WAL directory have the same node id.\<close>

theorem wal_directories_distinct:
  assumes "main_boot args files script rnd = Some (Returns p)"
    and "main_boot args' files' script' rnd' = Some (Returns p')"
    and "map_run_result (map_sum id cfg_DataDir) (Parse args) = map_run_result (map_sum id cfg_DataDir) (Parse args')"
    and "plain_name (node_id (pr_node p))" and "plain_name (node_id (pr_node p'))"
    and "pr_walDir p = pr_walDir p'"
  shows "node_id (pr_node p) = node_id (pr_node p')"
proof -
  obtain cfg w ds n where c: "Parse args = Returns (Inr cfg)"
    "Node_Replay (NewNode (cfg_NodeID cfg) (cfg_Peers cfg) (Some w)) = Some (Inr n)" "pr_node p = Start rnd n"
    "pr_walDir p = filepath_Join [cfg_DataDir cfg, cfg_NodeID cfg, ''wal'']"
    by (rule main_boot_Returns [OF assms(1)]) simp
  obtain cfg' w' ds' n' where c': "Parse args' = Returns (Inr cfg')"
    "Node_Replay (NewNode (cfg_NodeID cfg') (cfg_Peers cfg') (Some w')) = Some (Inr n')" "pr_node p' = Start rnd' n'"
    "pr_walDir p' = filepath_Join [cfg_DataDir cfg', cfg_NodeID cfg', ''wal'']"
    by (rule main_boot_Returns [OF assms(2)]) simp
  have ids: "node_id (pr_node p) = cfg_NodeID cfg" "node_id (pr_node p') = cfg_NodeID cfg'"
    using Node_Replay_frame(1) [OF c(2)] Node_Replay_frame(1) [OF c'(2)] c(3) c'(3)
    by (simp_all add: Start_def NewNode_def)
  have "cfg_DataDir cfg = cfg_DataDir cfg'" using assms(3) c(1) c'(1) by simp
  then show ?thesis
    using filepath_Join_inj [of "cfg_NodeID cfg" "cfg_NodeID cfg'" "''wal''"] assms(4-6) ids c(4) c'(4)
    by (simp add: plain_name_def)
qed

text \<open>A sample command line.\<close>

definition sample_args :: "string list" where
  "sample_args = [''--node-id=a'', ''--peers=b,c'']"

definition sample_cfg :: Config where
  "sample_cfg = \<lparr> cfg_NodeID = ''a'', cfg_Peers = [''b'', ''c''], cfg_HTTPAddr = '':8080'', cfg_GRPCAddr = '':9090'',
     cfg_DataDir = ''./data'', cfg_PeerGRPCAddrs = Map.empty, cfg_PeerHTTPAddrs = Map.empty \<rparr>"

lemma sample_Parse: "Parse sample_args = Returns (Inr sample_cfg)"
proof -
  have "flag_Parse sample_args flag_defaults = Returns (flag_defaults\<lparr>fl_nodeID := ''a'', fl_peers := ''b,c''\<rparr>)"
    by code_simp
  moreover have "peers_loop (Split (CHR '','') ''b,c'') [] = [''b'', ''c'']" by code_simp
  ultimately show ?thesis using Parse_returns by (simp add: flag_defaults_def sample_cfg_def)
qed

lemma sample_dir: "filepath_Join [cfg_DataDir sample_cfg, cfg_NodeID sample_cfg, ''wal''] = ''data/a/wal''"
  by code_simp

lemma moved_Parse:
  "Parse (sample_args @ [''-http-addr=:81'']) = Returns (Inr (sample_cfg\<lparr>cfg_HTTPAddr := '':81''\<rparr>))"
proof -
  have "flag_Parse (sample_args @ [''-http-addr=:81'']) flag_defaults =
      Returns (flag_defaults\<lparr>fl_nodeID := ''a'', fl_peers := ''b,c'', fl_httpAddr := '':81''\<rparr>)"
    by code_simp
  moreover have "peers_loop (Split (CHR '','') ''b,c'') [] = [''b'', ''c'']" by code_simp
  ultimately show ?thesis using Parse_returns by (simp add: flag_defaults_def sample_cfg_def)
qed

lemma fresh_boot:
  assumes "Parse args = Returns (Inr cfg)"
  obtains p :: "'conn Process" and w where "main_boot args (\<lambda>_. []) [] rnd = Some (Returns p)"
    "pr_node p = Start rnd (NewNode (cfg_NodeID cfg) (cfg_Peers cfg) (Some w))"
    "pr_walDir p = filepath_Join [cfg_DataDir cfg, cfg_NodeID cfg, ''wal'']"
proof -
  obtain w where w: "NewWAL [] [] = (Inr w, wal_dir [[]])" using open_empty by blast
  obtain w' where "Node_Replay (NewNode (cfg_NodeID cfg) (cfg_Peers cfg) (Some w)) =
      Some (Inr (NewNode (cfg_NodeID cfg) (cfg_Peers cfg) (Some w')))"
    using replay_fresh [OF w] by blast
  then show thesis
    using main_boot_node [where files = "\<lambda>_. []", OF assms w, of _ rnd] that by metis
qed

lemma moved_dir:
  "filepath_Join [cfg_DataDir (sample_cfg\<lparr>cfg_HTTPAddr := '':81''\<rparr>),
     cfg_NodeID (sample_cfg\<lparr>cfg_HTTPAddr := '':81''\<rparr>), ''wal''] = ''data/a/wal''"
  by code_simp

theorem wal_directories_distinct_witness:
  "\<exists>(p :: string Process) (p' :: string Process).
     main_boot sample_args (\<lambda>_. []) [] 5 = Some (Returns p) \<and>
     main_boot (sample_args @ [''-http-addr=:81'']) (\<lambda>_. []) [] 6 = Some (Returns p') \<and>
     pr_walDir p = pr_walDir p' \<and> node_id (pr_node p) = ''a'' \<and> node_id (pr_node p) = node_id (pr_node p')"
proof -
  obtain p :: "string Process" and w where p: "main_boot sample_args (\<lambda>_. []) [] 5 = Some (Returns p)"
    "pr_node p = Start 5 (NewNode (cfg_NodeID sample_cfg) (cfg_Peers sample_cfg) (Some w))"
    "pr_walDir p = ''data/a/wal''"
    using fresh_boot [OF sample_Parse] unfolding sample_dir .
  let ?cfg = "sample_cfg\<lparr>cfg_HTTPAddr := '':81''\<rparr>"
  obtain p' :: "string Process" and w' where p':
    "main_boot (sample_args @ [''-http-addr=:81'']) (\<lambda>_. []) [] 6 = Some (Returns p')"
    "pr_node p' = Start 6 (NewNode (cfg_NodeID ?cfg) (cfg_Peers ?cfg) (Some w'))" "pr_walDir p' = ''data/a/wal''"
    using fresh_boot [OF moved_Parse] unfolding moved_dir .
  have "node_id (pr_node p) = ''a''" "node_id (pr_node p') = ''a''"
    using p(2) p'(2) by (simp_all add: Start_def NewNode_def sample_cfg_def)
  moreover from this have "plain_name (node_id (pr_node p))" "plain_name (node_id (pr_node p'))"
    by (simp_all add: plain_name_def)
  moreover have "map_run_result (map_sum id cfg_DataDir) (Parse sample_args) =
      map_run_result (map_sum id cfg_DataDir) (Parse (sample_args @ [''-http-addr=:81'']))"
    by (simp add: sample_Parse moved_Parse)
  ultimately show ?thesis
    using wal_directories_distinct [OF p(1) p'(1)] p(1,3) p'(1,3) by metis
qed

text \<open>C39. A first start. With a parsed configuration that lists the other members of a cluster as
  peers, an empty WAL directory and no I/O errors, the process comes up with the node and the
  store that the initial state of the cluster model has for it, its election timer started, and
  with an empty connection cache over the configured addresses.\<close>

theorem boot_fresh:
  assumes "Parse args = Returns (Inr cfg)" and "cfg_Peers cfg = filter (\<lambda>j. j \<noteq> cfg_NodeID cfg) is"
    and "files (filepath_Join [cfg_DataDir cfg, cfg_NodeID cfg, ''wal'']) = []"
  shows "\<exists>(p :: 'conn Process) w. main_boot args files [] rnd = Some (Returns p) \<and>
    pr_node p = Start rnd (nodes (init_cluster is (\<lambda>_. Some w)) (cfg_NodeID cfg)) \<and>
    pr_store p = stores (init_cluster is (\<lambda>_. Some w)) (cfg_NodeID cfg) \<and>
    addrs (pr_transport p) = cfg_PeerGRPCAddrs cfg \<and> conns (pr_transport p) = Map.empty \<and>
    h_peerHTTPAddrs (pr_handler p) = cfg_PeerHTTPAddrs cfg"
proof -
  obtain w where w: "NewWAL [] [] = (Inr w, wal_dir [[]])" using open_empty by blast
  obtain w' where "Node_Replay (NewNode (cfg_NodeID cfg) (cfg_Peers cfg) (Some w)) =
      Some (Inr (NewNode (cfg_NodeID cfg) (cfg_Peers cfg) (Some w')))"
    using replay_fresh [OF w] by blast
  from main_boot_node [where files = files, OF assms(1) w [folded assms(3)] this, of rnd] obtain p :: "'conn Process" where
    "main_boot args files [] rnd = Some (Returns p)"
    "pr_node p = Start rnd (NewNode (cfg_NodeID cfg) (cfg_Peers cfg) (Some w'))" "pr_store p = NewKVStore"
    "addrs (pr_transport p) = cfg_PeerGRPCAddrs cfg" "conns (pr_transport p) = Map.empty"
    "h_peerHTTPAddrs (pr_handler p) = cfg_PeerHTTPAddrs cfg"
    by blast
  then show ?thesis by (intro exI [of _ p] exI [of _ w']) (simp add: init_cluster_def assms(2))
qed


theorem boot_fresh_witness:
  "\<exists>(p :: string Process) w. main_boot sample_args (\<lambda>_. []) [] 5 = Some (Returns p) \<and>
     pr_node p = Start 5 (nodes (init_cluster [''a'', ''b'', ''c''] (\<lambda>_. Some w)) ''a'')"
proof -
  have "cfg_Peers sample_cfg = filter (\<lambda>j. j \<noteq> cfg_NodeID sample_cfg) [''a'', ''b'', ''c'']"
    "cfg_NodeID sample_cfg = ''a''" by (simp_all add: sample_cfg_def)
  with boot_fresh [OF sample_Parse this(1), of "\<lambda>_. []" 5] show ?thesis by auto
qed


section \<open>Exits\<close>

lemma flag_Parse_exit: "flag_Parse args f = Exits code \<Longrightarrow> code = 0 \<or> code = 2"
proof (induction "length args" arbitrary: args f rule: less_induct)
  case less
  have IH: "length rest < length args \<Longrightarrow> flag_Parse rest g = Exits code \<Longrightarrow> code = 0 \<or> code = 2" for rest g
    using less(1) .
  show ?case
  proof (cases args)
    case (Cons s rest)
    show ?thesis
      using less(2) IH [of rest] IH [of "tl rest"] unfolding Cons
      by (subst (asm) flag_Parse.simps)
        (auto simp: Let_def split: if_splits option.splits list.splits)
  qed (use less(2) in \<open>simp add: flag_Parse.simps\<close>)
qed

text \<open>When the process does not come up it exits: with the code of the flag package, 0 for help
  and 2 for wrong flags, or with 1 when the configuration is invalid or when opening or
  replaying the WAL fails; nothing else ends a boot without a panic.\<close>

theorem boot_exit_codes:
  assumes "main_boot args files script rnd = Some (Exits code)"
  shows "(Parse args = Exits code \<and> (code = 0 \<or> code = 2)) \<or>
    code = 1 \<and>
     ((\<exists>e. Parse args = Returns (Inl e)) \<or>
      (\<exists>cfg. Parse args = Returns (Inr cfg) \<and>
        (case NewWAL (files (filepath_Join [cfg_DataDir cfg, cfg_NodeID cfg, ''wal''])) script of
           (Inl e, _) \<Rightarrow> True
         | (Inr w, _) \<Rightarrow> (\<exists>e. Node_Replay (NewNode (cfg_NodeID cfg) (cfg_Peers cfg) (Some w)) = Some (Inl e)))))"
proof (cases "Parse args")
  case (Exits c)
  then have "flag_Parse args flag_defaults = Exits c"
    by (simp add: Parse_def split: run_result.splits)
  then show ?thesis using flag_Parse_exit assms Exits by (auto simp: main_boot_def)
next
  case (Returns r)
  then show ?thesis using assms
    by (cases r) (auto simp: main_boot_def Let_def split: prod.splits sum.splits option.splits)
qed

theorem boot_exit_codes_witness:
  "main_boot [''-h''] (\<lambda>_. []) [] 0 = (Some (Exits 0) :: string Process run_result option) \<and>
   Parse [''-h''] = Exits 0"
proof -
  have "flag_Parse [''-h''] flag_defaults = Exits 0" by code_simp
  then have b: "main_boot [''-h''] (\<lambda>_. []) [] 0 = (Some (Exits 0) :: string Process run_result option)"
    by (simp add: main_boot_def Parse_def)
  then show ?thesis using boot_exit_codes [OF b] by simp
qed

end
