(* ===== verification/Spec2Isabelle.thy ===== *)
theory Spec2Isabelle
  imports Raft_Availability Raft_Goroutines Go_Json_Fuel Raft_Restart Raft_Wal_Errors Server_Config Http_Cluster Grpc_Transport Test_Transport Server_Main
begin

text \<open>
  A verification development of RaftKV, a key-value store that is replicated with the Raft
  protocol and written in Go (\<open>src/\<close>).

  \<^bold>\<open>The program.\<close> A server process (\<open>cmd/server/main.go\<close>) reads its configuration
  (\<open>internal/config\<close>), opens and replays a write-ahead log (\<open>internal/storage\<close>), and starts a
  Raft node (\<open>internal/raft\<close>) that talks to its peers through a transport
  (\<open>internal/transport\<close>, over gRPC; \<open>tests/chaos\<close> has one in memory).  Clients use an HTTP
  interface (\<open>internal/api\<close>): it hands writes to the node as serialised commands, waits until
  they are applied, and reads from the key-value store (\<open>internal/kvstore\<close>).  Committed entries
  travel from the node through a channel to a consumer in \<open>main\<close> that applies them to the store.

  \<^bold>\<open>Conventions.\<close> A Go \<open>uint64\<close> is a 64-bit word, with wrap-around, and \<open>int(x)\<close> of it is its
  signed value; strings and byte slices are lists of bytes; a map is a partial function; a panic
  is \<open>None\<close>; an error return is \<open>Inl\<close>.  Structs are records, and the field names get a prefix
  where they would clash.  A section of code under the node's mutex is one function on the record
  \<open>Node\<close>; what a goroutine captured before it released the lock is an argument of the section it
  runs later.  Outcomes that the code does not determine are arguments too: the draws of the
  random generator (\<open>rnd\<close>), the outcomes of system calls on WAL files (a script \<open>io\<close> inside
  \<open>WAL\<close>), the states that the separate calls of one HTTP request find (\<open>Seen\<close>), the order in which a
  Go map is visited, and the gRPC library.

  \<^bold>\<open>Theories and the code they model.\<close>
  \<^item> \<open>Raft_Prelude\<close>: Go's slices, maps and integers, facts on words and lists.  \<open>Raft_Types\<close>:
    \<open>types.go\<close> and \<open>errors.go\<close>.  \<open>Raft_Log\<close>: \<open>log.go\<close>, every method of \<open>RaftLog\<close>.
  \<^item> \<open>Raft_Node\<close>: \<open>node.go\<close> apart from heartbeats: construction, recovery, timers, \<open>startElection\<close>,
    \<open>HandleRequestVote\<close>, \<open>HandleAppendEntries\<close>, role changes, status.  \<open>Raft_Replication\<close>:
    heartbeats and conflict hints of \<open>node.go\<close>, and \<open>replication.go\<close>: building requests, handling
    replies, advancing the commit index, the apply loop, \<open>SubmitCommand\<close>.
  \<^item> \<open>Raft_Cluster\<close>: all nodes of a cluster with the messages between them.  An event runs one
    locked section of one node, so a run (\<open>exec\<close>, \<open>reachable\<close>) is any interleaving of all
    goroutines; messages stay in the network, which covers loss, delay, duplication and
    reordering.  \<open>Raft_Goroutines\<close>: an iteration of the loops \<open>run\<close>, \<open>replicateLog\<close> and
    \<open>applyLoop\<close> with the conditions that end them.
  \<^item> \<open>Raft_Transport\<close>: \<open>transport.go\<close>, and what the goroutines that make a call do with its outcome.
  \<^item> \<open>Storage_Wal\<close>: \<open>wal.go\<close>, down to the bytes of its files, their rotation and truncation.
    \<open>Go_Json\<close>: the parts of \<open>encoding/json\<close> and its helpers that the program uses.  \<open>Kv_Store\<close>:
    \<open>store.go\<close>.
  \<^item> \<open>Go_Strings\<close>: the functions of \<open>strings\<close> and \<open>path/filepath\<close> in use.  \<open>Server_Config\<close>:
    \<open>config.go\<close> with package \<open>flag\<close>.  \<open>Http_Api\<close>: \<open>handler.go\<close> with the parts of \<open>net/http\<close> it calls.
    \<open>Grpc_Transport\<close>: \<open>grpc.go\<close>, \<open>server.go\<close> and the message structs of \<open>pkg/proto\<close>.
    \<open>Test_Transport\<close>: \<open>tests/chaos/test_transport.go\<close>.  \<open>Server_Main\<close>: \<open>main.go\<close>.

  \<^bold>\<open>Interfaces.\<close> Locales state what one part promises another: \<open>quorum_system\<close> (any two quorums
  intersect; the code's majorities), \<open>cluster_invariant\<close> and \<open>history_invariant\<close> (a property kept by
  every step holds in every run; \<open>elections\<close>, \<open>logs\<close>, \<open>safety\<close>, \<open>ranges\<close>), \<open>string_map\<close> (the laws of a map; the
  store), \<open>raft_transport\<close> (a request is handled at most once and a reply is the handler's; both
  transports).

  \<^bold>\<open>What is shown.\<close>
  \<^item> The protocol, over all runs of clusters of any size (\<open>Raft_Election\<close>, \<open>Raft_History\<close>,
    \<open>Raft_Log_Matching\<close>, \<open>Raft_Commit\<close>, \<open>Raft_Safety\<close>, \<open>Raft_Theorems\<close>, \<open>Raft_Commit_Rule\<close>):
    one leader per term, leaders only append, logs match, committed entries are never lost, later
    leaders have them, committed logs agree, and the sort-based commit rule is the
    highest index of the current term on a majority.
  \<^item> Progress (\<open>Raft_Total\<close>, \<open>Raft_Progress\<close>, \<open>Raft_Drain\<close>, \<open>Raft_Electable\<close>, \<open>Raft_Availability\<close>): no
    event of a run panics; a leader brings a follower its log within four events for each step of
    \<open>nextIndex\<close>; the apply loop empties what is committed into the store; from every state of a
    run of two or more nodes there is a continuation that elects a leader and completes a given
    command, whereas a cluster of one node never has a leader.  These are statements that a run
    exists: the model has no clock and so no schedule that must happen.
  \<^item> Goroutines (\<open>Raft_Goroutines\<close>): while no leader starts an election, a leader has one live
    replication loop for each peer, other nodes have none, and \<open>Stop\<close> ends them all; an election
    that overtakes a victory leaks loops.
  \<^item> From the log to the client (\<open>Raft_Apply\<close>, \<open>Kv_Store_Laws\<close>, \<open>Http_Laws\<close>, \<open>Http_Cluster\<close>): every
    store is a prefix of one sequence of commands, acknowledged commands stay, an acknowledged
    \<open>PUT\<close> is read by a later \<open>GET\<close> of a node that has applied everything, replies are well formed,
    requests change the node only by submitting their command.  Also that a read right after an
    acknowledged write may miss it.
  \<^item> Persistence (\<open>Go_Json_Laws\<close>, \<open>Go_Json_Fuel\<close>, \<open>Storage_Wal_Laws\<close>, \<open>Storage_Wal_Dir\<close>,
    \<open>Storage_Wal_Recovery\<close>, \<open>Raft_Restart\<close>, \<open>Raft_Wal_Errors\<close>): records survive encoding, rotation and
    a torn last write; one changed byte is detected; a node comes back from its WAL with its term,
    vote and log as long as it only extended its log; replaced suffixes come back wrongly; failed
    writes do not change what handlers answer.
  \<^item> The shell around it: configurations survive being written as flags, a process boots into
    the initial or the recovered state, both transports are runs of the cluster model.

  \<^bold>\<open>Bounds.\<close> The JSON parser recurses on fuel, one more than the length of its input;
  \<open>Go_Json_Fuel\<close> shows that more fuel never changes its result.  All other functions are total by
  structural recursion or by a measure.  Runs stay in states where no term is \<open>2 ^ 64 - 1\<close>
  (\<open>terms_small\<close>); slices have fewer than \<open>2 ^ 63\<close> elements, as in Go.

  \<^bold>\<open>Not modelled.\<close> Logging and metrics, which nothing reads back.  Real time: timers are set and
  stopped as in the code, and may fire at any moment; RPC deadlines appear as lost messages.  The
  sockets and signals behind \<open>Serve\<close>, \<open>ListenAndServe\<close> and \<open>signal.Notify\<close>.  The wire format and the
  accessors of the generated protobuf code, which belong to the protobuf library; only the message
  structs are in the model.  The unused \<open>commandCh\<close> with its two structs.  Data races outside the
  mutexes: the model takes locked sections as atomic.  The dashboard, a separate TypeScript front
  end that only displays the status of the nodes.
\<close>

end
